(* ===== verification/Prelude.thy ===== *)
theory Prelude
  imports Main "HOL-Library.Word" "HOL-Library.Sublist"
begin

text \<open>
  Shared vocabulary of the development: names for the machine types of the Go sources, the
  collections of facts that carry the component proofs, and the models of the few standard
  library routines that several components call (\<open>sort.Search\<close>, \<open>strings.HasPrefix\<close> and
  kin). Nothing in here is specific to one package.
\<close>

section \<open>Names for Go's types\<close>

type_synonym u8 = "8 word"        \<comment> \<open>\<open>byte\<close>\<close>
type_synonym u32 = "32 word"      \<comment> \<open>\<open>uint32\<close>\<close>
type_synonym bytes = "u8 list"    \<comment> \<open>\<open>[]byte\<close>\<close>
type_synonym rune = nat           \<comment> \<open>\<open>rune\<close>; no negative rune arises in the sources\<close>

text \<open>The bytes of a Go string: Isabelle characters are bytes.\<close>

definition bytes_of :: "string \<Rightarrow> bytes" where
  "bytes_of s = map of_char s"

text \<open>Facts about how an operation keeps a component's well-formedness invariant.\<close>
named_theorems inv_intros "operations keep the invariants"

text \<open>Unfolding equations of small wrappers, used to run the models.\<close>
named_theorems model_defs "definitions unfolded when a model is run"

section \<open>Binary search: \<open>sort.Search\<close>\<close>

text \<open>
  \<open>sort.Search(n, f)\<close> of the Go library keeps \<open>f(i-1) = false\<close>, \<open>f(j) = true\<close> and halves
  \<open>[i, j)\<close> until it is empty.
\<close>

function search_loop :: "(nat \<Rightarrow> bool) \<Rightarrow> nat \<Rightarrow> nat \<Rightarrow> nat" where
  "search_loop f i j =
     (if i < j
      then (let h = (i + j) div 2
            in if \<not> f h then search_loop f (Suc h) j else search_loop f i h)
      else i)"
  by pat_completeness auto
termination
  by (relation "measure (\<lambda>(f, i, j). j - i)") auto

declare search_loop.simps [simp del]

definition sort_Search :: "nat \<Rightarrow> (nat \<Rightarrow> bool) \<Rightarrow> nat" where
  "sort_Search n f = search_loop f 0 n"

text \<open>On a predicate that stays true once it is true, the result is the boundary.\<close>

definition monotone_below :: "nat \<Rightarrow> (nat \<Rightarrow> bool) \<Rightarrow> bool" where
  "monotone_below n f \<longleftrightarrow> (\<forall>x y. x \<le> y \<longrightarrow> y < n \<longrightarrow> f x \<longrightarrow> f y)"

lemma monotone_belowD: "monotone_below n f \<Longrightarrow> f x \<Longrightarrow> x \<le> y \<Longrightarrow> y < n \<Longrightarrow> f y"
  by (auto simp: monotone_below_def)

lemma search_loop_boundary:
  assumes "monotone_below n f" "i \<le> j" "j \<le> n"
    and "\<forall>k<i. \<not> f k" "\<forall>k. j \<le> k \<and> k < n \<longrightarrow> f k"
  shows "search_loop f i j \<le> n \<and> (\<forall>k<n. f k \<longleftrightarrow> search_loop f i j \<le> k)"
  using assms
proof (induction f i j rule: search_loop.induct)
  case (1 f i j)
  show ?case
  proof (cases "i < j")
    case False
    with "1.prems" have "i = j" "\<And>k. k < n \<Longrightarrow> f k \<longleftrightarrow> j \<le> k"
      by (auto simp: not_less [symmetric])
    with "1.prems" show ?thesis by (simp add: search_loop.simps [of f j j])
  next
    case lt: True
    define h where "h = (i + j) div 2"
    have h: "i \<le> h" "h < j" using lt by (auto simp: h_def)
    show ?thesis
    proof (cases "f h")
      case True
      then have "\<forall>k. h \<le> k \<and> k < n \<longrightarrow> f k"
        using "1.prems"(1) by (auto intro: monotone_belowD)
      with "1.IH"(2) [OF lt h_def] "1.prems" h True lt show ?thesis
        by (simp add: search_loop.simps [of f i j] h_def Let_def)
    next
      case False
      have "\<forall>k<Suc h. \<not> f k"
        using False "1.prems"(1,3) h by (metis less_Suc_eq_le less_le_trans monotone_belowD)
      with "1.IH"(1) [OF lt h_def] "1.prems" h False lt show ?thesis
        by (simp add: search_loop.simps [of f i j] h_def Let_def)
    qed
  qed
qed

lemma sort_Search_boundary:
  assumes "monotone_below n f"
  shows "sort_Search n f \<le> n" and "k < n \<Longrightarrow> f k \<longleftrightarrow> sort_Search n f \<le> k"
proof -
  have "\<forall>k. n \<le> k \<and> k < n \<longrightarrow> f k" by auto
  with search_loop_boundary [OF assms, of 0 n]
  have "sort_Search n f \<le> n \<and> (\<forall>k<n. f k \<longleftrightarrow> sort_Search n f \<le> k)"
    by (simp add: sort_Search_def)
  then show "sort_Search n f \<le> n" and "k < n \<Longrightarrow> f k \<longleftrightarrow> sort_Search n f \<le> k"
    by simp_all
qed

lemma sort_Search_eqI:
  assumes "m \<le> n" "\<And>k. k < m \<Longrightarrow> \<not> f k" "\<And>k. m \<le> k \<Longrightarrow> k < n \<Longrightarrow> f k"
  shows "sort_Search n f = m"
proof -
  have "monotone_below n f"
    unfolding monotone_below_def using assms(2,3) by (meson leI le_trans)
  note b = sort_Search_boundary [OF this]
  show ?thesis
  proof (rule antisym)
    show "m \<le> sort_Search n f"
      using b assms by (metis le_less_linear le_trans less_le_trans order_refl)
    show "sort_Search n f \<le> m"
      using b assms by (metis le_less order_refl)
  qed
qed

section \<open>Reversing a slice in place\<close>

text \<open>
  The idiom \<open>for i, j := 0, len(s)-1; i < j; i, j = i+1, j-1 { s[i], s[j] = s[j], s[i] }\<close>,
  which the sources use four times. With \<open>len(s) = 0\<close> Go's \<open>j\<close> is \<open>-1\<close> and the loop does not
  run, as here with \<open>j = 0\<close>.
\<close>

function reverse_loop :: "'a list \<Rightarrow> nat \<Rightarrow> nat \<Rightarrow> 'a list" where
  "reverse_loop s i j =
     (if i < j then reverse_loop (s[i := s ! j, j := s ! i]) (i + 1) (j - 1) else s)"
  by pat_completeness auto
termination
  by (relation "measure (\<lambda>(s, i, j). j - i)") auto

declare reverse_loop.simps [simp del]

definition reverse_slice :: "'a list \<Rightarrow> 'a list" where
  "reverse_slice s = reverse_loop s 0 (length s - 1)"

lemma reverse_loop_nth:
  assumes "i + j + 1 = length s" "k < length s"
  shows "reverse_loop s i j ! k = (if i \<le> k \<and> k \<le> j then s ! (i + j - k) else s ! k)
    \<and> length (reverse_loop s i j) = length s"
  using assms
proof (induction s i j rule: reverse_loop.induct)
  case (1 s i j)
  show ?case
  proof (cases "i < j")
    case True
    define t where "t = s[i := s ! j, j := s ! i]"
    have "reverse_loop t (i + 1) (j - 1) ! k =
        (if i + 1 \<le> k \<and> k \<le> j - 1 then t ! (i + 1 + (j - 1) - k) else t ! k)
      \<and> length (reverse_loop t (i + 1) (j - 1)) = length t"
      unfolding t_def using True "1.prems" by (intro "1.IH") auto
    moreover have "reverse_loop s i j = reverse_loop t (i + 1) (j - 1)"
      using True by (simp add: reverse_loop.simps [of s i j] t_def)
    ultimately show ?thesis
      using True "1.prems" by (auto simp: t_def nth_list_update)
  next
    case False
    then have "reverse_loop s i j = s" by (simp add: reverse_loop.simps [of s i j])
    moreover have "i \<le> k \<and> k \<le> j \<Longrightarrow> i + j - k = k" using False by auto
    ultimately show ?thesis by auto
  qed
qed

lemma reverse_slice_eq [simp]: "reverse_slice s = rev s"
proof (cases s)
  case Nil
  then show ?thesis by (simp add: reverse_slice_def reverse_loop.simps)
next
  case (Cons a t)
  have l: "0 + (length s - 1) + 1 = length s" using Cons by simp
  show ?thesis
  proof (rule nth_equalityI)
    show "length (reverse_slice s) = length (rev s)"
      using reverse_loop_nth [OF l, of 0] Cons by (simp add: reverse_slice_def)
  next
    fix k assume "k < length (reverse_slice s)"
    then have "k < length s" using reverse_loop_nth [OF l, of 0] Cons by (simp add: reverse_slice_def)
    then show "reverse_slice s ! k = rev s ! k"
      using reverse_loop_nth [OF l, of k] by (auto simp: reverse_slice_def rev_nth)
  qed
qed

section \<open>UTF-8: \<open>utf8.EncodeRune\<close> and \<open>utf8.DecodeRune\<close>\<close>

definition RuneError :: rune where
  "RuneError = 0xFFFD"

definition valid_rune :: "rune \<Rightarrow> bool" where
  "valid_rune r \<longleftrightarrow> r < 0xD800 \<or> (0xE000 \<le> r \<and> r \<le> 0x10FFFF)"

text \<open>Go's conversion \<open>byte(k)\<close>.\<close>

definition byte :: "nat \<Rightarrow> u8" where
  "byte k = of_nat k"

definition encode_rune :: "rune \<Rightarrow> bytes" where
  "encode_rune r0 =
     (let r = (if valid_rune r0 then r0 else RuneError)
      in if r < 0x80 then [byte r]
         else if r < 0x800 then [byte (0xC0 + r div 64), byte (0x80 + r mod 64)]
         else if r < 0x10000
         then [byte (0xE0 + r div 64 div 64), byte (0x80 + r div 64 mod 64), byte (0x80 + r mod 64)]
         else [byte (0xF0 + r div 64 div 64 div 64), byte (0x80 + r div 64 div 64 mod 64),
               byte (0x80 + r div 64 mod 64), byte (0x80 + r mod 64)])"

text \<open>\<open>string(atoms)\<close>.\<close>

definition encode_runes :: "rune list \<Rightarrow> bytes" where
  "encode_runes rs = concat (map encode_rune rs)"

definition cont :: "u8 \<Rightarrow> bool" where
  "cont b \<longleftrightarrow> 0x80 \<le> unat b \<and> unat b \<le> 0xBF"

text \<open>The accepted range of the second byte depends on the first.\<close>

definition second_ok :: "u8 \<Rightarrow> u8 \<Rightarrow> bool" where
  "second_ok b0 b1 \<longleftrightarrow>
     (if b0 = 0xE0 then 0xA0 \<le> unat b1 \<and> unat b1 \<le> 0xBF
      else if b0 = 0xED then 0x80 \<le> unat b1 \<and> unat b1 \<le> 0x9F
      else if b0 = 0xF0 then 0x90 \<le> unat b1 \<and> unat b1 \<le> 0xBF
      else if b0 = 0xF4 then 0x80 \<le> unat b1 \<and> unat b1 \<le> 0x8F
      else cont b1)"

definition decode_rune :: "bytes \<Rightarrow> rune \<times> nat" where
  "decode_rune bs =
     (case bs of
        [] \<Rightarrow> (RuneError, 0)
      | b0 # t0 \<Rightarrow>
          let n0 = unat b0 in
          if n0 < 0x80 then (n0, 1)
          else if n0 < 0xC2 \<or> 0xF4 < n0 then (RuneError, 1)
          else case t0 of [] \<Rightarrow> (RuneError, 1) | b1 # t1 \<Rightarrow>
            if \<not> second_ok b0 b1 then (RuneError, 1)
            else if n0 < 0xE0 then ((n0 - 0xC0) * 64 + (unat b1 - 0x80), 2)
            else case t1 of [] \<Rightarrow> (RuneError, 1) | b2 # t2 \<Rightarrow>
              if \<not> cont b2 then (RuneError, 1)
              else if n0 < 0xF0
              then (((n0 - 0xE0) * 64 + (unat b1 - 0x80)) * 64 + (unat b2 - 0x80), 3)
              else case t2 of [] \<Rightarrow> (RuneError, 1) | b3 # _ \<Rightarrow>
                if \<not> cont b3 then (RuneError, 1)
                else ((((n0 - 0xF0) * 64 + (unat b1 - 0x80)) * 64
                      + (unat b2 - 0x80)) * 64 + (unat b3 - 0x80), 4))"

lemma unat_byte: "k < 256 \<Longrightarrow> unat (byte k) = k"
proof -
  assume "k < 256"
  moreover have "unat (of_nat k :: u8) = k mod 2 ^ LENGTH(8)" by (rule unat_of_nat)
  ultimately show ?thesis by (simp add: byte_def)
qed

lemma byte_eq: "k < 256 \<Longrightarrow> byte k = b \<longleftrightarrow> k = unat b"
  by (auto simp: unat_byte word_unat_eq_iff)

lemma cont_byte: "k < 64 \<Longrightarrow> cont (byte (0x80 + k))"
  by (simp add: cont_def unat_byte)

lemma second_ok_byte: "a < 256 \<Longrightarrow> k < 64 \<Longrightarrow>
    second_ok (byte a) (byte (0x80 + k)) \<longleftrightarrow>
      (a = 0xE0 \<longrightarrow> 0x20 \<le> k) \<and> (a = 0xED \<longrightarrow> k < 0x20) \<and>
      (a = 0xF0 \<longrightarrow> 0x10 \<le> k) \<and> (a = 0xF4 \<longrightarrow> k < 0x10)"
  by (auto simp: second_ok_def cont_def unat_byte byte_eq)

lemma decode_two:
  assumes "2 \<le> a" "a < 32" "c < 64"
  shows "decode_rune (byte (0xC0 + a) # byte (0x80 + c) # rest) = (a * 64 + c, 2)"
  using assms by (simp add: decode_rune_def Let_def unat_byte second_ok_byte)

lemma decode_three:
  assumes "a < 16" "b < 64" "c < 64" "a = 0 \<longrightarrow> 32 \<le> b" "a = 13 \<longrightarrow> b < 32"
  shows "decode_rune (byte (0xE0 + a) # byte (0x80 + b) # byte (0x80 + c) # rest)
    = ((a * 64 + b) * 64 + c, 3)"
  using assms by (simp add: decode_rune_def Let_def unat_byte second_ok_byte cont_byte)

lemma decode_four:
  assumes "a < 5" "b < 64" "c < 64" "d < 64" "a = 0 \<longrightarrow> 16 \<le> b" "a = 4 \<longrightarrow> b < 16"
  shows "decode_rune (byte (0xF0 + a) # byte (0x80 + b) # byte (0x80 + c) # byte (0x80 + d) # rest)
    = (((a * 64 + b) * 64 + c) * 64 + d, 4)"
  using assms by (simp add: decode_rune_def Let_def unat_byte second_ok_byte cont_byte)

lemma decode_encode_rune:
  assumes "valid_rune r"
  shows "decode_rune (encode_rune r @ rest) = (r, length (encode_rune r))"
proof -
  consider "r < 0x80" | "0x80 \<le> r" "r < 0x800" | "0x800 \<le> r" "r < 0x10000" | "0x10000 \<le> r"
    by linarith
  then show ?thesis
  proof cases
    case 1
    with assms show ?thesis by (simp add: encode_rune_def decode_rune_def unat_byte)
  next
    case 2
    then have "2 \<le> r div 64" "r div 64 < 32" by simp_all
    with 2 assms show ?thesis by (simp add: encode_rune_def decode_two)
  next
    case 3
    define q c a b where "q = r div 64" and "c = r mod 64" and "a = q div 64" and "b = q mod 64"
    have q: "r = q * 64 + c" "c < 64" "q = a * 64 + b" "b < 64"
      by (simp_all add: q_def c_def a_def b_def)
    have "q < 864 \<or> 896 \<le> q" using assms q(1,2) unfolding valid_rune_def by linarith
    moreover have "32 \<le> q" "q < 1024" using 3 q(1,2) by linarith+
    ultimately have "a < 16" "a = 0 \<longrightarrow> 32 \<le> b" "a = 13 \<longrightarrow> b < 32"
      using q(3,4) by arith+
    moreover have "encode_rune r = [byte (0xE0 + a), byte (0x80 + b), byte (0x80 + c)]"
      using 3 assms by (simp add: encode_rune_def flip: q_def c_def a_def b_def)
    ultimately show ?thesis using q by (simp add: decode_three)
  next
    case 4
    define q d p c a b where "q = r div 64" and "d = r mod 64" and "p = q div 64" and "c = q mod 64"
      and "a = p div 64" and "b = p mod 64"
    have q: "r = q * 64 + d" "d < 64" "q = p * 64 + c" "c < 64" "p = a * 64 + b" "b < 64"
      by (simp_all add: q_def d_def p_def c_def a_def b_def)
    have "r \<le> 0x10FFFF" using 4 assms by (auto simp: valid_rune_def)
    then have "16 \<le> p" "p < 272" using 4 q(1-4) by linarith+
    then have "a < 5" "a = 0 \<longrightarrow> 16 \<le> b" "a = 4 \<longrightarrow> b < 16" using q(5,6) by arith+
    moreover have "encode_rune r = [byte (0xF0 + a), byte (0x80 + b), byte (0x80 + c), byte (0x80 + d)]"
      using 4 assms by (simp add: encode_rune_def flip: q_def d_def p_def c_def a_def b_def)
    ultimately show ?thesis using q by (simp add: decode_four)
  qed
qed

lemma encode_rune_not_Nil [simp]: "encode_rune r \<noteq> []"
  by (simp add: encode_rune_def Let_def)

lemma decode_rune_size: "decode_rune bs = (r, n) \<Longrightarrow> r \<noteq> RuneError \<Longrightarrow> 0 < n \<and> bs \<noteq> []"
  by (auto simp: decode_rune_def Let_def split: list.splits if_splits)

end
