(* ===== verification/Charset.thy ===== *)
theory Charset
  imports Prelude
begin

unbundle bit_operations_syntax

text \<open>
  The byte sets of \<open>internal/matchset/matchset.go\<close>: \<open>type charset [8]uint32\<close> with
  \<open>Add\<close>, \<open>Invert\<close> and \<open>Contains\<close>, and \<open>charSetFromGroup\<close>, the scanner of a
  \<open>[...]\<close> group. A charset is the list of its eight words; \<open>charset_wf\<close> is the length
  that Go's array type guarantees, and \<open>cs_set\<close> the set of bytes a charset stands for.
\<close>

section \<open>The bit set\<close>

type_synonym charset = "u32 list"

definition cs_empty :: charset where
  "cs_empty = replicate 8 0"

definition cs_Add :: "charset \<Rightarrow> u8 \<Rightarrow> charset" where
  "cs_Add cs b =
     (let idx = b div 32;
          bit = push_bit (unat (b - idx * 32)) (1 :: u32)
      in cs[unat idx := cs ! unat idx OR bit])"

definition cs_Invert :: "charset \<Rightarrow> charset" where
  "cs_Invert cs = map (\<lambda>u. NOT u) cs"

definition cs_Contains :: "charset \<Rightarrow> u8 \<Rightarrow> bool" where
  "cs_Contains cs b =
     (let idx = b div 32;
          bit = push_bit (unat (b - idx * 32)) (1 :: u32)
      in (cs ! unat idx) AND bit \<noteq> 0)"

definition u32Max :: u32 where
  "u32Max = NOT 0"

definition cs_all :: charset where
  "cs_all = [u32Max, u32Max, u32Max, u32Max, u32Max, u32Max, u32Max, u32Max]"

definition charset_wf :: "charset \<Rightarrow> bool" where
  "charset_wf cs \<longleftrightarrow> length cs = 8"

definition cs_set :: "charset \<Rightarrow> u8 set" where
  "cs_set cs = {b. cs_Contains cs b}"

subsection \<open>What the operations do to the set\<close>

lemma unat_byte_index: "unat (b div 32 :: u8) = unat b div 32" for b :: u8
  by (simp add: unat_div)

lemma unat_byte_less: "unat b < 256" for b :: u8
proof -
  have "unat b < 2 ^ LENGTH(8)" by (rule unsigned_less)
  then show ?thesis by simp
qed

lemma unat_byte_offset: "unat (b - b div 32 * 32 :: u8) = unat b mod 32" for b :: u8
  by (simp add: minus_div_mult_eq_mod unat_mod)

lemma byte_index_less: "unat b div 32 < 8" for b :: u8
  using unat_byte_less [of b] by simp

lemma and_push_bit_one: "(w AND 2 ^ n \<noteq> 0) \<longleftrightarrow> bit w n" for w :: u32
  by (simp add: and_exp_eq_0_iff_not_bit)

lemma cs_Contains_bit: "cs_Contains cs b \<longleftrightarrow> bit (cs ! (unat b div 32)) (unat b mod 32)"
  by (simp add: cs_Contains_def Let_def unat_byte_index unat_byte_offset and_exp_eq_0_iff_not_bit)

lemma byte_split_eq: "unat a div 32 = unat b div 32 \<Longrightarrow> unat a mod 32 = unat b mod 32 \<Longrightarrow> a = b"
  for a b :: u8
  by (metis div_mult_mod_eq word_unat_eq_iff)

lemma charset_wf_empty [simp, inv_intros]: "charset_wf cs_empty"
  by (simp add: charset_wf_def cs_empty_def)

lemma charset_wf_all [simp, inv_intros]: "charset_wf cs_all"
  by (simp add: charset_wf_def cs_all_def)

lemma charset_wf_Add [simp, inv_intros]: "charset_wf cs \<Longrightarrow> charset_wf (cs_Add cs b)"
  by (simp add: charset_wf_def cs_Add_def Let_def)

lemma charset_wf_Invert [simp, inv_intros]: "charset_wf cs \<Longrightarrow> charset_wf (cs_Invert cs)"
  by (simp add: charset_wf_def cs_Invert_def)

lemma cs_set_empty [simp]: "cs_set cs_empty = {}"
  using byte_index_less by (auto simp: cs_set_def cs_Contains_bit cs_empty_def)

lemma cs_Contains_Add:
  assumes "charset_wf cs"
  shows "cs_Contains (cs_Add cs a) b \<longleftrightarrow> b = a \<or> cs_Contains cs b"
proof (cases "unat b div 32 = unat a div 32")
  case True
  have "cs_Contains (cs_Add cs a) b \<longleftrightarrow>
      bit (cs ! (unat a div 32) OR push_bit (unat a mod 32) 1) (unat b mod 32)"
    using True assms byte_index_less [of a]
    by (simp add: cs_Contains_bit cs_Add_def Let_def unat_byte_index unat_byte_offset charset_wf_def)
  also have "\<dots> \<longleftrightarrow> unat b mod 32 = unat a mod 32 \<or> cs_Contains cs b"
    using True by (auto simp: cs_Contains_bit bit_simps)
  finally show ?thesis using True byte_split_eq by metis
next
  case False
  with assms show ?thesis
    by (auto simp: cs_Contains_bit cs_Add_def Let_def unat_byte_index)
qed

lemma cs_Contains_Invert:
  assumes "charset_wf cs"
  shows "cs_Contains (cs_Invert cs) b \<longleftrightarrow> \<not> cs_Contains cs b"
  using assms byte_index_less [of b]
  by (simp add: cs_Contains_bit cs_Invert_def charset_wf_def bit_simps)

lemma cs_set_Add [simp]: "charset_wf cs \<Longrightarrow> cs_set (cs_Add cs b) = insert b (cs_set cs)"
  by (auto simp: cs_set_def cs_Contains_Add)

lemma cs_set_Invert [simp]: "charset_wf cs \<Longrightarrow> cs_set (cs_Invert cs) = - cs_set cs"
  by (auto simp: cs_set_def cs_Contains_Invert)

lemma cs_all_Invert: "cs_all = cs_Invert cs_empty"
  by (simp add: cs_all_def cs_Invert_def cs_empty_def u32Max_def numeral_eq_Suc)

lemma cs_set_all [simp]: "cs_set cs_all = UNIV"
  by (simp add: cs_all_Invert)

text \<open>Charsets are compared with Go's \<open>==\<close> on arrays, which is equality of the sets.\<close>

lemma cs_eq_iff_set_eq:
  assumes "charset_wf a" "charset_wf b"
  shows "a = b \<longleftrightarrow> cs_set a = cs_set b"
proof
  assume eq: "cs_set a = cs_set b"
  show "a = b"
  proof (rule nth_equalityI)
    show "length a = length b" using assms by (simp add: charset_wf_def)
  next
    fix i assume "i < length a"
    then have i: "i < 8" using assms by (simp add: charset_wf_def)
    show "a ! i = b ! i"
    proof (rule bit_word_eqI)
      fix n assume n: "n < LENGTH(32)"
      define c :: u8 where "c = of_nat (32 * i + n)"
      have "32 * i + n < 256" using i n by simp
      moreover have "unat c = (32 * i + n) mod 2 ^ LENGTH(8)" unfolding c_def by (rule unat_of_nat)
      ultimately have "unat c = 32 * i + n" by simp
      then have "unat c div 32 = i" "unat c mod 32 = n" using n by simp_all
      moreover have "cs_Contains a c \<longleftrightarrow> cs_Contains b c" using eq by (auto simp: cs_set_def)
      ultimately show "bit (a ! i) n \<longleftrightarrow> bit (b ! i) n" by (simp add: cs_Contains_bit)
    qed
  qed
qed simp

section \<open>Reading a group: \<open>charSetFromGroup\<close>\<close>

text \<open>
  The loop \<open>for ; char <= by; char++ { charSet.Add(char) }\<close> on bytes. \<open>char\<close> wraps at 255,
  so the loop need not return: \<open>None\<close> is a run that never ends.
\<close>

partial_function (option) add_range :: "charset \<Rightarrow> u8 \<Rightarrow> u8 \<Rightarrow> (u8 \<times> charset) option" where
  "add_range cs char b =
     (if char \<le> b then add_range (cs_Add cs char) (char + 1) b else Some (char, cs))"

declare add_range.simps [code]

text \<open>The local variables of \<open>charSetFromGroup\<close>.\<close>

record group_state =
  g_char :: u8              \<comment> \<open>last character read\<close>
  g_charRead :: bool        \<comment> \<open>a character is read\<close>
  g_charRange :: bool       \<comment> \<open>a character range expected\<close>
  g_charSet :: charset      \<comment> \<open>set of characters read\<close>
  g_inverted :: bool        \<comment> \<open>\<open>charSetInverted\<close>\<close>
  g_mayBeInverted :: bool   \<comment> \<open>\<open>charSetMayBeInverted\<close>\<close>

definition group_init :: group_state where
  "group_init = \<lparr>g_char = 0, g_charRead = False, g_charRange = False,
     g_charSet = cs_empty, g_inverted = False, g_mayBeInverted = False\<rparr>"

abbreviation "dash \<equiv> (0x2D :: u8)"
abbreviation "rbracket \<equiv> (0x5D :: u8)"
abbreviation "caret \<equiv> (0x5E :: u8)"

text \<open>One round of the loop over \<open>bytes\<close> per equation; \<open>i\<close> is the loop's index.\<close>

fun group_loop :: "nat \<Rightarrow> bytes \<Rightarrow> group_state \<Rightarrow> (group_state \<times> bytes) option" where
  "group_loop i [] g = Some (g, [])"
| "group_loop i (b # bs) g =
     (if b = rbracket \<and> i > 0 then Some (g, bs)
      else if b = dash \<and> g_charRead g \<and> \<not> g_charRange g
      then group_loop (Suc i) bs (g\<lparr>g_charRange := True\<rparr>)
      else
        let g1 = (if g_mayBeInverted g
                  then (if \<not> g_charRange g
                        then g\<lparr>g_charRead := False, g_inverted := True, g_mayBeInverted := False\<rparr>
                        else g\<lparr>g_mayBeInverted := False\<rparr>)
                  else g)
        in if g_charRange g1
           then (case add_range (g_charSet g1) (g_char g1) b of
                   None \<Rightarrow> None
                 | Some (c, cs) \<Rightarrow>
                     group_loop (Suc i) bs
                       (g1\<lparr>g_char := c, g_charSet := cs, g_charRead := False, g_charRange := False\<rparr>))
           else
             let g2 = (if g_charRead g1
                       then g1\<lparr>g_charSet := cs_Add (g_charSet g1) (g_char g1)\<rparr> else g1);
                 g3 = g2\<lparr>g_char := b, g_charRead := True\<rparr>;
                 g4 = (if i = 0 \<and> b = caret then g3\<lparr>g_mayBeInverted := True\<rparr> else g3)
             in group_loop (Suc i) bs g4)"

definition group_flush :: "group_state \<Rightarrow> charset" where
  "group_flush g =
     (let cs1 = (if g_charRead g \<and> \<not> g_mayBeInverted g
                 then cs_Add (g_charSet g) (g_char g) else g_charSet g)
      in if g_charRange g then cs_Add cs1 dash else cs1)"

definition group_finish :: "group_state \<Rightarrow> charset" where
  "group_finish g =
     (if g_inverted g \<or> g_mayBeInverted g then cs_Invert (group_flush g) else group_flush g)"

definition charSetFromGroup :: "bytes \<Rightarrow> (charset \<times> bytes) option" where
  "charSetFromGroup bs =
     (case group_loop 0 bs group_init of
        None \<Rightarrow> None
      | Some (g, bytesLeft) \<Rightarrow> Some (group_finish g, bytesLeft))"

subsection \<open>What a group means\<close>

text \<open>
  The reference reading of a group, written as a grammar and not as the scanner's state
  machine: items are single bytes or ranges \<open>a-c\<close>, a dash that ends the group is itself,
  \<open>^\<close> in front complements unless it starts a range, and \<open>]\<close> ends the group except in
  front.
\<close>

fun group_items :: "bytes \<Rightarrow> u8 set" where
  "group_items [] = {}"
| "group_items [a] = {a}"
| "group_items [a, b] = {a, b}"
| "group_items (a # b # c # r) =
     (if b = dash then {a..c} \<union> group_items r else insert a (group_items (b # c # r)))"

text \<open>The upper ends of the ranges that are not empty.\<close>

fun group_ends :: "bytes \<Rightarrow> u8 set" where
  "group_ends [] = {}"
| "group_ends [a] = {}"
| "group_ends [a, b] = {}"
| "group_ends (a # b # c # r) =
     (if b = dash then (if a \<le> c then {c} else {}) \<union> group_ends r else group_ends (b # c # r))"

definition group_body :: "bytes \<Rightarrow> bytes" where
  "group_body bs = take 1 bs @ takeWhile (\<lambda>b. b \<noteq> rbracket) (drop 1 bs)"

definition group_rest :: "bytes \<Rightarrow> bytes" where
  "group_rest bs = drop 1 (dropWhile (\<lambda>b. b \<noteq> rbracket) (drop 1 bs))"

text \<open>Whether a body is complemented, and the items it lists.\<close>

fun group_split :: "bytes \<Rightarrow> bool \<times> bytes" where
  "group_split (a # b # c # r) =
     (if a = caret \<and> b \<noteq> dash then (True, b # c # r) else (False, a # b # c # r))"
| "group_split (a # r) = (if a = caret then (True, r) else (False, a # r))"
| "group_split [] = (False, [])"

definition group_sem :: "bytes \<Rightarrow> u8 set" where
  "group_sem body = (case group_split body of
     (inverted, items) \<Rightarrow> if inverted then - group_items items else group_items items)"

definition group_safe :: "bytes \<Rightarrow> bool" where
  "group_safe body \<longleftrightarrow> 255 \<notin> group_ends (snd (group_split body))"

subsection \<open>The scanner computes it\<close>

lemma byte_succ_le: "a \<le> b \<Longrightarrow> b \<noteq> 255 \<Longrightarrow> unat (a + 1) = Suc (unat a)" for a b :: u8
proof -
  assume "a \<le> b" "b \<noteq> 255"
  then have "unat a \<le> unat b" "unat b \<noteq> 255"
    by (simp_all add: word_le_nat_alt word_unat_eq_iff)
  then have "unat a + 1 < 256" using unat_byte_less [of b] by linarith
  then show ?thesis by (simp add: unat_word_ariths)
qed

lemma byte_range_insert: "a \<le> b \<Longrightarrow> b \<noteq> 255 \<Longrightarrow> {a..b} = insert a {a + 1..b}" for a b :: u8
  using byte_succ_le [of a b]
  by (auto simp: word_le_nat_alt word_unat_eq_iff)

lemma add_range_total:
  assumes "b \<noteq> 255" "charset_wf cs"
  shows "\<exists>c cs'. add_range cs a b = Some (c, cs') \<and> charset_wf cs'
    \<and> cs_set cs' = cs_set cs \<union> {a..b}"
  using assms
proof (induction "Suc (unat b) - unat a" arbitrary: a cs rule: less_induct)
  case less
  show ?case
  proof (cases "a \<le> b")
    case True
    then have "Suc (unat b) - unat (a + 1) < Suc (unat b) - unat a"
      using byte_succ_le [of a b] less.prems by (simp add: word_le_nat_alt)
    from less.hyps [OF this, of "cs_Add cs a"] less.prems True show ?thesis
      by (auto simp: add_range.simps [of cs a b] byte_range_insert)
  next
    case False
    with less.prems show ?thesis by (auto simp: add_range.simps [of cs a b])
  qed
qed

lemma byte_le_255 [simp]: "a \<le> 255" for a :: u8
  using unat_byte_less [of a] by (simp add: word_le_nat_alt)

lemma add_range_255: "add_range cs a 255 = None"
proof -
  have "b \<noteq> 255" if "add_range cs a b = Some r" for cs a b r
    by (rule add_range.raw_induct [OF _ that, where P = "\<lambda>cs a b r. b \<noteq> 255"])
      (auto split: if_splits)
  then show ?thesis by (metis not_None_eq)
qed

lemma add_range_empty: "\<not> a \<le> b \<Longrightarrow> add_range cs a b = Some (a, cs)"
  by (simp add: add_range.simps [of cs a b])

lemma group_items_step: "b \<noteq> dash \<Longrightarrow> group_items (a # b # r) = insert a (group_items (b # r))"
  by (cases r) auto

lemma group_ends_step: "b \<noteq> dash \<Longrightarrow> group_ends (a # b # r) = group_ends (b # r)"
  by (cases r) auto

text \<open>The bytes the scanner has read but not yet added, put back in front of the rest.\<close>

definition group_pending :: "group_state \<Rightarrow> bytes \<Rightarrow> bytes" where
  "group_pending g r =
     (if g_charRange g then g_char g # dash # r
      else if g_charRead g then g_char g # r else r)"

definition group_state_ok :: "group_state \<Rightarrow> bool" where
  "group_state_ok g \<longleftrightarrow> charset_wf (g_charSet g) \<and> \<not> g_mayBeInverted g
     \<and> (g_charRange g \<longrightarrow> g_charRead g)"

abbreviation "inside \<equiv> takeWhile (\<lambda>b. b \<noteq> rbracket)"
abbreviation "after \<equiv> \<lambda>bs. drop 1 (dropWhile (\<lambda>b. b \<noteq> rbracket) bs)"

definition group_loop_post :: "group_state \<Rightarrow> bytes \<Rightarrow> (group_state \<times> bytes) option \<Rightarrow> bool" where
  "group_loop_post g bs r \<longleftrightarrow>
     (if 255 \<in> group_ends (group_pending g (inside bs)) then r = None
      else \<exists>g'. r = Some (g', after bs) \<and> g_inverted g' = g_inverted g \<and> \<not> g_mayBeInverted g'
        \<and> charset_wf (group_flush g')
        \<and> cs_set (group_flush g') = cs_set (g_charSet g) \<union> group_items (group_pending g (inside bs)))"

lemma group_loop_post_end:
  "group_state_ok g \<Longrightarrow> inside bs = [] \<Longrightarrow> group_loop_post g bs (Some (g, after bs))"
  by (auto simp: group_loop_post_def group_state_ok_def group_pending_def group_flush_def Let_def)

lemma group_loop_meets_post:
  "group_state_ok g \<Longrightarrow> 0 < i \<Longrightarrow> group_loop_post g bs (group_loop i bs g)"
proof (induction bs arbitrary: g i)
  case Nil
  then show ?case using group_loop_post_end [of g "[]"] by simp
next
  case (Cons b bs)
  note ok = Cons.prems(1) [unfolded group_state_ok_def]
  show ?case
  proof (cases "b = rbracket")
    case True
    then show ?thesis using group_loop_post_end [OF Cons.prems(1), of "b # bs"] Cons.prems by simp
  next
    case nb: False
    show ?thesis
    proof (cases "b = dash \<and> g_charRead g \<and> \<not> g_charRange g")
      case True
      define g1 where "g1 = g\<lparr>g_charRange := True\<rparr>"
      have "group_loop_post g1 bs (group_loop (Suc i) bs g1)"
        using ok True by (intro Cons.IH) (auto simp: group_state_ok_def g1_def)
      then show ?thesis using True nb
        by (simp add: group_loop_post_def group_pending_def g1_def split: if_splits)
    next
      case nd: False
      show ?thesis
      proof (cases "g_charRange g")
        case True
        show ?thesis
        proof (cases "g_char g \<le> b \<and> b = 255")
          case True': True
          then have "group_loop i (b # bs) g = None"
            using nb nd ok \<open>g_charRange g\<close> by (simp add: add_range_255 Let_def)
          then show ?thesis using True' nb \<open>g_charRange g\<close>
            by (simp add: group_loop_post_def group_pending_def)
        next
          case False
          then obtain c cs where r: "add_range (g_charSet g) (g_char g) b = Some (c, cs)"
              "charset_wf cs" "cs_set cs = cs_set (g_charSet g) \<union> {g_char g..b}"
            using ok add_range_total [of b "g_charSet g" "g_char g"]
              add_range_empty [of "g_char g" b "g_charSet g"]
            by (cases "b = 255") auto
          define g1 where "g1 = g\<lparr>g_char := c, g_charSet := cs, g_charRead := False, g_charRange := False\<rparr>"
          have "group_loop_post g1 bs (group_loop (Suc i) bs g1)"
            using ok r by (intro Cons.IH) (auto simp: group_state_ok_def g1_def)
          then show ?thesis using True False nb nd r ok
            by (auto simp: group_loop_post_def group_pending_def g1_def Let_def)
        qed
      next
        case False
        define g1 where "g1 = g\<lparr>g_charSet := (if g_charRead g then cs_Add (g_charSet g) (g_char g)
          else g_charSet g), g_char := b, g_charRead := True\<rparr>"
        have "group_loop_post g1 bs (group_loop (Suc i) bs g1)"
          using ok False by (intro Cons.IH) (auto simp: group_state_ok_def g1_def)
        moreover have "group_loop i (b # bs) g = group_loop (Suc i) bs g1"
          using ok nd nb False Cons.prems(2) by (auto simp: Let_def g1_def)
        moreover have "g_charRead g \<Longrightarrow> b \<noteq> dash" using nd False by simp
        ultimately show ?thesis using False nb ok
          by (auto simp: group_loop_post_def group_pending_def g1_def group_items_step group_ends_step
              split: if_splits)
      qed
    qed
  qed
qed

text \<open>The whole function against the reference reading.\<close>

definition group_result_ok :: "bytes \<Rightarrow> (charset \<times> bytes) option \<Rightarrow> bool" where
  "group_result_ok bs r \<longleftrightarrow>
     (if group_safe (group_body bs)
      then \<exists>cs. r = Some (cs, group_rest bs) \<and> charset_wf cs \<and> cs_set cs = group_sem (group_body bs)
      else r = None)"

lemma group_result_from_post:
  assumes "group_loop_post g r (group_loop i r g)" and "group_loop 0 bs group_init = group_loop i r g"
    and "group_split (group_body bs) = (g_inverted g, group_pending g (inside r))"
    and "g_charSet g = cs_empty" and "group_rest bs = after r"
  shows "group_result_ok bs (charSetFromGroup bs)"
  using assms
  by (auto simp: group_result_ok_def group_loop_post_def charSetFromGroup_def group_safe_def
      group_sem_def group_finish_def split: if_splits)

lemma group_split_caret: "group_split (caret # r) =
   (if length r \<ge> 2 \<and> hd r = dash then (False, caret # r) else (True, r))"
  by (cases r rule: group_items.cases) auto

lemma group_split_plain: "a \<noteq> caret \<Longrightarrow> group_split (a # r) = (False, a # r)"
  by (cases r rule: group_items.cases) auto

lemma charSetFromGroup_caret: "group_result_ok (caret # r) (charSetFromGroup (caret # r))"
proof -
  define g where "g = group_init\<lparr>g_char := caret, g_charRead := True\<rparr>"
  have start: "group_loop 0 (caret # r) group_init = group_loop 1 r (g\<lparr>g_mayBeInverted := True\<rparr>)"
    by (simp add: group_init_def g_def Let_def)
  show ?thesis
  proof (cases "inside r")
    case Nil
    then have "group_loop 1 r (g\<lparr>g_mayBeInverted := True\<rparr>) =
        Some (g\<lparr>g_mayBeInverted := True\<rparr>, after r)"
      by (cases r) (auto split: if_splits)
    with start Nil show ?thesis
      by (simp add: group_result_ok_def charSetFromGroup_def group_body_def group_rest_def group_safe_def
          group_sem_def group_finish_def group_flush_def g_def group_init_def)
  next
    case (Cons x xs)
    then obtain r' where r: "r = x # r'" "x \<noteq> rbracket" "xs = inside r'"
      by (cases r) (auto split: if_splits)
    show ?thesis
    proof (cases "x = dash")
      case False
      define g1 where "g1 = g\<lparr>g_charRead := False, g_inverted := True\<rparr>"
      have "group_loop_post g1 r (group_loop 1 r g1)"
        by (rule group_loop_meets_post) (simp_all add: group_state_ok_def g1_def g_def group_init_def)
      then show ?thesis
      proof (rule group_result_from_post)
        show "group_loop 0 (caret # r) group_init = group_loop 1 r g1"
          unfolding start using False r by (simp add: g1_def g_def group_init_def Let_def)
        show "group_split (group_body (caret # r)) = (g_inverted g1, group_pending g1 (inside r))"
          using False r by (simp add: group_body_def group_split_caret g1_def g_def group_init_def
              group_pending_def)
      qed (simp_all add: g1_def g_def group_init_def group_rest_def)
    next
      case dash: True
      define g1 where "g1 = g\<lparr>g_charRange := True\<rparr>"
      have two: "group_loop 0 (caret # r) group_init = group_loop 2 r' (g1\<lparr>g_mayBeInverted := True\<rparr>)"
        unfolding start using dash r by (simp add: g1_def g_def group_init_def numeral_2_eq_2)
      show ?thesis
      proof (cases xs)
        case Nil
        then have "group_loop 2 r' (g1\<lparr>g_mayBeInverted := True\<rparr>) =
            Some (g1\<lparr>g_mayBeInverted := True\<rparr>, after r')"
          using r by (cases r') (auto split: if_splits)
        with two Nil r dash show ?thesis
          by (simp add: group_result_ok_def charSetFromGroup_def group_body_def group_rest_def
              group_safe_def group_sem_def group_finish_def group_flush_def g1_def g_def
              group_init_def Let_def)
      next
        case Cons': (Cons y ys)
        then obtain r'' where r': "r' = y # r''" "y \<noteq> rbracket"
          using r by (cases r') (auto split: if_splits)
        have "group_loop_post g1 r' (group_loop 2 r' g1)"
          by (rule group_loop_meets_post)
            (simp_all add: group_state_ok_def g1_def g_def group_init_def)
        then show ?thesis
        proof (rule group_result_from_post)
          show "group_loop 0 (caret # r) group_init = group_loop 2 r' g1"
            unfolding two using r' by (simp add: g1_def g_def group_init_def Let_def)
          show "group_split (group_body (caret # r)) = (g_inverted g1, group_pending g1 (inside r'))"
            using dash r r' by (simp add: group_body_def group_split_caret g1_def g_def group_init_def
                group_pending_def)
        qed (use dash r in \<open>simp_all add: g1_def g_def group_init_def group_rest_def\<close>)
      qed
    qed
  qed
qed

lemma charSetFromGroup_correct: "group_result_ok bs (charSetFromGroup bs)"
proof (cases bs)
  case Nil
  then show ?thesis
    by (simp add: group_result_ok_def charSetFromGroup_def group_init_def group_body_def group_rest_def
        group_safe_def group_sem_def group_finish_def group_flush_def)
next
  case (Cons b r)
  show ?thesis
  proof (cases "b = caret")
    case True
    with Cons charSetFromGroup_caret show ?thesis by simp
  next
    case False
    define g where "g = group_init\<lparr>g_char := b, g_charRead := True\<rparr>"
    have "group_loop_post g r (group_loop 1 r g)"
      by (rule group_loop_meets_post) (simp_all add: group_state_ok_def g_def group_init_def)
    then show ?thesis
    proof (rule group_result_from_post)
      show "group_loop 0 bs group_init = group_loop 1 r g"
        using False Cons by (simp add: g_def group_init_def Let_def)
      show "group_split (group_body bs) = (g_inverted g, group_pending g (inside r))"
        using False Cons by (simp add: group_body_def group_split_plain g_def group_init_def
            group_pending_def)
    qed (use Cons in \<open>simp_all add: g_def group_init_def group_rest_def\<close>)
  qed
qed

lemma charSetFromGroup_SomeD:
  assumes "charSetFromGroup bs = Some (cs, left)"
  shows "group_safe (group_body bs)" "left = group_rest bs" "charset_wf cs"
    "cs_set cs = group_sem (group_body bs)"
proof -
  have r: "group_result_ok bs (Some (cs, left))" using charSetFromGroup_correct [of bs] assms by simp
  then show "group_safe (group_body bs)" unfolding group_result_ok_def by (metis option.discI)
  with r show "left = group_rest bs" "charset_wf cs" "cs_set cs = group_sem (group_body bs)"
    unfolding group_result_ok_def by auto
qed

lemma charSetFromGroup_NoneD: "charSetFromGroup bs = None \<Longrightarrow> \<not> group_safe (group_body bs)"
  using charSetFromGroup_correct [of bs] unfolding group_result_ok_def by (metis option.discI)

section \<open>Properties\<close>

text \<open>
  Reading a group stops exactly when no range of it ends in byte 255; then the charset holds
  the bytes the reference reading of the group body gives (inverted after a leading caret), and
  the rest of the pattern starts after the first closing bracket that is not the first byte.
\<close>
theorem charSetFromGroup_spec:
  "case charSetFromGroup bs of
     None \<Rightarrow> \<not> group_safe (group_body bs)
   | Some (cs, left) \<Rightarrow> group_safe (group_body bs) \<and> left = group_rest bs \<and>
       charset_wf cs \<and> cs_set cs = group_sem (group_body bs)"
  by (auto dest: charSetFromGroup_NoneD charSetFromGroup_SomeD split: option.split)

text \<open>
  Sixteen 32-bit words are a set of bytes: \<open>Contains\<close> after \<open>Add\<close> and after \<open>Invert\<close>.
\<close>
theorem charset_operations:
  assumes "charset_wf cs"
  shows "(cs_Contains (cs_Add cs b) c \<longleftrightarrow> c = b \<or> cs_Contains cs c) \<and>
    (cs_Contains (cs_Invert cs) c \<longleftrightarrow> \<not> cs_Contains cs c)"
  using assms by (simp add: cs_Contains_Add cs_Contains_Invert)

lemma charset_operations_witness:
  "cs_Contains (cs_Add cs_empty 7) 7 \<and> \<not> cs_Contains (cs_Invert (cs_Add cs_empty 7)) 7"
  using charset_operations [of cs_empty 7 7] charset_operations [of "cs_Add cs_empty 7" 7 7] by simp

end
