(* ===== verification/Matchset.thy ===== *)
theory Matchset
  imports Charset
begin

text \<open>
  \<open>internal/matchset/matchset.go\<close>: compiling a wildcard pattern to atoms (\<open>readAtom\<close>,
  \<open>parse\<close>, \<open>Add\<close>) and running the compiled patterns over a reversed source
  (\<open>checkPattern\<close>, \<open>match\<close>, \<open>MatchAll\<close>), as the code has them: atoms are runes stored
  as UTF-8 bytes, a pattern state is the undecoded rest of them. \<open>None\<close> of the compiling
  functions is a group whose range loop never ends (theory Charset). \<open>atomsBuffer\<close>, storage
  that \<open>parse\<close> reuses and whose old content is never read, is left out.
\<close>

section \<open>Data\<close>

abbreviation "magicDot \<equiv> (0 :: rune)"
abbreviation "magicAsterisk \<equiv> (1 :: rune)"     \<comment> \<open>any characters except \<open>.\<close> and \<open>:\<close>\<close>
abbreviation "magicAsterisk2 \<equiv> (2 :: rune)"    \<comment> \<open>any characters\<close>
abbreviation "magicQuestion \<equiv> (3 :: rune)"     \<comment> \<open>one character except \<open>.\<close> and \<open>:\<close>\<close>
abbreviation "magicUnderscore \<equiv> (4 :: rune)"   \<comment> \<open>one character\<close>

abbreviation "dot \<equiv> (0x2E :: u8)"
abbreviation "colon \<equiv> (0x3A :: u8)"
abbreviation "asterisk \<equiv> (0x2A :: u8)"
abbreviation "question \<equiv> (0x3F :: u8)"
abbreviation "underscore \<equiv> (0x5F :: u8)"
abbreviation "lbracket \<equiv> (0x5B :: u8)"

record 'd pattern =
  patt_atoms :: bytes
  patt_data :: 'd

record 'd MatchSet =
  ms_patterns :: "'d pattern list"
  ms_nextAtom :: rune
  ms_charSetToAtom :: "charset \<rightharpoonup> rune"
  ms_atomToCharSet :: "rune \<rightharpoonup> charset"

definition ms_empty :: "'d MatchSet" where
  "ms_empty = \<lparr>ms_patterns = [], ms_nextAtom = 0, ms_charSetToAtom = Map.empty,
     ms_atomToCharSet = Map.empty\<rparr>"

section \<open>Compiling a pattern\<close>

text \<open>\<open>readAtom(bytes)\<close> with \<open>bytes = b # bytesLeft\<close>; the code reads \<open>bytes[0]\<close>.\<close>

definition readAtom :: "'d MatchSet \<Rightarrow> u8 \<Rightarrow> bytes \<Rightarrow> (rune \<times> bytes \<times> 'd MatchSet) option" where
  "readAtom ms b bytesLeft =
     (if b = lbracket
      then (case charSetFromGroup bytesLeft of
              None \<Rightarrow> None
            | Some (charSet, left) \<Rightarrow>
                (case ms_charSetToAtom ms charSet of
                   Some atom \<Rightarrow> Some (atom, left, ms)
                 | None \<Rightarrow>
                     if charSet = cs_all then Some (magicUnderscore, left, ms)
                     else
                       let ms1 = (if ms_nextAtom ms = 0
                                   then ms\<lparr>ms_nextAtom := 256, ms_charSetToAtom := Map.empty,
                                            ms_atomToCharSet := Map.empty\<rparr>
                                   else ms);
                           atom = ms_nextAtom ms1
                       in Some (atom, left,
                            ms1\<lparr>ms_nextAtom := atom + 1,
                                 ms_charSetToAtom := (ms_charSetToAtom ms1)(charSet \<mapsto> atom),
                                 ms_atomToCharSet := (ms_atomToCharSet ms1)(atom \<mapsto> charSet)\<rparr>)))
      else if b = asterisk
      then (case bytesLeft of
              c # left \<Rightarrow> if c = asterisk then Some (magicAsterisk2, left, ms)
                          else Some (magicAsterisk, bytesLeft, ms)
            | [] \<Rightarrow> Some (magicAsterisk, bytesLeft, ms))
      else if b = question then Some (magicQuestion, bytesLeft, ms)
      else if b = underscore then Some (magicUnderscore, bytesLeft, ms)
      else Some (unat b, bytesLeft, ms))"

text \<open>The \<open>switch currentAtom\<close> of \<open>parse\<close>: new \<open>atoms\<close> and new \<open>lastAtom\<close>.\<close>

definition parse_step :: "rune list \<Rightarrow> rune \<Rightarrow> rune \<Rightarrow> rune list \<times> rune" where
  "parse_step atoms lastAtom currentAtom =
     (if currentAtom = magicAsterisk
      then (if lastAtom \<noteq> magicAsterisk \<and> lastAtom \<noteq> magicAsterisk2
            then (atoms @ [magicAsterisk], magicAsterisk) else (atoms, lastAtom))
      else if currentAtom = magicAsterisk2
      then (if lastAtom = magicAsterisk
            then (atoms[length atoms - 1 := magicAsterisk2], magicAsterisk2)
            else if lastAtom \<noteq> magicAsterisk2
            then (atoms @ [magicAsterisk2], magicAsterisk2) else (atoms, lastAtom))
      else if currentAtom = magicQuestion
      then (if lastAtom = magicAsterisk
            then (atoms[length atoms - 1 := magicQuestion] @ [magicAsterisk], lastAtom)
            else (atoms @ [magicQuestion], magicQuestion))
      else if currentAtom = magicUnderscore
      then (if lastAtom = magicAsterisk2
            then (atoms[length atoms - 1 := magicUnderscore] @ [magicAsterisk2], lastAtom)
            else (atoms @ [magicUnderscore], magicUnderscore))
      else (atoms @ [currentAtom], currentAtom))"

lemma group_rest_length: "length (group_rest bs) \<le> length bs"
  by (cases bs) (auto simp: group_rest_def intro: le_SucI diff_le_mono2 length_dropWhile_le
      order_trans [OF diff_le_self])

lemma charSetFromGroup_length:
  "charSetFromGroup bs = Some (cs, left) \<Longrightarrow> length left \<le> length bs"
  by (metis charSetFromGroup_SomeD(2) group_rest_length)

lemma readAtom_length: "readAtom ms b bs = Some (atom, left, ms') \<Longrightarrow> length left \<le> length bs"
  by (auto simp: readAtom_def Let_def split: if_splits option.splits list.splits
      dest!: charSetFromGroup_length)

function parse_loop ::
  "'d MatchSet \<Rightarrow> bytes \<Rightarrow> rune list \<Rightarrow> rune \<Rightarrow> (rune list \<times> 'd MatchSet) option" where
  "parse_loop ms [] atoms lastAtom = Some (atoms, ms)"
| "parse_loop ms (b # bs) atoms lastAtom =
     (case readAtom ms b bs of
        None \<Rightarrow> None
      | Some (currentAtom, left, ms') \<Rightarrow>
          let (atoms', lastAtom') = parse_step atoms lastAtom currentAtom
          in parse_loop ms' left atoms' lastAtom')"
  by pat_completeness auto
termination
  by (relation "measure (\<lambda>(ms, bs, atoms, lastAtom). length bs)")
    (auto simp: less_Suc_eq_le dest: readAtom_length)

text \<open>Leading and trailing dots, after the loop.\<close>

definition parse_dots :: "rune list \<Rightarrow> rune list" where
  "parse_dots atoms =
     (if atoms = [] then [magicDot]
      else
        let atoms1 = (if atoms ! 0 = unat dot then atoms[0 := magicDot] else atoms)
        in if atoms1 ! (length atoms1 - 1) = unat dot
           then atoms1[length atoms1 - 1 := magicDot] else atoms1)"

definition parse :: "'d MatchSet \<Rightarrow> bytes \<Rightarrow> (rune list \<times> 'd MatchSet) option" where
  "parse ms bs =
     (case parse_loop ms bs [] 0 of
        None \<Rightarrow> None
      | Some (atoms, ms') \<Rightarrow> Some (parse_dots atoms, ms'))"

text \<open>The second loop of \<open>Add\<close>: put stars back behind the single characters they follow.\<close>

function swap_loop :: "rune list \<Rightarrow> nat \<Rightarrow> nat \<Rightarrow> rune list" where
  "swap_loop atoms i j =
     (if i < j
      then let atoms' =
             (if atoms ! i = magicAsterisk \<and> atoms ! (i + 1) = magicQuestion
                 \<or> atoms ! i = magicAsterisk2 \<and> atoms ! (i + 1) = magicUnderscore
              then atoms[i := atoms ! (i + 1), i + 1 := atoms ! i] else atoms)
           in swap_loop atoms' (i + 1) j
      else atoms)"
  by pat_completeness auto
termination
  by (relation "measure (\<lambda>(atoms, i, j). j - i)") auto

declare swap_loop.simps [simp del]

definition compile_atoms :: "rune list \<Rightarrow> rune list" where
  "compile_atoms atoms =
     (let reversed = reverse_slice atoms in swap_loop reversed 0 (length reversed - 1))"

definition ms_Add :: "'d MatchSet \<Rightarrow> string \<Rightarrow> 'd \<Rightarrow> 'd MatchSet option" where
  "ms_Add ms patt data =
     (case parse ms (bytes_of patt) of
        None \<Rightarrow> None
      | Some (atoms, ms') \<Rightarrow>
          Some (ms'\<lparr>ms_patterns := ms_patterns ms' @
            [\<lparr>patt_atoms = encode_runes (compile_atoms atoms), patt_data = data\<rparr>]\<rparr>))"

definition ms_Empty :: "'d MatchSet \<Rightarrow> bool" where
  "ms_Empty ms \<longleftrightarrow> length (ms_patterns ms) = 0"

section \<open>Matching\<close>

definition is_delim :: "u8 \<Rightarrow> bool" where
  "is_delim b \<longleftrightarrow> b = dot \<or> b = colon"

text \<open>\<open>atom == rune(b) || set.atomToCharSet[atom].Contains(b)\<close>; a missing key is the zero charset.\<close>

definition atom_matches :: "'d MatchSet \<Rightarrow> rune \<Rightarrow> u8 \<Rightarrow> bool" where
  "atom_matches ms atom b \<longleftrightarrow>
     atom = unat b \<or>
     cs_Contains (case ms_atomToCharSet ms atom of None \<Rightarrow> cs_empty | Some cs \<Rightarrow> cs) b"

text \<open>The code after the \<open>fallthrough\<close>: the atom takes \<open>bytes[i]\<close>.\<close>

definition ends_well :: "bytes \<Rightarrow> bool" where
  "ends_well atoms \<longleftrightarrow>
     (case atoms of
        [] \<Rightarrow> True
      | [a] \<Rightarrow> unat a = magicDot \<or> unat a = magicAsterisk \<or> unat a = magicAsterisk2
      | [a, b] \<Rightarrow> (unat a = magicAsterisk \<or> unat a = magicAsterisk2) \<and> unat b = magicDot
      | _ \<Rightarrow> False)"

definition take_byte ::
  "'d pattern \<Rightarrow> 'd pattern \<Rightarrow> bytes \<Rightarrow> nat \<Rightarrow> 'd pattern list \<Rightarrow> 'd list \<Rightarrow> 'd pattern list \<times> 'd list"
where
  "take_byte patt nextpatt bs i matches acc =
     (if i + 1 = length bs
      then (matches, if ends_well (patt_atoms nextpatt) then acc @ [patt_data patt] else acc)
      else if length (patt_atoms nextpatt) = 0 then (matches, acc)
      else (matches @ [nextpatt], acc))"

text \<open>\<open>accumulate\<close> is modelled by the list of the data it was called with.\<close>

function checkPattern ::
  "'d MatchSet \<Rightarrow> 'd pattern \<Rightarrow> bytes \<Rightarrow> nat \<Rightarrow> 'd pattern list \<Rightarrow> 'd list
     \<Rightarrow> 'd pattern list \<times> 'd list"
where
  "checkPattern ms patt bs i matches acc =
     (case decode_rune (patt_atoms patt) of (atom, sz) \<Rightarrow>
        let nextpatt = \<lparr>patt_atoms = drop sz (patt_atoms patt), patt_data = patt_data patt\<rparr>
        in if atom = magicDot
           then if length (patt_atoms nextpatt) = 0
                then (matches, if i = 0 \<or> bs ! i = dot then acc @ [patt_data patt] else acc)
                else
                  let (m1, a1) = (if i = 0 then checkPattern ms nextpatt (drop i bs) 0 matches acc
                                  else (matches, acc));
                      m2 = (if bs ! i = dot then m1 @ [nextpatt] else m1)
                  in (m2 @ [patt], a1)
           else if atom = magicAsterisk \<or> atom = magicAsterisk2
           then let (m1, a1) = (if length (patt_atoms nextpatt) \<noteq> 0
                                then checkPattern ms nextpatt (drop i bs) 0 matches acc
                                else (matches, acc))
                in if atom = magicAsterisk \<and> is_delim (bs ! i) then (m1, a1)
                   else if i + 1 = length bs
                   then (m1, if length (patt_atoms nextpatt) = 0 then a1 @ [patt_data patt] else a1)
                   else (m1 @ [patt], a1)
           else if atom = magicQuestion \<or> atom = magicUnderscore
           then if atom = magicQuestion \<and> is_delim (bs ! i) then (matches, acc)
                else take_byte patt nextpatt bs i matches acc
           else if atom_matches ms atom (bs ! i)
           then take_byte patt nextpatt bs i matches acc
           else (matches, acc))"
  by pat_completeness auto
termination
  by (relation "measure (\<lambda>(ms, patt, bs, i, matches, acc). length (patt_atoms patt))")
    (auto simp: RuneError_def dest!: decode_rune_size [OF sym])

declare checkPattern.simps [simp del]

text \<open>The two inner loops of \<open>match\<close>, then the loop over the ms's patterns.\<close>

fun check_all ::
  "'d MatchSet \<Rightarrow> 'd pattern list \<Rightarrow> bytes \<Rightarrow> nat \<Rightarrow> 'd pattern list \<Rightarrow> 'd list
     \<Rightarrow> 'd pattern list \<times> 'd list"
where
  "check_all ms [] bs i matches acc = (matches, acc)"
| "check_all ms (patt # patts) bs i matches acc =
     (case checkPattern ms patt bs i matches acc of
        (matches', acc') \<Rightarrow> check_all ms patts bs i matches' acc')"

fun match_positions ::
  "'d MatchSet \<Rightarrow> bytes \<Rightarrow> nat list \<Rightarrow> 'd pattern list \<Rightarrow> 'd list \<Rightarrow> 'd list"
where
  "match_positions ms bs [] patterns acc = acc"
| "match_positions ms bs (i # is) patterns acc =
     (case check_all ms patterns bs i [] acc of
        (matches, acc') \<Rightarrow>
          if length matches = 0 then acc' else match_positions ms bs is matches acc')"

fun match_patterns :: "'d MatchSet \<Rightarrow> bytes \<Rightarrow> 'd pattern list \<Rightarrow> 'd list \<Rightarrow> 'd list" where
  "match_patterns ms bs [] acc = acc"
| "match_patterns ms bs (patt # patts) acc =
     match_patterns ms bs patts (match_positions ms bs [0..<length bs] [patt] acc)"

definition ms_match :: "'d MatchSet \<Rightarrow> string \<Rightarrow> 'd list" where
  "ms_match ms source =
     match_patterns ms (reverse_slice (bytes_of source)) (ms_patterns ms) []"

definition ms_Match :: "'d MatchSet \<Rightarrow> string \<Rightarrow> 'd list" where
  "ms_Match ms source = (if \<not> ms_Empty ms then ms_match ms source else [])"

text \<open>The slice \<open>MatchAll\<close> returns; it is \<open>nil\<close> exactly when the list is empty.\<close>

definition ms_MatchAll :: "'d MatchSet \<Rightarrow> string \<Rightarrow> 'd list" where
  "ms_MatchAll ms source = ms_Match ms source"

end
