(* ===== verification/Match_Automaton.thy ===== *)
theory Match_Automaton
  imports Matchset
begin

text \<open>
  The pattern matcher of theory Matchset read at the level of runes: one step of a pattern
  state on one byte (\<open>atom_step\<close>), the acceptance it defines, and the proof that
  \<open>checkPattern\<close> on UTF-8 bytes and the loops of \<open>match\<close> refine it. Then the language of
  a pattern (\<open>in_lang\<close>: a source splits into one segment per atom) and the theorem that
  the automaton accepts it.
\<close>

section \<open>Steps on runes\<close>

definition ends_well_runes :: "rune list \<Rightarrow> bool" where
  "ends_well_runes rs \<longleftrightarrow>
     (case rs of
        [] \<Rightarrow> True
      | [a] \<Rightarrow> a = magicDot \<or> a = magicAsterisk \<or> a = magicAsterisk2
      | [a, b] \<Rightarrow> (a = magicAsterisk \<or> a = magicAsterisk2) \<and> b = magicDot
      | _ \<Rightarrow> False)"

definition take_step :: "rune list \<Rightarrow> bool \<Rightarrow> rune list list \<times> nat" where
  "take_step q at_end =
     (if at_end then ([], if ends_well_runes q then 1 else 0)
      else if q = [] then ([], 0) else ([q], 0))"

text \<open>Next states and number of acceptances of state \<open>a # q\<close> on byte \<open>b\<close>.\<close>

fun atom_step :: "(rune \<Rightarrow> u8 \<Rightarrow> bool) \<Rightarrow> rune list \<Rightarrow> bool \<Rightarrow> u8 \<Rightarrow> bool \<Rightarrow> rune list list \<times> nat" where
  "atom_step cls [] start b at_end = ([], 0)"
| "atom_step cls (a # q) start b at_end =
     (if a = magicDot
      then if q = [] then ([], if start \<or> b = dot then 1 else 0)
           else (case (if start then atom_step cls q True b at_end else ([], 0)) of
                   (n, c) \<Rightarrow> (n @ (if b = dot then [q] else []) @ [a # q], c))
      else if a = magicAsterisk \<or> a = magicAsterisk2
      then (case (if q \<noteq> [] then atom_step cls q True b at_end else ([], 0)) of
              (n, c) \<Rightarrow>
                if a = magicAsterisk \<and> is_delim b then (n, c)
                else if at_end then (n, if q = [] then c + 1 else c)
                else (n @ [a # q], c))
      else if a = magicQuestion \<or> a = magicUnderscore
      then if a = magicQuestion \<and> is_delim b then ([], 0) else take_step q at_end
      else if cls a b then take_step q at_end else ([], 0))"

fun accepts :: "(rune \<Rightarrow> u8 \<Rightarrow> bool) \<Rightarrow> rune list \<Rightarrow> bool \<Rightarrow> bytes \<Rightarrow> bool" where
  "accepts cls p start [] = False"
| "accepts cls p start (b # s) =
     (case atom_step cls p start b (s = []) of
        (n, c) \<Rightarrow> 0 < c \<or> (\<exists>q \<in> set n. accepts cls q False s))"

section \<open>The byte level refines it\<close>

definition mk_pattern :: "'d \<Rightarrow> rune list \<Rightarrow> 'd pattern" where
  "mk_pattern d rs = \<lparr>patt_atoms = encode_runes rs, patt_data = d\<rparr>"

abbreviation "valid_runes rs \<equiv> list_all valid_rune rs"

lemma encode_runes_simps [simp]:
  "encode_runes [] = []" "encode_runes (r # rs) = encode_rune r @ encode_runes rs"
  by (simp_all add: encode_runes_def)

lemma encode_runes_Nil_iff [simp]: "encode_runes rs = [] \<longleftrightarrow> rs = []"
  by (cases rs) simp_all

lemma encode_rune_ascii: "r < 0x80 \<Longrightarrow> encode_rune r = [byte r]"
  by (simp add: encode_rune_def valid_rune_def)

lemma encode_rune_wide: "0x80 \<le> r \<Longrightarrow> \<exists>a t. encode_rune r = a # t \<and> t \<noteq> [] \<and> 0x80 \<le> unat a"
proof -
  assume r: "0x80 \<le> r"
  let ?r = "if valid_rune r then r else RuneError"
  have "0x80 \<le> ?r" "?r \<le> 0x10FFFF" using r by (auto simp: RuneError_def valid_rune_def)
  then show ?thesis by (auto simp: encode_rune_def Let_def unat_byte)
qed

lemma ends_well_encode: "ends_well (encode_runes rs) \<longleftrightarrow> ends_well_runes rs"
proof -
  have wide: "\<exists>a t. encode_rune r = a # t \<and> (r < 0x80 \<longrightarrow> t = [] \<and> unat a = r)
      \<and> (0x80 \<le> r \<longrightarrow> t \<noteq> [] \<and> 0x80 \<le> unat a)" for r
    using encode_rune_wide [of r] encode_rune_ascii [of r] by (cases "r < 0x80") (auto simp: unat_byte)
  show ?thesis
  proof (cases rs)
    case Nil
    then show ?thesis by (simp add: ends_well_def ends_well_runes_def)
  next
    case (Cons r rs1)
    obtain a t where a: "encode_rune r = a # t" "r < 0x80 \<longrightarrow> t = [] \<and> unat a = r"
      "0x80 \<le> r \<longrightarrow> t \<noteq> [] \<and> 0x80 \<le> unat a" using wide by blast
    show ?thesis
    proof (cases rs1)
      case Nil
      with a Cons show ?thesis
        by (cases "r < 0x80") (auto simp: ends_well_def ends_well_runes_def split: list.splits)
    next
      case Cons': (Cons r2 rs2)
      obtain b u where b: "encode_rune r2 = b # u" "r2 < 0x80 \<longrightarrow> u = [] \<and> unat b = r2"
        "0x80 \<le> r2 \<longrightarrow> u \<noteq> [] \<and> 0x80 \<le> unat b" using wide by blast
      obtain c v where c: "rs2 \<noteq> [] \<longrightarrow> encode_runes rs2 = c # v"
        by (cases "encode_runes rs2") auto
      show ?thesis using Cons Cons' a b c
        by (cases "r < 0x80"; cases "r2 < 0x80"; cases "rs2 = []")
          (auto simp: ends_well_def ends_well_runes_def neq_Nil_conv split: list.splits)
    qed
  qed
qed

definition step_result ::
  "'d \<Rightarrow> rune list list \<times> nat \<Rightarrow> 'd pattern list \<Rightarrow> 'd list \<Rightarrow> 'd pattern list \<times> 'd list" where
  "step_result d r matches acc =
     (matches @ map (mk_pattern d) (fst r), acc @ replicate (snd r) d)"

lemma take_byte_refines:
  "take_byte (mk_pattern d rs) (mk_pattern d q) bs i matches acc
     = step_result d (take_step q (i + 1 = length bs)) matches acc"
  by (simp add: take_byte_def take_step_def step_result_def mk_pattern_def ends_well_encode)

lemma decode_mk_pattern:
  assumes "valid_rune a"
  shows "decode_rune (patt_atoms (mk_pattern d (a # q))) = (a, length (encode_rune a))"
  using decode_encode_rune [OF assms, of "encode_runes q"] by (simp add: mk_pattern_def)

lemma next_mk_pattern:
  "\<lparr>patt_atoms = drop (length (encode_rune a)) (patt_atoms (mk_pattern d (a # q))),
    patt_data = d\<rparr> = mk_pattern d q"
  by (simp add: mk_pattern_def)

lemma mk_pattern_sel [simp]:
  "length (patt_atoms (mk_pattern d q)) = 0 \<longleftrightarrow> q = []" "patt_data (mk_pattern d q) = d"
  by (simp_all add: mk_pattern_def)

text \<open>\<open>checkPattern\<close> on an encoded state, with the decoding done.\<close>

lemma checkPattern_mk:
  assumes "valid_rune a"
  shows "checkPattern ms (mk_pattern d (a # q)) bs i matches acc =
    (if a = magicDot
     then if q = [] then (matches, if i = 0 \<or> bs ! i = dot then acc @ [d] else acc)
          else
            let (m1, a1) = (if i = 0 then checkPattern ms (mk_pattern d q) (drop i bs) 0 matches acc
                            else (matches, acc));
                m2 = (if bs ! i = dot then m1 @ [mk_pattern d q] else m1)
            in (m2 @ [mk_pattern d (a # q)], a1)
     else if a = magicAsterisk \<or> a = magicAsterisk2
     then let (m1, a1) = (if q \<noteq> [] then checkPattern ms (mk_pattern d q) (drop i bs) 0 matches acc
                          else (matches, acc))
          in if a = magicAsterisk \<and> is_delim (bs ! i) then (m1, a1)
             else if i + 1 = length bs then (m1, if q = [] then a1 @ [d] else a1)
             else (m1 @ [mk_pattern d (a # q)], a1)
     else if a = magicQuestion \<or> a = magicUnderscore
     then if a = magicQuestion \<and> is_delim (bs ! i) then (matches, acc)
          else take_byte (mk_pattern d (a # q)) (mk_pattern d q) bs i matches acc
     else if atom_matches ms a (bs ! i)
     then take_byte (mk_pattern d (a # q)) (mk_pattern d q) bs i matches acc
     else (matches, acc))"
  by (subst checkPattern.simps)
    (simp only: decode_mk_pattern [OF assms] prod.case Let_def mk_pattern_sel next_mk_pattern)

lemma checkPattern_refines:
  assumes "valid_runes rs" "rs \<noteq> []" "i < length bs"
  shows "checkPattern ms (mk_pattern d rs) bs i matches acc
    = step_result d (atom_step (atom_matches ms) rs (i = 0) (bs ! i) (i + 1 = length bs)) matches acc"
  using assms
proof (induction rs arbitrary: bs i matches acc)
  case Nil
  then show ?case by simp
next
  case (Cons a q)
  have rec: "checkPattern ms (mk_pattern d q) (drop i bs) 0 matches acc
      = step_result d (atom_step (atom_matches ms) q True (bs ! i) (i + 1 = length bs)) matches acc"
    if "q \<noteq> []"
  proof -
    have "1 = length bs - i \<longleftrightarrow> i + 1 = length bs" using Cons.prems(3) by auto
    then show ?thesis using Cons.IH [of 0 "drop i bs" matches acc] Cons.prems that by simp
  qed
  have "valid_rune a" using Cons.prems by simp
  note unfold = checkPattern_mk [OF this]
  obtain n c where st: "atom_step (atom_matches ms) q True (bs ! i) (i + 1 = length bs) = (n, c)"
    by fastforce
  note rec = rec [unfolded st, simplified step_result_def fst_conv snd_conv]
  consider "a = magicDot" "i = 0" | "a = magicDot" "i \<noteq> 0" | "a = magicAsterisk \<or> a = magicAsterisk2"
    | "a \<noteq> magicDot" "\<not> (a = magicAsterisk \<or> a = magicAsterisk2)" by blast
  then show ?case
  proof cases
    case 1
    from rec st 1(2) show ?thesis
      unfolding unfold unfolding 1(1) by (simp add: step_result_def)
  next
    case 2
    then show ?thesis
      unfolding unfold by (simp add: step_result_def)
  next
    case 3
    then have "a \<noteq> magicDot" by auto
    with rec st 3 show ?thesis
      unfolding unfold by (simp add: step_result_def replicate_append_same)
  next
    case 4
    then show ?thesis
      unfolding unfold by (simp add: take_byte_refines) (simp add: step_result_def)
  qed
qed

text \<open>States that the automaton reaches from valid, non-empty states are such states again.\<close>

definition good_state :: "rune list \<Rightarrow> bool" where
  "good_state rs \<longleftrightarrow> rs \<noteq> [] \<and> valid_runes rs"

lemma atom_step_good:
  "valid_runes rs \<Longrightarrow> p \<in> set (fst (atom_step cls rs start b at_end)) \<Longrightarrow> good_state p"
proof (induction rs arbitrary: start)
  case Nil
  then show ?case by simp
next
  case (Cons a q)
  from Cons.prems Cons.IH [of True] show ?case
    by (cases "atom_step cls q True b at_end")
      (auto simp: good_state_def take_step_def split: if_splits)
qed

lemma good_state_step:
  "good_state rs \<Longrightarrow> p \<in> set (fst (atom_step cls rs start b at_end)) \<Longrightarrow> good_state p"
  by (rule atom_step_good) (auto simp: good_state_def)

lemma check_all_refines:
  assumes "list_all good_state ps" "i < length bs"
  shows "check_all ms (map (mk_pattern d) ps) bs i matches acc =
    (let r = map (\<lambda>p. atom_step (atom_matches ms) p (i = 0) (bs ! i) (i + 1 = length bs)) ps
     in (matches @ map (mk_pattern d) (concat (map fst r)),
         acc @ replicate (sum_list (map snd r)) d))"
  using assms
proof (induction ps arbitrary: matches acc)
  case Nil
  then show ?case by simp
next
  case (Cons p ps)
  have "valid_runes p" "p \<noteq> []" using Cons.prems by (simp_all add: good_state_def)
  with Cons show ?case
    by (simp add: checkPattern_refines Let_def step_result_def replicate_add comp_def)
qed

lemma accepts_Cons:
  "accepts cls p start (b # s) \<longleftrightarrow>
     0 < snd (atom_step cls p start b (s = [])) \<or>
     (\<exists>q \<in> set (fst (atom_step cls p start b (s = []))). accepts cls q False s)"
  by (simp split: prod.splits)

declare accepts.simps(2) [simp del]

lemma sum_list_positive_iff: "0 < sum_list ns \<longleftrightarrow> (\<exists>n \<in> set ns. 0 < n)" for ns :: "nat list"
  by (induction ns) auto

lemma match_positions_refines:
  assumes "list_all good_state ps" "i \<le> length bs"
  shows "set (match_positions ms bs [i..<length bs] (map (mk_pattern d) ps) acc) =
    set acc \<union> (if \<exists>p \<in> set ps. accepts (atom_matches ms) p (i = 0) (drop i bs) then {d} else {})"
  using assms
proof (induction "length bs - i" arbitrary: i ps acc)
  case 0
  then show ?case by simp
next
  case (Suc n)
  then have i: "i < length bs" by simp
  define r where "r = map (\<lambda>p. atom_step (atom_matches ms) p (i = 0) (bs ! i) (i + 1 = length bs)) ps"
  define qs where "qs = concat (map fst r)"
  define acc' where "acc' = acc @ replicate (sum_list (map snd r)) d"
  have ck: "check_all ms (map (mk_pattern d) ps) bs i [] acc = (map (mk_pattern d) qs, acc')"
    by (simp only: check_all_refines [OF Suc.prems(1) i] r_def qs_def acc'_def Let_def append_Nil)
  have good: "list_all good_state qs"
    using Suc.prems(1) by (auto simp: qs_def r_def list_all_iff intro: good_state_step)
  have rest: "set (match_positions ms bs (i # [Suc i..<length bs]) (map (mk_pattern d) ps) acc) =
      set acc' \<union> (if \<exists>q \<in> set qs. accepts (atom_matches ms) q False (drop (Suc i) bs) then {d} else {})"
    using Suc.hyps(1) [of "Suc i" qs acc'] Suc.hyps(2) good i ck by simp
  have "drop i bs = bs ! i # drop (Suc i) bs" "drop (Suc i) bs = [] \<longleftrightarrow> i + 1 = length bs"
    using i by (auto simp: Cons_nth_drop_Suc)
  then have "accepts (atom_matches ms) p (i = 0) (drop i bs) \<longleftrightarrow>
      0 < snd (atom_step (atom_matches ms) p (i = 0) (bs ! i) (i + 1 = length bs)) \<or>
      (\<exists>q \<in> set (fst (atom_step (atom_matches ms) p (i = 0) (bs ! i) (i + 1 = length bs))).
        accepts (atom_matches ms) q False (drop (Suc i) bs))" for p
    by (simp only: accepts_Cons)
  then have step: "(\<exists>p \<in> set ps. accepts (atom_matches ms) p (i = 0) (drop i bs)) \<longleftrightarrow>
      0 < sum_list (map snd r) \<or> (\<exists>q \<in> set qs. accepts (atom_matches ms) q False (drop (Suc i) bs))"
    by (auto simp: r_def qs_def comp_def sum_list_positive_iff)
  show ?case unfolding upt_conv_Cons [OF i] rest step by (auto simp: acc'_def sum_list_positive_iff)
qed

section \<open>The language of a pattern\<close>

text \<open>
  A pattern is a sequence of atoms and matches a source that splits into one segment per
  atom. The leading dot of a pattern takes nothing or a prefix that ends in a dot, the
  trailing dot nothing or a suffix that starts with a dot.
\<close>

datatype satom = SLead | STrail | SStar | SStar2 | SOne "u8 \<Rightarrow> bool"

fun seg_ok :: "satom \<Rightarrow> bytes \<Rightarrow> bool" where
  "seg_ok SLead s \<longleftrightarrow> s = [] \<or> last s = dot"
| "seg_ok STrail s \<longleftrightarrow> s = [] \<or> hd s = dot"
| "seg_ok SStar s \<longleftrightarrow> list_all (\<lambda>b. \<not> is_delim b) s"
| "seg_ok SStar2 s \<longleftrightarrow> True"
| "seg_ok (SOne P) s \<longleftrightarrow> (case s of [b] \<Rightarrow> P b | _ \<Rightarrow> False)"

fun in_lang :: "satom list \<Rightarrow> bytes \<Rightarrow> bool" where
  "in_lang [] s \<longleftrightarrow> s = []"
| "in_lang (a # p) s \<longleftrightarrow> (\<exists>k \<le> length s. seg_ok a (take k s) \<and> in_lang p (drop k s))"

text \<open>The atoms of a compiled (reversed) pattern: its last dot is the trailing one.\<close>

fun spec_atom :: "(rune \<Rightarrow> u8 \<Rightarrow> bool) \<Rightarrow> rune \<Rightarrow> satom" where
  "spec_atom cls a =
     (if a = magicDot then STrail
      else if a = magicAsterisk then SStar
      else if a = magicAsterisk2 then SStar2
      else if a = magicQuestion then SOne (\<lambda>b. \<not> is_delim b)
      else if a = magicUnderscore then SOne (\<lambda>b. True)
      else SOne (cls a))"

definition spec_tail :: "(rune \<Rightarrow> u8 \<Rightarrow> bool) \<Rightarrow> rune list \<Rightarrow> satom list" where
  "spec_tail cls p = map (spec_atom cls) p"

text \<open>The pattern that is a single dot matches everything.\<close>

definition spec_atoms :: "(rune \<Rightarrow> u8 \<Rightarrow> bool) \<Rightarrow> rune list \<Rightarrow> satom list" where
  "spec_atoms cls p =
     (if p = [magicDot] then [SStar2]
      else case p of a # q \<Rightarrow> (if a = magicDot then SLead # spec_tail cls q else spec_tail cls p)
         | [] \<Rightarrow> [])"

subsection \<open>Unfolding by the first byte\<close>

lemma ex_le_Suc_split: "(\<exists>k \<le> Suc n. P k) \<longleftrightarrow> P 0 \<or> (\<exists>k \<le> n. P (Suc k))" for n :: nat
  by (metis Suc_le_mono le0 not0_implies_Suc)

lemma in_lang_SStar_Cons:
  "in_lang (SStar # p) (b # s) \<longleftrightarrow> in_lang p (b # s) \<or> \<not> is_delim b \<and> in_lang (SStar # p) s"
  by (auto simp: ex_le_Suc_split)

lemma in_lang_SStar2_Cons:
  "in_lang (SStar2 # p) (b # s) \<longleftrightarrow> in_lang p (b # s) \<or> in_lang (SStar2 # p) s"
  by (auto simp: ex_le_Suc_split)

lemma in_lang_SOne_Cons: "in_lang (SOne P # p) (b # s) \<longleftrightarrow> P b \<and> in_lang p s"
proof -
  have "seg_ok (SOne P) (take k (b # s)) \<longleftrightarrow> k = 1 \<and> P b" if "k \<le> length (b # s)" for k
    using that by (cases k) (auto split: list.splits simp: take_eq_Nil)
  then show ?thesis by auto
qed

lemma in_lang_Nil [simp]: "in_lang (a # p) [] \<longleftrightarrow> seg_ok a [] \<and> in_lang p []"
  by simp

lemma in_lang_STrail: "in_lang [STrail] s \<longleftrightarrow> s = [] \<or> hd s = dot"
proof
  assume "s = [] \<or> hd s = dot"
  then show "in_lang [STrail] s" by (intro in_lang.simps(2) [THEN iffD2] exI [of _ "length s"]) auto
qed (auto simp: take_all)

lemma in_lang_SStar2_all: "in_lang p [] \<Longrightarrow> in_lang (SStar2 # p) s"
  by (induction s) (auto simp: in_lang_SStar2_Cons simp del: in_lang.simps(2))

declare in_lang.simps(2) [simp del]

lemma in_lang_SStar_single: "in_lang [SStar] s \<longleftrightarrow> list_all (\<lambda>b. \<not> is_delim b) s"
  by (induction s) (auto simp: in_lang_SStar_Cons)

text \<open>Without a colon, a star in front of the trailing dot takes everything up to the first dot.\<close>

lemma in_lang_SStar_STrail: "colon \<notin> set s \<Longrightarrow> in_lang [SStar, STrail] s"
  by (induction s) (auto simp: in_lang_SStar_Cons in_lang_STrail is_delim_def)

text \<open>The leading dot skips to behind some dot of the source.\<close>

lemma in_lang_SLead:
  "in_lang (SLead # p) s \<longleftrightarrow>
     in_lang p s \<or> (\<exists>k < length s. s ! k = dot \<and> in_lang p (drop (Suc k) s))"
proof -
  have "seg_ok SLead (take (Suc k) s) \<longleftrightarrow> s ! k = dot" if "k < length s" for k
    using that by (simp add: take_Suc_conv_app_nth)
  then have "(\<exists>k \<le> length s. seg_ok SLead (take k s) \<and> in_lang p (drop k s)) \<longleftrightarrow>
      in_lang p s \<or> (\<exists>k < length s. s ! k = dot \<and> in_lang p (drop (Suc k) s))"
    by (metis Suc_leI Suc_le_lessD drop0 le0 not0_implies_Suc seg_ok.simps(1) take0)
  then show ?thesis by (simp add: in_lang.simps)
qed

end
