(* ===== verification/Match_Correct.thy ===== *)
theory Match_Correct
  imports Match_Automaton
begin

text \<open>
  The compiled matcher against the language of its pattern: which compiled patterns the
  automaton runs exactly (\<open>wf_atoms\<close>, \<open>src_ok\<close>), that normalising and reversing atoms keeps
  the language, and the theorem about \<open>Add\<close> followed by \<open>MatchAll\<close>.
\<close>

section \<open>The automaton accepts the language\<close>

definition is_star :: "rune \<Rightarrow> bool" where
  "is_star a \<longleftrightarrow> a = magicAsterisk \<or> a = magicAsterisk2"

text \<open>No two stars in a row; the magic dot only in last place.\<close>

fun wf_tail :: "rune list \<Rightarrow> bool" where
  "wf_tail [] \<longleftrightarrow> True"
| "wf_tail [a] \<longleftrightarrow> True"
| "wf_tail (a # b # q) \<longleftrightarrow> a \<noteq> magicDot \<and> \<not> (is_star a \<and> is_star b) \<and> wf_tail (b # q)"

definition wf_atoms :: "rune list \<Rightarrow> bool" where
  "wf_atoms p \<longleftrightarrow> (case p of [] \<Rightarrow> False | a # q \<Rightarrow> if a = magicDot then wf_tail q else wf_tail p)"

definition ends_star_dot :: "rune list \<Rightarrow> bool" where
  "ends_star_dot p \<longleftrightarrow> suffix [magicAsterisk, magicDot] p"

text \<open>
  The sources on which the matcher is exact for \<open>p\<close> (compiled, so reversed, like the source):
  a star next to the trailing dot needs a source without colons, the pattern \<open>*.\<close> a source
  whose (unreversed) first byte is no dot, and the pattern \<open>..\<close> is excluded.
\<close>

definition src_ok :: "rune list \<Rightarrow> bytes \<Rightarrow> bool" where
  "src_ok p s \<longleftrightarrow>
     p \<noteq> [magicDot, magicDot] \<and>
     (ends_star_dot p \<longrightarrow> colon \<notin> set s) \<and>
     (p = [magicDot, magicAsterisk] \<longrightarrow> last s \<noteq> dot)"

lemma wf_tail_Cons: "wf_tail (a # q) \<Longrightarrow> wf_tail q"
  by (cases q) auto

lemma wf_tail_Dot: "wf_tail (magicDot # q) \<longleftrightarrow> q = []"
  by (cases q) auto

lemma wf_tail_star: "wf_tail (a # b # q) \<Longrightarrow> is_star a \<Longrightarrow> \<not> is_star b"
  by simp

lemma spec_tail_simps [simp]:
  "spec_tail cls [] = []" "spec_tail cls (a # q) = spec_atom cls a # spec_tail cls q"
  by (simp_all add: spec_tail_def)

text \<open>A state that may match nothing is one of the shapes the end-of-input test lists.\<close>

lemma in_lang_empty_source:
  "wf_tail p \<Longrightarrow> in_lang (spec_tail cls p) [] \<longleftrightarrow> ends_well_runes p"
proof (induction p rule: wf_tail.induct)
  case (3 a b q)
  then show ?case
    by (cases q) (auto simp: ends_well_runes_def is_star_def wf_tail_Dot split: list.splits)
qed (simp_all add: ends_well_runes_def)

definition tail_ok :: "(rune \<Rightarrow> u8 \<Rightarrow> bool) \<Rightarrow> rune list \<Rightarrow> bool \<Rightarrow> bytes \<Rightarrow> bool" where
  "tail_ok cls p start s \<longleftrightarrow>
     (if p = [magicDot] then start \<or> hd s = dot else in_lang (spec_tail cls p) s)"

lemma accepts_take:
  assumes "atom_step cls (a # q) start b (s = []) = (if ok then take_step q (s = []) else ([], 0))"
    and "spec_atom cls a = SOne P" and "ok \<longleftrightarrow> P b" and "a \<noteq> magicDot" and "wf_tail q"
    and IH: "s \<noteq> [] \<Longrightarrow> q \<noteq> [] \<Longrightarrow> accepts cls q False s \<longleftrightarrow> tail_ok cls q False s"
  shows "accepts cls (a # q) start (b # s) \<longleftrightarrow> tail_ok cls (a # q) start (b # s)"
proof (cases "s = []")
  case True
  with assms(1-5) show ?thesis
    by (auto simp: accepts_Cons take_step_def tail_ok_def in_lang_SOne_Cons in_lang_empty_source)
next
  case False
  have "in_lang (spec_tail cls q) s \<longleftrightarrow> q \<noteq> [] \<and> tail_ok cls q False s"
    using False by (auto simp: tail_ok_def in_lang_STrail)
  with assms(1-4) IH False show ?thesis
    by (auto simp: accepts_Cons take_step_def tail_ok_def in_lang_SOne_Cons)
qed

lemma accepts_star:
  assumes "is_star a" "q \<noteq> []"
  shows "accepts cls (a # q) start (b # s) \<longleftrightarrow>
    accepts cls q True (b # s) \<or>
    \<not> (a = magicAsterisk \<and> is_delim b) \<and> s \<noteq> [] \<and> accepts cls (a # q) False s"
proof -
  obtain n c where st: "atom_step cls q True b (s = []) = (n, c)" by fastforce
  have "accepts cls q True (b # s) \<longleftrightarrow> 0 < c \<or> (\<exists>p \<in> set n. accepts cls p False s)"
    by (simp add: accepts_Cons st)
  moreover have "accepts cls p False [] \<longleftrightarrow> False" for p by simp
  ultimately show ?thesis using assms st
    by (cases "s = []") (auto simp: accepts_Cons [of cls "a # q"] is_star_def)
qed

lemma accepts_star_last:
  assumes "is_star a"
  shows "accepts cls [a] start (b # s) \<longleftrightarrow>
    \<not> (a = magicAsterisk \<and> is_delim b) \<and> (s = [] \<or> accepts cls [a] False s)"
  using assms by (cases "s = []") (auto simp: accepts_Cons [of cls "[a]"] is_star_def)

lemma spec_atom_star: "is_star a \<Longrightarrow> spec_atom cls a = (if a = magicAsterisk then SStar else SStar2)"
  by (auto simp: is_star_def)

lemma in_lang_star_Cons:
  assumes "is_star a"
  shows "in_lang (spec_tail cls (a # q)) (b # s) \<longleftrightarrow>
    in_lang (spec_tail cls q) (b # s) \<or>
    \<not> (a = magicAsterisk \<and> is_delim b) \<and> in_lang (spec_tail cls (a # q)) s"
  using assms
  by (auto simp: spec_atom_star in_lang_SStar_Cons in_lang_SStar2_Cons simp del: spec_atom.simps)

lemma in_lang_star_Nil:
  "is_star a \<Longrightarrow> in_lang (spec_tail cls (a # q)) [] \<longleftrightarrow> in_lang (spec_tail cls q) []"
  by (auto simp: spec_atom_star simp del: spec_atom.simps)

lemma ends_star_dot_Cons: "ends_star_dot q \<Longrightarrow> ends_star_dot (a # q)"
  by (simp add: ends_star_dot_def suffix_Cons)

lemma in_lang_star_trail:
  assumes "is_star a" "ends_star_dot [a, magicDot] \<longrightarrow> colon \<notin> set s"
  shows "in_lang (spec_tail cls [a, magicDot]) s"
  using assms in_lang_SStar_STrail [of s] in_lang_SStar2_all [of "[STrail]" s]
  by (auto simp: is_star_def ends_star_dot_def)

lemma ends_well_after_star:
  "wf_tail (a # q) \<Longrightarrow> is_star a \<Longrightarrow> q \<noteq> [] \<Longrightarrow> q \<noteq> [magicDot] \<Longrightarrow> \<not> ends_well_runes q"
  by (cases q) (auto simp: ends_well_runes_def is_star_def split: list.splits)

lemma accepts_tail:
  assumes "wf_tail p" "p \<noteq> []" "s \<noteq> []" "ends_star_dot p \<longrightarrow> colon \<notin> set s"
  shows "accepts cls p start s \<longleftrightarrow> tail_ok cls p start s"
  using assms
proof (induction s arbitrary: p start)
  case Nil
  then show ?case by simp
next
  case (Cons b s)
  note outer = Cons.IH
  from Cons.prems show ?case
  proof (induction p arbitrary: start)
    case Nil
    then show ?case by simp
  next
    case (Cons a q)
    have q: "wf_tail q" using Cons.prems(1) by (rule wf_tail_Cons)
    have col: "ends_star_dot (a # q) \<longrightarrow> colon \<notin> set s" using Cons.prems(4) by auto
    have again: "accepts cls (a # q) False s \<longleftrightarrow> tail_ok cls (a # q) False s" if "s \<noteq> []"
      using that Cons.prems col by (intro outer) auto
    have tail: "accepts cls q False s \<longleftrightarrow> tail_ok cls q False s" if "s \<noteq> []" "q \<noteq> []"
      using that q col by (intro outer) (auto dest: ends_star_dot_Cons)
    have same: "accepts cls q True (b # s) \<longleftrightarrow> tail_ok cls q True (b # s)" if "q \<noteq> []"
      using that q Cons.prems by (intro Cons.IH) (auto dest: ends_star_dot_Cons)
    consider "a = magicDot" | "is_star a" "q = []" | "is_star a" "q = [magicDot]"
      | "is_star a" "q \<noteq> []" "q \<noteq> [magicDot]" | "a \<noteq> magicDot" "\<not> is_star a"
      by blast
    then show ?case
    proof cases
      case 1
      with Cons.prems show ?thesis by (simp add: wf_tail_Dot accepts_Cons tail_ok_def)
    next
      case 2
      then have "a \<noteq> magicDot" by (auto simp: is_star_def)
      with 2 again show ?thesis
        by (cases "s = []")
          (auto simp: accepts_star_last tail_ok_def in_lang_star_Cons in_lang_star_Nil
            simp del: spec_tail_simps(2))
    next
      case 3
      then have "a \<noteq> magicDot" by (auto simp: is_star_def)
      with 3 same in_lang_star_trail [OF 3(1)] Cons.prems(4) show ?thesis
        by (simp add: accepts_star tail_ok_def del: spec_tail_simps(2))
    next
      case 4
      then have "a \<noteq> magicDot" by (auto simp: is_star_def)
      moreover have "\<not> in_lang (spec_tail cls q) []"
        using ends_well_after_star [OF Cons.prems(1)] 4 q by (simp add: in_lang_empty_source)
      ultimately show ?thesis using 4 again same
        by (cases "s = []")
          (auto simp: accepts_star tail_ok_def in_lang_star_Cons in_lang_star_Nil
            simp del: spec_tail_simps(2))
    next
      case 5
      then have "a \<noteq> magicAsterisk" "a \<noteq> magicAsterisk2" by (auto simp: is_star_def)
      then show ?thesis using 5(1) q tail
        by (intro accepts_take [where ok = "if a = magicQuestion then \<not> is_delim b
              else a = magicUnderscore \<or> cls a b"
            and P = "if a = magicQuestion then (\<lambda>b. \<not> is_delim b)
              else if a = magicUnderscore then (\<lambda>b. True) else cls a"]) auto
    qed
  qed
qed

lemma accepts_dot:
  assumes "q \<noteq> []"
  shows "accepts cls (magicDot # q) start (b # s) \<longleftrightarrow>
    start \<and> accepts cls q True (b # s) \<or>
    s \<noteq> [] \<and> (b = dot \<and> accepts cls q False s \<or> accepts cls (magicDot # q) False s)"
proof -
  obtain n c where st: "atom_step cls q True b (s = []) = (n, c)" by fastforce
  have "accepts cls q True (b # s) \<longleftrightarrow> 0 < c \<or> (\<exists>p \<in> set n. accepts cls p False s)"
    by (simp add: accepts_Cons st)
  moreover have "accepts cls p False [] \<longleftrightarrow> False" for p by simp
  ultimately show ?thesis using assms st
    by (cases "s = []") (auto simp: accepts_Cons [of cls "magicDot # q"])
qed

lemma accepts_dot_later:
  assumes "q \<noteq> []"
  shows "accepts cls (magicDot # q) False s \<longleftrightarrow>
    (\<exists>k. Suc k < length s \<and> s ! k = dot \<and> accepts cls q False (drop (Suc k) s))"
proof (induction s)
  case Nil
  then show ?case by simp
next
  case (Cons b s)
  have "(\<exists>k. Suc k < length (b # s) \<and> (b # s) ! k = dot \<and> accepts cls q False (drop (Suc k) (b # s)))
    \<longleftrightarrow> s \<noteq> [] \<and> b = dot \<and> accepts cls q False s \<or>
      (\<exists>k. Suc k < length s \<and> s ! k = dot \<and> accepts cls q False (drop (Suc k) s))"
    (is "(\<exists>k. ?P k) \<longleftrightarrow> _")
  proof -
    have "(\<exists>k. ?P k) \<longleftrightarrow> ?P 0 \<or> (\<exists>k. ?P (Suc k))" by (metis not0_implies_Suc)
    then show ?thesis by simp
  qed
  with Cons show ?case by (auto simp: accepts_dot [OF assms])
qed

lemma suffix_drop_colon: "colon \<notin> set s \<Longrightarrow> colon \<notin> set (drop k s)"
  by (meson in_set_dropD)

text \<open>What the last dot of the source would add: nothing, on the sources of \<open>src_ok\<close>.\<close>

lemma lead_nothing_new:
  assumes "wf_tail q" "q \<noteq> []" "s \<noteq> []" "src_ok (magicDot # q) s" "last s = dot" "ends_well_runes q"
  shows "in_lang (spec_tail cls q) s"
proof -
  from assms(6) assms(2) have "q = [magicDot] \<or> q = [magicAsterisk] \<or> q = [magicAsterisk2]
      \<or> (\<exists>a. is_star a \<and> q = [a, magicDot])"
    by (auto simp: ends_well_runes_def is_star_def split: list.splits)
  then show ?thesis
  proof (elim disjE exE)
    assume "q = [magicAsterisk2]"
    then show ?thesis by (simp add: in_lang_SStar2_all)
  next
    fix a assume "is_star a \<and> q = [a, magicDot]"
    then show ?thesis using assms(4) in_lang_star_trail [of a s cls] ends_star_dot_Cons [of q magicDot]
      by (auto simp: src_ok_def simp del: spec_tail_simps(2))
  qed (use assms(4,5) in \<open>auto simp: src_ok_def\<close>)
qed

lemma accepts_lead:
  assumes "wf_tail q" "q \<noteq> []" "s \<noteq> []" "src_ok (magicDot # q) s"
  shows "accepts cls (magicDot # q) True s \<longleftrightarrow> in_lang (SLead # spec_tail cls q) s"
proof -
  have nd: "q \<noteq> [magicDot]" using assms(4) by (auto simp: src_ok_def)
  have col: "ends_star_dot q \<longrightarrow> colon \<notin> set s"
    using assms(4) ends_star_dot_Cons by (auto simp: src_ok_def)
  have run: "accepts cls q start (drop k s) \<longleftrightarrow> in_lang (spec_tail cls q) (drop k s)"
    if "k < length s" for k start
    using accepts_tail [of q "drop k s" cls start] assms(1,2) col that nd
    by (auto simp: tail_ok_def dest: suffix_drop_colon)
  obtain b t where s: "s = b # t" using assms(3) by (cases s) auto
  have "accepts cls (magicDot # q) True s \<longleftrightarrow>
      accepts cls q True s \<or> accepts cls (magicDot # q) False s"
    unfolding s accepts_dot [OF assms(2)] by auto
  also have "\<dots> \<longleftrightarrow> in_lang (spec_tail cls q) s \<or>
      (\<exists>k. Suc k < length s \<and> s ! k = dot \<and> in_lang (spec_tail cls q) (drop (Suc k) s))"
    using run [of 0] assms(3) run by (auto simp: accepts_dot_later [OF assms(2)])
  also have "\<dots> \<longleftrightarrow> in_lang (SLead # spec_tail cls q) s"
  proof -
    have "in_lang (spec_tail cls q) s"
      if "k < length s" "\<not> Suc k < length s" "s ! k = dot" "in_lang (spec_tail cls q) (drop (Suc k) s)" for k
    proof -
      have "k = length s - 1" using that by simp
      then have "last s = dot" using that(3) assms(3) by (simp add: last_conv_nth)
      moreover have "ends_well_runes q" using that assms(1) in_lang_empty_source by simp
      ultimately show ?thesis using lead_nothing_new assms by blast
    qed
    then show ?thesis unfolding in_lang_SLead by (meson Suc_lessD)
  qed
  finally show ?thesis .
qed

lemma accepts_language:
  assumes "wf_atoms p" "s \<noteq> []" "src_ok p s"
  shows "accepts cls p True s \<longleftrightarrow> in_lang (spec_atoms cls p) s"
proof (cases p)
  case Nil
  with assms show ?thesis by (simp add: wf_atoms_def)
next
  case (Cons a q)
  show ?thesis
  proof (cases "a = magicDot")
    case True
    show ?thesis
    proof (cases "q = []")
      case True': True
      obtain b t where s: "s = b # t" using assms(2) by (cases s) auto
      show ?thesis unfolding Cons True True' s
        by (simp add: accepts_Cons spec_atoms_def in_lang_SStar2_all)
    next
      case False
      with accepts_lead [of q s cls] assms Cons True show ?thesis
        by (simp add: wf_atoms_def spec_atoms_def)
    qed
  next
    case False
    with assms Cons accepts_tail [of p s cls True] show ?thesis
      by (simp add: wf_atoms_def spec_atoms_def tail_ok_def src_ok_def)
  qed
qed

end
