(* ===== verification/Match_Syntax.thy ===== *)
theory Match_Syntax
  imports Match_Correct
begin

text \<open>
  The pattern syntax by itself: a reference reading of a pattern string as a sequence of
  atoms (\<open>read_elems\<close>, \<open>spec_pattern\<close>), independent of the compiler's tables, and the proof
  that \<open>parse\<close> and \<open>Add\<close> (which merge stars, move single characters in front of stars,
  number the groups and reverse everything) keep its language.
\<close>

section \<open>Reference reading\<close>

datatype patt_elem = EDot | ESat satom

function read_elems :: "bytes \<Rightarrow> patt_elem list" where
  "read_elems [] = []"
| "read_elems (b # bs) =
     (if b = lbracket
      then ESat (SOne (\<lambda>c. c \<in> group_sem (group_body bs))) # read_elems (group_rest bs)
      else if b = asterisk
      then (if bs \<noteq> [] \<and> hd bs = asterisk then ESat SStar2 # read_elems (tl bs)
            else ESat SStar # read_elems bs)
      else if b = question then ESat (SOne (\<lambda>c. \<not> is_delim c)) # read_elems bs
      else if b = underscore then ESat (SOne (\<lambda>c. True)) # read_elems bs
      else if b = dot then EDot # read_elems bs
      else ESat (SOne (\<lambda>c. c = b)) # read_elems bs)"
  by pat_completeness auto
termination
  by (relation "measure length") (auto simp: less_Suc_eq_le group_rest_length)

fun elem_atom :: "patt_elem \<Rightarrow> satom" where
  "elem_atom EDot = SOne (\<lambda>c. c = dot)"
| "elem_atom (ESat a) = a"

text \<open>Dots at the two ends are the leading and the trailing dot; a lone one matches anything.\<close>

definition place_last :: "patt_elem list \<Rightarrow> satom list" where
  "place_last es =
     (if es \<noteq> [] \<and> last es = EDot then map elem_atom (butlast es) @ [STrail] else map elem_atom es)"

definition place :: "patt_elem list \<Rightarrow> satom list" where
  "place es =
     (if es = [] \<or> es = [EDot] then [SStar2]
      else if hd es = EDot then SLead # place_last (tl es) else place_last es)"

definition spec_pattern :: "bytes \<Rightarrow> satom list" where
  "spec_pattern bs = place (read_elems bs)"

section \<open>Equal languages\<close>

definition same_lang :: "satom list \<Rightarrow> satom list \<Rightarrow> bool" where
  "same_lang p q \<longleftrightarrow> (\<forall>s. in_lang p s \<longleftrightarrow> in_lang q s)"

lemma same_lang_refl [simp]: "same_lang p p"
  by (simp add: same_lang_def)

lemma same_lang_sym: "same_lang p q \<Longrightarrow> same_lang q p"
  by (simp add: same_lang_def)

lemma same_lang_trans [trans]: "same_lang p q \<Longrightarrow> same_lang q r \<Longrightarrow> same_lang p r"
  by (simp add: same_lang_def)

lemma in_lang_split:
  "in_lang (a # p) s \<longleftrightarrow> (\<exists>u v. s = u @ v \<and> seg_ok a u \<and> in_lang p v)"
proof
  assume "in_lang (a # p) s"
  then show "\<exists>u v. s = u @ v \<and> seg_ok a u \<and> in_lang p v"
    unfolding in_lang.simps(2) by (metis append_take_drop_id)
next
  assume "\<exists>u v. s = u @ v \<and> seg_ok a u \<and> in_lang p v"
  then obtain u v where "s = u @ v" "seg_ok a u" "in_lang p v" by blast
  then show "in_lang (a # p) s"
    unfolding in_lang.simps(2) by (intro exI [of _ "length u"]) simp
qed

lemma in_lang_append:
  "in_lang (p @ q) s \<longleftrightarrow> (\<exists>u v. s = u @ v \<and> in_lang p u \<and> in_lang q v)"
proof (induction p arbitrary: s)
  case Nil
  then show ?case by simp
next
  case (Cons a p)
  show ?case unfolding append_Cons in_lang_split Cons.IH by (metis append.assoc)
qed

lemma in_lang_single: "in_lang [a] s \<longleftrightarrow> seg_ok a s"
  by (auto simp: in_lang_split)

lemma same_lang_append: "same_lang p p' \<Longrightarrow> same_lang q q' \<Longrightarrow> same_lang (p @ q) (p' @ q')"
  by (simp add: same_lang_def in_lang_append)

lemma same_lang_Cons: "same_lang p q \<Longrightarrow> same_lang (a # p) (a # q)"
  using same_lang_append [of "[a]" "[a]" p q] by simp

lemma same_lang_swap:
  assumes "same_lang [a, b] [c, d]"
  shows "same_lang (p @ a # b # q) (p @ c # d # q)"
  using same_lang_append [OF same_lang_refl [of p] same_lang_append [OF assms same_lang_refl [of q]]]
  by simp

lemma same_lang_merge:
  assumes "same_lang [a, b] [c]"
  shows "same_lang (p @ [a, b]) (p @ [c])"
  by (rule same_lang_append [OF same_lang_refl assms])

lemma seg_ok_star2: "in_lang [SStar2] s"
  by (simp add: in_lang_single)

lemma merge_stars:
  "same_lang [SStar, SStar] [SStar]" "same_lang [SStar, SStar2] [SStar2]"
  "same_lang [SStar2, SStar] [SStar2]" "same_lang [SStar2, SStar2] [SStar2]"
proof -
  have nil: "in_lang [SStar] []" "in_lang [SStar2] []" by (simp_all add: in_lang_single)
  show "same_lang [SStar2, SStar] [SStar2]" "same_lang [SStar2, SStar2] [SStar2]"
    using nil by (auto simp: same_lang_def seg_ok_star2 intro: in_lang_SStar2_all)
  show "same_lang [SStar, SStar2] [SStar2]"
    unfolding same_lang_def
    by (auto simp: seg_ok_star2 in_lang_split [of SStar] intro: exI [of _ "[]"])
  show "same_lang [SStar, SStar] [SStar]"
    unfolding same_lang_def in_lang_split [of SStar "[SStar]"] in_lang_single by (auto intro: exI [of _ "[]"])
qed

lemma seg_ok_SOne: "seg_ok (SOne P) s \<longleftrightarrow> (\<exists>b. s = [b] \<and> P b)"
  by (auto split: list.splits)

lemma in_lang_star_one:
  assumes "\<And>u. seg_ok S u \<longleftrightarrow> list_all P u"
  shows "same_lang [S, SOne P] [SOne P, S]"
proof -
  have 1: "in_lang [S, SOne P] s \<longleftrightarrow> s \<noteq> [] \<and> list_all P s" for s
  proof -
    have "in_lang [S, SOne P] s \<longleftrightarrow> (\<exists>u b. s = u @ [b] \<and> list_all P u \<and> P b)"
      unfolding in_lang_split [of S] in_lang_single assms seg_ok_SOne by blast
    also have "\<dots> \<longleftrightarrow> s \<noteq> [] \<and> list_all P s"
      by (cases s rule: rev_cases) auto
    finally show ?thesis .
  qed
  have 2: "in_lang [SOne P, S] s \<longleftrightarrow> s \<noteq> [] \<and> list_all P s" for s
    by (cases s) (auto simp: in_lang_SOne_Cons in_lang_single assms simp del: seg_ok.simps(1-4))
  from 1 2 show ?thesis by (simp add: same_lang_def)
qed

lemma star_commutes:
  "same_lang [SStar, SOne (\<lambda>b. \<not> is_delim b)] [SOne (\<lambda>b. \<not> is_delim b), SStar]"
  "same_lang [SStar2, SOne (\<lambda>b. True)] [SOne (\<lambda>b. True), SStar2]"
  by (rule in_lang_star_one; simp add: list_all_iff)+

section \<open>Normalising keeps the language\<close>

text \<open>The parser's state \<open>(atoms, lastAtom)\<close> after reading the raw atoms \<open>raw\<close>.\<close>

abbreviation "dot_rune \<equiv> unat dot"

definition parse_inv :: "(rune \<Rightarrow> u8 \<Rightarrow> bool) \<Rightarrow> rune list \<Rightarrow> rune list \<Rightarrow> rune \<Rightarrow> bool" where
  "parse_inv cls raw atoms lastAtom \<longleftrightarrow>
     same_lang (spec_tail cls atoms) (spec_tail cls raw) \<and>
     (is_star lastAtom \<longrightarrow> atoms \<noteq> [] \<and> last atoms = lastAtom) \<and>
     (atoms = [] \<longleftrightarrow> raw = []) \<and>
     (atoms = [dot_rune] \<longleftrightarrow> raw = [dot_rune]) \<and>
     (raw \<noteq> [] \<longrightarrow> (hd atoms = dot_rune \<longleftrightarrow> hd raw = dot_rune) \<and>
        (last atoms = dot_rune \<longleftrightarrow> last raw = dot_rune))"

lemma spec_tail_append [simp]: "spec_tail cls (p @ q) = spec_tail cls p @ spec_tail cls q"
  by (simp add: spec_tail_def)

lemma snoc_cases_star:
  assumes "atoms \<noteq> []" "last atoms = x"
  obtains p where "atoms = p @ [x]" "\<And>y. atoms[length atoms - 1 := y] = p @ [y]"
  using assms by (metis append_butlast_last_id length_append_singleton diff_Suc_1 list_update_length)

lemma spec_star_pair:
  "is_star l \<Longrightarrow> is_star a \<Longrightarrow> same_lang [spec_atom cls l, spec_atom cls a] [spec_atom cls (max l a)]"
  using merge_stars by (auto simp: is_star_def)

text \<open>The four things a round of \<open>parse\<close> does: append, merge two stars, or move a star back.\<close>

lemma parse_step_cases:
  assumes "parse_inv cls raw atoms l" "parse_step atoms l a = (atoms', l')"
  obtains (append) "atoms' = atoms @ [a]" "l' = a"
  | (merge) p where "atoms = p @ [l]" "is_star l" "is_star a" "atoms' = p @ [max l a]" "l' = max l a"
  | (question) p where "atoms = p @ [l]" "l = magicAsterisk" "a = magicQuestion"
      "atoms' = p @ [a, l]" "l' = l"
  | (underscore) p where "atoms = p @ [l]" "l = magicAsterisk2" "a = magicUnderscore"
      "atoms' = p @ [a, l]" "l' = l"
proof (cases "is_star l")
  case False
  then have "atoms' = atoms @ [a] \<and> l' = a"
    using assms(2) by (auto simp: parse_step_def is_star_def split: if_splits)
  then show ?thesis using that(1) by blast
next
  case True
  then obtain p where p: "atoms = p @ [l]" "\<And>y. atoms[length atoms - 1 := y] = p @ [y]"
    using assms(1) unfolding parse_inv_def by (metis snoc_cases_star)
  consider "is_star a" | "l = magicAsterisk \<and> a = magicQuestion" | "l = magicAsterisk2 \<and> a = magicUnderscore"
    | "\<not> is_star a" "\<not> (l = magicAsterisk \<and> a = magicQuestion)"
      "\<not> (l = magicAsterisk2 \<and> a = magicUnderscore)" by blast
  then show ?thesis
  proof cases
    case 1
    with True have "atoms' = p @ [max l a] \<and> l' = max l a"
      using assms(2) p by (auto simp: parse_step_def is_star_def)
    with 1 True p show ?thesis using that(2) by blast
  next
    case 2
    then have "atoms' = p @ [a, l] \<and> l' = l" using assms(2) p by (auto simp: parse_step_def)
    with 2 p show ?thesis using that(3) by blast
  next
    case 3
    then have "atoms' = p @ [a, l] \<and> l' = l" using assms(2) p by (auto simp: parse_step_def)
    with 3 p show ?thesis using that(4) by blast
  next
    case 4
    then have "atoms' = atoms @ [a] \<and> l' = a"
      using assms(2) by (auto simp: parse_step_def is_star_def split: if_splits)
    then show ?thesis using that(1) by blast
  qed
qed

lemma parse_step_lang:
  assumes "parse_inv cls raw atoms l" "parse_step atoms l a = (atoms', l')"
  shows "same_lang (spec_tail cls atoms') (spec_tail cls (raw @ [a]))"
proof -
  have step: "same_lang (spec_tail cls (atoms @ [a])) (spec_tail cls (raw @ [a]))"
    using assms(1) by (simp add: parse_inv_def same_lang_append)
  from assms have "same_lang (spec_tail cls atoms') (spec_tail cls (atoms @ [a]))"
  proof (cases rule: parse_step_cases)
    case (merge p)
    have "same_lang (spec_tail cls p @ [spec_atom cls l, spec_atom cls a])
        (spec_tail cls p @ [spec_atom cls (max l a)])"
      by (rule same_lang_merge [OF spec_star_pair [OF merge(2,3)]])
    then show ?thesis using merge by (simp add: same_lang_sym del: spec_atom.simps)
  next
    case (question p)
    then show ?thesis by (simp add: same_lang_append same_lang_sym [OF star_commutes(1)])
  next
    case (underscore p)
    then show ?thesis by (simp add: same_lang_append same_lang_sym [OF star_commutes(2)])
  qed simp
  with step show ?thesis by (rule same_lang_trans [rotated -1])
qed

lemma parse_step_shape:
  assumes "parse_inv cls raw atoms l" "parse_step atoms l a = (atoms', l')"
  shows "(is_star l' \<longrightarrow> atoms' \<noteq> [] \<and> last atoms' = l') \<and> atoms' \<noteq> [] \<and>
    (atoms' = [dot_rune] \<longleftrightarrow> raw @ [a] = [dot_rune]) \<and>
    (hd atoms' = dot_rune \<longleftrightarrow> hd (raw @ [a]) = dot_rune) \<and>
    (last atoms' = dot_rune \<longleftrightarrow> a = dot_rune)"
  using assms
proof (cases rule: parse_step_cases)
  case append
  with assms(1) show ?thesis by (cases atoms; cases raw) (simp_all add: parse_inv_def)
next
  case (merge p)
  then have "max l a \<noteq> dot_rune" "l \<noteq> dot_rune" "a \<noteq> dot_rune" by (auto simp: is_star_def)
  with merge assms(1) show ?thesis by (cases p; cases raw) (simp_all add: parse_inv_def)
next
  case (question p)
  with assms(1) show ?thesis by (cases p; cases raw) (simp_all add: parse_inv_def)
next
  case (underscore p)
  with assms(1) show ?thesis by (cases p; cases raw) (simp_all add: parse_inv_def)
qed

lemma parse_step_inv:
  assumes "parse_inv cls raw atoms l" "parse_step atoms l a = (atoms', l')"
  shows "parse_inv cls (raw @ [a]) atoms' l'"
  using parse_step_lang [OF assms] parse_step_shape [OF assms] by (simp add: parse_inv_def)

lemma parse_step_set:
  assumes "parse_inv cls raw atoms l" "parse_step atoms l a = (atoms', l')"
  shows "set atoms' \<subseteq> insert a (set atoms)"
  using assms by (cases rule: parse_step_cases) (auto simp: max_def)

section \<open>Reading atoms\<close>

text \<open>The tables agree: every group atom is at least 256 and stands for its charset.\<close>

definition ms_inv :: "'d MatchSet \<Rightarrow> bool" where
  "ms_inv ms \<longleftrightarrow>
     (ms_nextAtom ms = 0 \<longrightarrow> ms_charSetToAtom ms = Map.empty \<and> ms_atomToCharSet ms = Map.empty) \<and>
     (ms_nextAtom ms \<noteq> 0 \<longrightarrow> 256 \<le> ms_nextAtom ms) \<and>
     (\<forall>cs a. ms_charSetToAtom ms cs = Some a \<longrightarrow> ms_atomToCharSet ms a = Some cs) \<and>
     (\<forall>cs a. ms_atomToCharSet ms a = Some cs \<longrightarrow> 256 \<le> a \<and> a < ms_nextAtom ms \<and> charset_wf cs)"

definition atom_known :: "'d MatchSet \<Rightarrow> rune \<Rightarrow> bool" where
  "atom_known ms a \<longleftrightarrow> a \<noteq> 0 \<and> (a < 256 \<or> ms_atomToCharSet ms a \<noteq> None)"

definition ms_extends :: "'d MatchSet \<Rightarrow> 'd MatchSet \<Rightarrow> bool" where
  "ms_extends ms ms' \<longleftrightarrow>
     ms_patterns ms' = ms_patterns ms \<and>
     (\<forall>a. atom_known ms a \<longrightarrow> atom_known ms' a \<and> atom_matches ms' a = atom_matches ms a)"

definition elem_of :: "(rune \<Rightarrow> u8 \<Rightarrow> bool) \<Rightarrow> rune \<Rightarrow> patt_elem" where
  "elem_of cls a = (if a = dot_rune then EDot else ESat (spec_atom cls a))"

definition next_of :: "'d MatchSet \<Rightarrow> nat" where
  "next_of ms = max 256 (ms_nextAtom ms)"

lemma ms_inv_empty [simp, inv_intros]: "ms_inv ms_empty"
  by (simp add: ms_inv_def ms_empty_def)

lemma ms_extends_refl [simp]: "ms_extends ms ms"
  by (simp add: ms_extends_def)

lemma ms_extends_trans: "ms_extends a b \<Longrightarrow> ms_extends b c \<Longrightarrow> ms_extends a c"
  by (simp add: ms_extends_def)

lemma elem_of_extends:
  "ms_extends ms ms' \<Longrightarrow> atom_known ms a \<Longrightarrow> elem_of (atom_matches ms') a = elem_of (atom_matches ms) a"
  by (simp add: ms_extends_def elem_of_def)

lemma ms_inv_small: "ms_inv ms \<Longrightarrow> a < 256 \<Longrightarrow> ms_atomToCharSet ms a = None"
  unfolding ms_inv_def by (metis not_None_eq not_le)

text \<open>An atom that a group gets for the first time.\<close>

definition new_atom :: "'d MatchSet \<Rightarrow> charset \<Rightarrow> 'd MatchSet" where
  "new_atom ms cs =
     (let ms1 = (if ms_nextAtom ms = 0
                 then ms\<lparr>ms_nextAtom := 256, ms_charSetToAtom := Map.empty,
                         ms_atomToCharSet := Map.empty\<rparr> else ms);
          atom = ms_nextAtom ms1
      in ms1\<lparr>ms_nextAtom := atom + 1, ms_charSetToAtom := (ms_charSetToAtom ms1)(cs \<mapsto> atom),
             ms_atomToCharSet := (ms_atomToCharSet ms1)(atom \<mapsto> cs)\<rparr>)"

lemma new_atom_simps:
  assumes "ms_inv ms"
  shows "ms_nextAtom (new_atom ms cs) = next_of ms + 1"
    and "ms_charSetToAtom (new_atom ms cs) = (ms_charSetToAtom ms)(cs \<mapsto> next_of ms)"
    and "ms_atomToCharSet (new_atom ms cs) = (ms_atomToCharSet ms)(next_of ms \<mapsto> cs)"
    and "ms_patterns (new_atom ms cs) = ms_patterns ms"
  using assms by (auto simp: new_atom_def ms_inv_def next_of_def max_def Let_def)

lemma next_of_fresh: "ms_inv ms \<Longrightarrow> ms_atomToCharSet ms (next_of ms) = None"
  unfolding ms_inv_def next_of_def by (metis max.cobounded2 not_None_eq not_le)

lemma new_atom_inv [inv_intros]:
  assumes "ms_inv ms" "charset_wf cs" "ms_charSetToAtom ms cs = None"
  shows "ms_inv (new_atom ms cs)"
proof -
  have "256 \<le> next_of ms" by (simp add: next_of_def)
  moreover have "a < next_of ms" if "ms_atomToCharSet ms a = Some c" for a c
    using assms(1) that unfolding ms_inv_def next_of_def by (metis max.strict_coboundedI2)
  ultimately show ?thesis using assms next_of_fresh [OF assms(1)]
    unfolding ms_inv_def [of "new_atom ms cs"] new_atom_simps [OF assms(1)]
    unfolding ms_inv_def by (auto simp: less_SucI)
qed

lemma new_atom_extends:
  assumes "ms_inv ms"
  shows "ms_extends ms (new_atom ms cs)"
  using assms next_of_fresh [OF assms]
  by (auto simp: ms_extends_def atom_known_def atom_matches_def new_atom_simps fun_eq_iff next_of_def)

lemma group_atom_elem:
  assumes "ms_inv ms" "ms_atomToCharSet ms a = Some cs"
  shows "elem_of (atom_matches ms) a = ESat (SOne (\<lambda>b. b \<in> cs_set cs))"
proof -
  have a: "256 \<le> a" using assms unfolding ms_inv_def by blast
  then have "a \<noteq> unat b" for b :: u8 using unat_byte_less [of b] by linarith
  then have "atom_matches ms a = (\<lambda>b. b \<in> cs_set cs)"
    using assms(2) by (auto simp: atom_matches_def cs_set_def)
  with a show ?thesis by (simp add: elem_of_def)
qed

lemma byte_atom_matches:
  assumes "ms_inv ms"
  shows "atom_matches ms (unat b) = (\<lambda>c. c = b)"
  using ms_inv_small [OF assms unat_byte_less [of b]] cs_set_empty
  by (auto simp: atom_matches_def cs_set_def word_unat_eq_iff fun_eq_iff)


definition read_ok :: "'d MatchSet \<Rightarrow> u8 \<Rightarrow> bytes \<Rightarrow> rune \<Rightarrow> bytes \<Rightarrow> 'd MatchSet \<Rightarrow> bool" where
  "read_ok ms b bs a left ms' \<longleftrightarrow>
     ms_inv ms' \<and> ms_extends ms ms' \<and> atom_known ms' a \<and> a < next_of ms' \<and>
     next_of ms \<le> next_of ms' \<and> next_of ms' \<le> next_of ms + 1 \<and>
     read_elems (b # bs) = elem_of (atom_matches ms') a # read_elems left"

lemma readAtom_new:
  assumes "ms_inv ms" "charSetFromGroup bs = Some (cs, left)" "ms_charSetToAtom ms cs = None"
    "cs \<noteq> cs_all"
  shows "readAtom ms lbracket bs = Some (next_of ms, left, new_atom ms cs)"
proof -
  have "next_of ms = (if ms_nextAtom ms = 0 then 256 else ms_nextAtom ms)"
    using assms(1) by (auto simp: next_of_def ms_inv_def)
  with assms show ?thesis by (simp add: readAtom_def new_atom_def Let_def)
qed

lemma readAtom_group:
  assumes ms: "ms_inv ms" and r: "readAtom ms lbracket bs = Some (a, left, ms')"
  shows "read_ok ms lbracket bs a left ms'"
proof -
  obtain cs where cs: "charSetFromGroup bs = Some (cs, left)"
  proof (cases "charSetFromGroup bs")
    case None
    then show ?thesis using r by (simp add: readAtom_def)
  next
    case (Some x)
    moreover obtain cs l where "x = (cs, l)" by (cases x)
    moreover have "l = left" using calculation r
      by (auto simp: readAtom_def Let_def split: if_splits option.split_asm)
    ultimately show ?thesis using that by simp
  qed
  note left = charSetFromGroup_SomeD(2) [OF cs] and wf = charSetFromGroup_SomeD(3) [OF cs]
    and sem = charSetFromGroup_SomeD(4) [OF cs]
  have rd: "read_elems (lbracket # bs) = ESat (SOne (\<lambda>c. c \<in> cs_set cs)) # read_elems left"
    unfolding left sem by (simp only: read_elems.simps if_True simp_thms)
  have n: "256 \<le> next_of ms" by (simp add: next_of_def)
  consider (old) "ms_charSetToAtom ms cs = Some a" "ms' = ms"
    | (all) "cs = cs_all" "a = magicUnderscore" "ms' = ms"
    | (new) "ms_charSetToAtom ms cs = None" "a = next_of ms" "ms' = new_atom ms cs"
  proof (cases "ms_charSetToAtom ms cs")
    case (Some x)
    moreover have "x = a \<and> ms' = ms" using r cs Some by (simp add: readAtom_def)
    ultimately show ?thesis using old by blast
  next
    case None
    then show ?thesis
    proof (cases "cs = cs_all")
      case True
      moreover have "a = magicUnderscore \<and> ms' = ms" using r cs None True by (simp add: readAtom_def)
      ultimately show ?thesis using all by blast
    next
      case False
      have "(a, left, ms') = (next_of ms, left, new_atom ms cs)"
        using readAtom_new [OF ms cs None False] r by simp
      then show ?thesis using new None by blast
    qed
  qed
  then show ?thesis
  proof cases
    case old
    then have k: "ms_atomToCharSet ms a = Some cs" using ms unfolding ms_inv_def by blast
    then have "256 \<le> a \<and> a < next_of ms" using ms unfolding ms_inv_def next_of_def
      by (metis max.strict_coboundedI2)
    with old k ms rd show ?thesis
      by (simp add: read_ok_def atom_known_def group_atom_elem [OF ms k])
  next
    case all
    with ms rd n show ?thesis
      by (simp add: read_ok_def atom_known_def elem_of_def)
  next
    case new
    have k: "ms_atomToCharSet (new_atom ms cs) (next_of ms) = Some cs"
      by (simp add: new_atom_simps [OF ms])
    have inv: "ms_inv (new_atom ms cs)" using ms wf new(1) by (rule new_atom_inv)
    have "next_of (new_atom ms cs) = next_of ms + 1" using n
      by (simp add: next_of_def [of "new_atom ms cs"] new_atom_simps [OF ms])
    with new k inv rd n show ?thesis
      by (simp add: read_ok_def atom_known_def group_atom_elem [OF inv k] new_atom_extends [OF ms])
  qed
qed

lemma readAtom_plain:
  assumes ms: "ms_inv ms" and b: "b \<noteq> lbracket" "5 \<le> unat b"
    and r: "readAtom ms b bs = Some (a, left, ms')"
  shows "read_ok ms b bs a left ms'"
proof -
  have n: "256 \<le> next_of ms" by (simp add: next_of_def)
  consider (star2) "b = asterisk" "bs \<noteq> [] \<and> hd bs = asterisk" "a = magicAsterisk2" "left = tl bs" "ms' = ms"
    | (star) "b = asterisk" "\<not> (bs \<noteq> [] \<and> hd bs = asterisk)" "a = magicAsterisk" "left = bs" "ms' = ms"
    | (question) "b = question" "a = magicQuestion" "left = bs" "ms' = ms"
    | (underscore) "b = underscore" "a = magicUnderscore" "left = bs" "ms' = ms"
    | (byte) "b \<noteq> asterisk" "b \<noteq> question" "b \<noteq> underscore" "a = unat b" "left = bs" "ms' = ms"
    using r b by (auto simp: readAtom_def split: if_splits list.splits)
  then show ?thesis
  proof cases
    case byte
    have "unat b < 256" by (rule unat_byte_less)
    moreover have "unat b = dot_rune \<longleftrightarrow> b = dot" by (simp only: word_unat_eq_iff)
    ultimately show ?thesis using byte b ms n
      by (simp add: read_ok_def atom_known_def elem_of_def byte_atom_matches [OF ms] is_star_def)
  qed (use ms n in \<open>simp_all add: read_ok_def atom_known_def elem_of_def\<close>)
qed

lemma readAtom_ok:
  "ms_inv ms \<Longrightarrow> 5 \<le> unat b \<Longrightarrow> readAtom ms b bs = Some (a, left, ms') \<Longrightarrow> read_ok ms b bs a left ms'"
  using readAtom_group readAtom_plain by metis

abbreviation "plain_bytes bs \<equiv> list_all (\<lambda>b. 5 \<le> unat b) bs"

lemma group_rest_set: "set (group_rest bs) \<subseteq> set bs"
proof (cases bs)
  case (Cons a r)
  have "set (drop 1 (dropWhile (\<lambda>b. b \<noteq> rbracket) r)) \<subseteq> set r"
    by (meson set_drop_subset set_dropWhileD subset_iff)
  with Cons show ?thesis by (auto simp: group_rest_def)
qed (simp add: group_rest_def)

lemma readAtom_left_set:
  assumes "readAtom ms b bs = Some (a, left, ms')"
  shows "set left \<subseteq> set bs"
proof (cases "b = lbracket")
  case True
  with assms obtain cs where "charSetFromGroup bs = Some (cs, left)"
    by (auto simp: readAtom_def Let_def split: option.split_asm if_split_asm)
  then show ?thesis using group_rest_set charSetFromGroup_SomeD(2) by blast
next
  case False
  with assms show ?thesis by (auto simp: readAtom_def split: list.split_asm if_split_asm)
qed

definition known :: "'d MatchSet \<Rightarrow> rune \<Rightarrow> bool" where
  "known ms a \<longleftrightarrow> atom_known ms a \<and> a < next_of ms"

lemma known_mono: "ms_extends ms ms' \<Longrightarrow> next_of ms \<le> next_of ms' \<Longrightarrow> known ms a \<Longrightarrow> known ms' a"
  by (auto simp: known_def ms_extends_def)

definition parse_ok ::
  "'d MatchSet \<Rightarrow> bytes \<Rightarrow> rune list \<Rightarrow> rune \<Rightarrow> rune list \<Rightarrow> 'd MatchSet \<Rightarrow> bool" where
  "parse_ok ms bs atoms l atoms' ms' \<longleftrightarrow>
     ms_inv ms' \<and> ms_extends ms ms' \<and> next_of ms \<le> next_of ms' \<and> next_of ms' \<le> next_of ms + length bs \<and>
     (\<exists>raw2. list_all (known ms') raw2 \<and> read_elems bs = map (elem_of (atom_matches ms')) raw2 \<and>
       (\<forall>cls raw. parse_inv cls raw atoms l \<longrightarrow>
          (\<exists>l'. parse_inv cls (raw @ raw2) atoms' l') \<and> set atoms' \<subseteq> set atoms \<union> set raw2))"

lemma parse_loop_ok:
  assumes "ms_inv ms" "plain_bytes bs" "parse_loop ms bs atoms l = Some (atoms', ms')"
  shows "parse_ok ms bs atoms l atoms' ms'"
  using assms
proof (induction ms bs atoms l rule: parse_loop.induct)
  case (1 ms atoms l)
  then have "atoms' = atoms" "ms' = ms" by simp_all
  with 1 show ?case by (auto simp: parse_ok_def intro!: exI [of _ "[]"])
next
  case (2 ms b bs atoms l)
  obtain a left ms1 where r: "readAtom ms b bs = Some (a, left, ms1)"
    using 2(4) by (auto split: option.split_asm)
  obtain atoms1 l1 where s: "parse_step atoms l a = (atoms1, l1)" by fastforce
  have ok: "read_ok ms b bs a left ms1" using readAtom_ok [OF _ _ r] 2(2,3) by simp
  then have i1: "ms_inv ms1" "ms_extends ms ms1" "known ms1 a" and n1: "next_of ms \<le> next_of ms1"
     "next_of ms1 \<le> next_of ms + 1"
    and e1: "read_elems (b # bs) = elem_of (atom_matches ms1) a # read_elems left"
    by (simp_all only: read_ok_def known_def)
  have "plain_bytes left" using readAtom_left_set [OF r] 2(3) by (auto simp: list_all_iff)
  moreover have "parse_loop ms1 left atoms1 l1 = Some (atoms', ms')" using 2(4) r s by simp
  ultimately have IH: "parse_ok ms1 left atoms1 l1 atoms' ms'"
    using 2(1) [OF r refl refl s [symmetric] refl i1(1)] by blast
  then obtain raw2 where i2: "ms_inv ms'" "ms_extends ms1 ms'" "next_of ms1 \<le> next_of ms'"
      "next_of ms' \<le> next_of ms1 + length left" and k2: "list_all (known ms') raw2"
    and e2: "read_elems left = map (elem_of (atom_matches ms')) raw2"
    and p2: "\<And>cls raw. parse_inv cls raw atoms1 l1 \<Longrightarrow>
          (\<exists>l'. parse_inv cls (raw @ raw2) atoms' l') \<and> set atoms' \<subseteq> set atoms1 \<union> set raw2"
    unfolding parse_ok_def by blast
  have "known ms' a" using known_mono i2 i1 by blast
  moreover have "read_elems (b # bs) = map (elem_of (atom_matches ms')) (a # raw2)"
    using e1 e2 elem_of_extends [OF i2(2)] i1(3) by (simp add: known_def)
  moreover have "(\<exists>l'. parse_inv cls (raw @ a # raw2) atoms' l') \<and> set atoms' \<subseteq> set atoms \<union> set (a # raw2)"
    if "parse_inv cls raw atoms l" for cls raw
    using p2 [OF parse_step_inv [OF that s]] parse_step_set [OF that s] by auto
  ultimately have "\<exists>raw2. list_all (known ms') raw2 \<and> read_elems (b # bs) = map (elem_of (atom_matches ms')) raw2 \<and>
       (\<forall>cls raw. parse_inv cls raw atoms l \<longrightarrow>
          (\<exists>l'. parse_inv cls (raw @ raw2) atoms' l') \<and> set atoms' \<subseteq> set atoms \<union> set raw2)"
    using k2 by (intro exI [of _ "a # raw2"]) auto
  moreover have "next_of ms' \<le> next_of ms + length (b # bs)"
    using i2(4) n1 readAtom_length [OF r] by simp
  ultimately show ?case
    unfolding parse_ok_def using i2 i1 n1 ms_extends_trans by (meson order_trans)
qed

end
