(* ===== verification/Match_Pattern.thy ===== *)
theory Match_Pattern
  imports Match_Syntax
begin

text \<open>
  \<open>MatchSet\<close> end to end: the language of a pattern survives reversal, the trailing dots and the
  second loop of \<open>Add\<close>, so that \<open>MatchAll\<close> reports a datum exactly when its pattern's reference
  reading matches the source.
\<close>

section \<open>Reversal\<close>

fun flip :: "satom \<Rightarrow> satom" where
  "flip SLead = STrail"
| "flip STrail = SLead"
| "flip a = a"

lemma seg_ok_flip: "seg_ok (flip a) (rev s) \<longleftrightarrow> seg_ok a s"
  by (cases a) (auto simp: hd_rev last_rev list_all_iff seg_ok_SOne simp del: seg_ok.simps(5))

lemma in_lang_rev: "in_lang (rev (map flip p)) (rev s) \<longleftrightarrow> in_lang p s"
proof (induction p arbitrary: s)
  case Nil
  then show ?case by simp
next
  case (Cons a p)
  have "in_lang (rev (map flip (a # p))) (rev s) \<longleftrightarrow>
      (\<exists>u v. rev s = rev v @ rev u \<and> in_lang (rev (map flip p)) (rev v) \<and> seg_ok (flip a) (rev u))"
    by (simp add: in_lang_append in_lang_single) (metis rev_rev_ident)
  also have "\<dots> \<longleftrightarrow> in_lang (a # p) s"
    unfolding in_lang_split Cons.IH seg_ok_flip by (metis rev_append rev_rev_ident)
  finally show ?case .
qed

section \<open>Cancelling a character\<close>

lemma seg_ok_dot: "seg_ok (SOne (\<lambda>c. c = b)) u \<longleftrightarrow> u = [b]"
  by (auto simp: seg_ok_SOne simp del: seg_ok.simps)

lemma same_lang_cancel_left:
  assumes "same_lang (SOne (\<lambda>c. c = b) # p) (SOne (\<lambda>c. c = b) # q)"
  shows "same_lang p q"
proof -
  have "in_lang (SOne (\<lambda>c. c = b) # r) (b # s) \<longleftrightarrow> in_lang r s" for r s
    by (simp add: in_lang_SOne_Cons)
  with assms show ?thesis unfolding same_lang_def by metis
qed

lemma same_lang_cancel_right:
  assumes "same_lang (p @ [SOne (\<lambda>c. c = b)]) (q @ [SOne (\<lambda>c. c = b)])"
  shows "same_lang p q"
proof -
  have "in_lang (r @ [SOne (\<lambda>c. c = b)]) (s @ [b]) \<longleftrightarrow> in_lang r s" for r s
    by (simp add: in_lang_append in_lang_single seg_ok_dot del: seg_ok.simps)
  with assms show ?thesis unfolding same_lang_def by metis
qed

section \<open>Dots at the ends\<close>

text \<open>The classes the matcher uses read the dot as itself.\<close>

definition dot_class :: "(rune \<Rightarrow> u8 \<Rightarrow> bool) \<Rightarrow> bool" where
  "dot_class cls \<longleftrightarrow> cls dot_rune = (\<lambda>c. c = dot)"

abbreviation "sdot \<equiv> SOne (\<lambda>c. c = dot)"

lemma spec_atom_dot: "dot_class cls \<Longrightarrow> spec_atom cls 46 = sdot"
  by (simp add: dot_class_def)

lemma elem_of_46: "elem_of cls a = (if a = 46 then EDot else ESat (spec_atom cls a))"
  by (simp add: elem_of_def)

lemma elem_atom_elem_of: "dot_class cls \<Longrightarrow> elem_atom (elem_of cls a) = spec_atom cls a"
  by (simp add: elem_of_46 spec_atom_dot del: spec_atom.simps)

lemma map_elem_atom: "dot_class cls \<Longrightarrow> map elem_atom (map (elem_of cls) as) = spec_tail cls as"
  by (simp add: spec_tail_def elem_atom_elem_of comp_def)

lemma elem_of_dot: "elem_of cls a = EDot \<longleftrightarrow> a = 46"
  by (simp add: elem_of_46)

definition runes_last :: "(rune \<Rightarrow> u8 \<Rightarrow> bool) \<Rightarrow> rune list \<Rightarrow> satom list" where
  "runes_last cls as = (if as \<noteq> [] \<and> last as = 46 then spec_tail cls (butlast as) @ [STrail]
     else spec_tail cls as)"

definition runes_place :: "(rune \<Rightarrow> u8 \<Rightarrow> bool) \<Rightarrow> rune list \<Rightarrow> satom list" where
  "runes_place cls as = (if as = [] \<or> as = [46] then [SStar2]
     else if hd as = 46 then SLead # runes_last cls (tl as) else runes_last cls as)"

lemma place_last_runes:
  assumes "dot_class cls"
  shows "place_last (map (elem_of cls) as) = runes_last cls as"
  by (cases as rule: rev_cases)
    (simp_all add: place_last_def runes_last_def elem_of_dot map_elem_atom [OF assms] spec_tail_def
      elem_atom_elem_of [OF assms] comp_def del: spec_atom.simps)

lemma place_runes:
  assumes "dot_class cls"
  shows "place (map (elem_of cls) as) = runes_place cls as"
proof -
  have "map (elem_of cls) as = [EDot] \<longleftrightarrow> as = [46]"
    by (cases as) (auto simp: elem_of_dot)
  moreover have "as \<noteq> [] \<Longrightarrow> hd (map (elem_of cls) as) = EDot \<longleftrightarrow> hd as = 46"
    by (simp add: hd_map elem_of_dot)
  ultimately show ?thesis
    by (simp add: place_def runes_place_def map_tl [symmetric] place_last_runes [OF assms])
qed

lemma runes_last_cong:
  assumes dc: "dot_class cls"
    and "same_lang (spec_tail cls p) (spec_tail cls q)" "p = [] \<longleftrightarrow> q = []"
    and "p \<noteq> [] \<Longrightarrow> last p = 46 \<longleftrightarrow> last q = 46"
  shows "same_lang (runes_last cls p) (runes_last cls q)"
proof (cases "p \<noteq> [] \<and> last p = 46")
  case True
  with assms have pq: "p = butlast p @ [46]" "q = butlast q @ [46]"
    by (metis append_butlast_last_id)+
  have "spec_tail cls (r @ [46]) = spec_tail cls r @ [sdot]" for r
    by (simp add: spec_atom_dot [OF dc] del: spec_atom.simps)
  with pq assms(2) have "same_lang (spec_tail cls (butlast p) @ [sdot]) (spec_tail cls (butlast q) @ [sdot])"
    by metis
  then have "same_lang (spec_tail cls (butlast p)) (spec_tail cls (butlast q))"
    by (rule same_lang_cancel_right)
  then show ?thesis using True assms by (simp add: runes_last_def same_lang_append)
next
  case False
  then show ?thesis using assms by (auto simp: runes_last_def)
qed

lemma runes_place_cong:
  assumes dc: "dot_class cls" and "parse_inv cls raw atoms l"
  shows "same_lang (runes_place cls atoms) (runes_place cls raw)"
proof -
  have s: "same_lang (spec_tail cls atoms) (spec_tail cls raw)" "atoms = [] \<longleftrightarrow> raw = []"
    "atoms = [46] \<longleftrightarrow> raw = [46]"
    "raw \<noteq> [] \<Longrightarrow> hd atoms = 46 \<longleftrightarrow> hd raw = 46"
    "raw \<noteq> [] \<Longrightarrow> last atoms = 46 \<longleftrightarrow> last raw = 46"
    using assms(2) by (simp_all add: parse_inv_def)
  show ?thesis
  proof (cases "raw \<noteq> [] \<and> raw \<noteq> [46] \<and> hd raw = 46")
    case True
    with s obtain p q where p: "atoms = 46 # p" "raw = 46 # q" "p \<noteq> []" "q \<noteq> []"
      by (metis list.collapse)
    have "same_lang (sdot # spec_tail cls p) (sdot # spec_tail cls q)"
      using s(1) unfolding p by (simp add: spec_atom_dot [OF dc] del: spec_atom.simps)
    then have "same_lang (spec_tail cls p) (spec_tail cls q)" by (rule same_lang_cancel_left)
    then have "same_lang (runes_last cls p) (runes_last cls q)"
      using s(5) p by (intro runes_last_cong [OF dc]) simp_all
    then show ?thesis using p by (simp add: runes_place_def same_lang_Cons)
  next
    case False
    with s runes_last_cong [OF dc, of atoms raw] show ?thesis by (auto simp: runes_place_def)
  qed
qed

section \<open>The trailing dots and the reversal of \<open>Add\<close>\<close>

lemma parse_dots_snoc: "atoms \<noteq> [] \<Longrightarrow> parse_dots atoms =
    (let x = (if hd atoms = 46 then 0 # tl atoms else atoms)
     in if last x = 46 then butlast x @ [0] else x)"
proof -
  assume a: "atoms \<noteq> []"
  define x where "x = (if hd atoms = 46 then 0 # tl atoms else atoms)"
  have x: "x \<noteq> []" "(if atoms ! 0 = unat dot then atoms[0 := magicDot] else atoms) = x"
    using a by (cases atoms; simp add: x_def)+
  then have "x ! (length x - 1) = last x" "x[length x - 1 := magicDot] = butlast x @ [0]"
    by (cases x rule: rev_cases; simp)+
  moreover have "parse_dots atoms =
      (if x ! (length x - 1) = unat dot then x[length x - 1 := magicDot] else x)"
    unfolding parse_dots_def Let_def x(2) using a by simp
  ultimately show ?thesis unfolding Let_def x_def [symmetric] by simp
qed

definition plain_runes :: "rune list \<Rightarrow> bool" where
  "plain_runes as \<longleftrightarrow> 0 \<notin> set as"

lemma spec_tail_flip:
  "plain_runes as \<Longrightarrow> map flip (spec_tail cls as) = spec_tail cls as"
  by (induction as) (auto simp: plain_runes_def)

lemma spec_tail_rev: "spec_tail cls (rev as) = rev (spec_tail cls as)"
  by (simp add: spec_tail_def rev_map)

lemma spec_atoms_rev:
  assumes dc: "dot_class cls" and pr: "plain_runes as"
  shows "spec_atoms cls (rev (parse_dots as)) = rev (map flip (runes_place cls as))"
proof -
  consider (nil) "as = []" | (one) a where "as = [a]" | (more) a r z where "as = a # r @ [z]"
    by (metis list.exhaust rev_exhaust)
  then show ?thesis
  proof cases
    case nil
    then show ?thesis by (simp add: parse_dots_def spec_atoms_def runes_place_def)
  next
    case one
    with pr show ?thesis
      by (simp add: parse_dots_def spec_atoms_def runes_place_def runes_last_def plain_runes_def)
  next
    case more
    have nz: "a \<noteq> 0" "z \<noteq> 0" "plain_runes r" using pr more by (auto simp: plain_runes_def)
    have pd: "parse_dots as = (if a = 46 then 0 else a) # r @ [if z = 46 then 0 else z]"
      using more by (simp add: parse_dots_snoc)
    have rp: "runes_place cls as = (if a = 46 then SLead else spec_atom cls a) # spec_tail cls r
       @ [if z = 46 then STrail else spec_atom cls z]"
      using more by (simp add: runes_place_def runes_last_def del: spec_atom.simps)
    have fl: "flip (spec_atom cls x) = spec_atom cls x" if "x \<noteq> 0" for x using that by simp
    show ?thesis unfolding pd rp
      using nz fl [of a] fl [of z]
      by (simp add: spec_atoms_def spec_tail_flip spec_tail_rev del: spec_atom.simps)
        (simp add: spec_atom.simps)
  qed
qed

section \<open>The second loop of \<open>Add\<close>\<close>

lemma spec_atoms_swap:
  assumes "same_lang [spec_atom cls x, spec_atom cls y] [spec_atom cls y, spec_atom cls x]"
    and "x \<noteq> 0" "y \<noteq> 0"
  shows "same_lang (spec_atoms cls (p @ x # y # q)) (spec_atoms cls (p @ y # x # q))"
proof (cases p)
  case Nil
  with assms same_lang_swap [OF assms(1), of "[]"] show ?thesis
    by (simp add: spec_atoms_def del: spec_atom.simps)
next
  case (Cons a r)
  with same_lang_swap [OF assms(1), of "spec_tail cls r"]
    same_lang_swap [OF assms(1), of "spec_atom cls a # spec_tail cls r"]
  show ?thesis by (simp add: spec_atoms_def same_lang_Cons del: spec_atom.simps)
qed

lemma swap_loop_lang:
  "i \<le> j \<Longrightarrow> j \<le> length as - 1 \<Longrightarrow>
     same_lang (spec_atoms cls (swap_loop as i j)) (spec_atoms cls as) \<and>
     set (swap_loop as i j) = set as \<and> length (swap_loop as i j) = length as"
proof (induction as i j rule: swap_loop.induct)
  case (1 as i j)
  show ?case
  proof (cases "i < j")
    case False
    then show ?thesis by (simp add: swap_loop.simps)
  next
    case True
    let ?sw = "as ! i = magicAsterisk \<and> as ! (i + 1) = magicQuestion
      \<or> as ! i = magicAsterisk2 \<and> as ! (i + 1) = magicUnderscore"
    define as' where "as' = (if ?sw then as[i := as ! (i + 1), i + 1 := as ! i] else as)"
    obtain p q where pq: "as = p @ as ! i # as ! (i + 1) # q" "length p = i"
    proof
      show "as = take i as @ as ! i # as ! (i + 1) # drop (i + 2) as"
        using True 1(3) by (simp add: Cons_nth_drop_Suc id_take_nth_drop [symmetric])
      show "length (take i as) = i" using True 1(3) by simp
    qed
    have sw: "as[i := as ! (i + 1), i + 1 := as ! i] = p @ as ! (i + 1) # as ! i # q"
    proof -
      obtain x y where xy: "as ! i = x" "as ! (i + 1) = y" by simp
      have "as = p @ x # y # q" using pq(1) unfolding xy .
      then show ?thesis unfolding xy using pq(2) by (simp add: list_update_append)
    qed
    have "same_lang (spec_atoms cls as') (spec_atoms cls as) \<and> set as' = set as \<and> length as' = length as"
    proof (cases ?sw)
      case sw': True
      then have "as ! i \<noteq> 0" "as ! (i + 1) \<noteq> 0" by auto
      moreover have "same_lang [spec_atom cls (as ! (i + 1)), spec_atom cls (as ! i)]
          [spec_atom cls (as ! i), spec_atom cls (as ! (i + 1))]"
        using sw' same_lang_sym [OF star_commutes(1)] same_lang_sym [OF star_commutes(2)] by auto
      ultimately have "same_lang (spec_atoms cls (p @ as ! (i + 1) # as ! i # q))
          (spec_atoms cls (p @ as ! i # as ! (i + 1) # q))" by (intro spec_atoms_swap)
      moreover have "as' = p @ as ! (i + 1) # as ! i # q" using sw' sw by (simp add: as'_def)
      moreover have "set (p @ as ! (i + 1) # as ! i # q) = set (p @ as ! i # as ! (i + 1) # q)" by auto
      ultimately show ?thesis using pq(1) by (metis length_append length_Cons)
    next
      case False
      then have "as' = as" unfolding as'_def by (rule if_not_P)
      then show ?thesis by simp
    qed
    moreover have "swap_loop as i j = swap_loop as' (i + 1) j"
      using True unfolding swap_loop.simps [of as i j] as'_def Let_def by (simp only: if_True)
    moreover have "same_lang (spec_atoms cls (swap_loop as' (i + 1) j)) (spec_atoms cls as') \<and>
       set (swap_loop as' (i + 1) j) = set as' \<and> length (swap_loop as' (i + 1) j) = length as'"
      using 1(1) [OF True as'_def] 1(3) True calculation(1) by simp
    ultimately show ?thesis using same_lang_trans by metis
  qed
qed

lemma compile_atoms_lang:
  "same_lang (spec_atoms cls (compile_atoms as)) (spec_atoms cls (rev as)) \<and>
     set (compile_atoms as) = set as \<and> length (compile_atoms as) = length as"
  using swap_loop_lang [of 0 "length as - 1" "rev as" cls] by (simp add: compile_atoms_def)

section \<open>One compiled pattern\<close>

lemma ms_dot_class: "ms_inv ms \<Longrightarrow> dot_class (atom_matches ms)"
  unfolding dot_class_def by (rule byte_atom_matches)

lemma parse_inv_init: "parse_inv cls [] [] 0"
  by (simp add: parse_inv_def is_star_def)

definition rune_known :: "'d MatchSet \<Rightarrow> rune \<Rightarrow> bool" where
  "rune_known ms a \<longleftrightarrow> a = 0 \<or> known ms a"

definition pattern_means :: "'d MatchSet \<Rightarrow> rune list \<Rightarrow> satom list \<Rightarrow> bool" where
  "pattern_means ms as P \<longleftrightarrow>
     as \<noteq> [] \<and> list_all (rune_known ms) as \<and>
     same_lang (spec_atoms (atom_matches ms) as) (rev (map flip P))"

lemma parse_dots_set: "set (parse_dots as) \<subseteq> insert 0 (set as) \<and> parse_dots as \<noteq> []"
proof (cases "as = []")
  case False
  define x where "x = (if hd as = 46 then 0 # tl as else as)"
  have "parse_dots as = (if last x = 46 then butlast x @ [0] else x)"
    using False by (simp add: parse_dots_snoc x_def Let_def)
  moreover have "set x \<subseteq> insert 0 (set as)" "x \<noteq> []"
    using False by (auto simp: x_def dest: list.set_sel(2))
  ultimately show ?thesis
    by (auto dest: in_set_butlastD)
qed (simp_all add: parse_dots_def)

lemma parse_means:
  assumes ms: "ms_inv ms" and pl: "plain_bytes bs" and p: "parse ms bs = Some (as, ms')"
  shows "ms_inv ms' \<and> ms_extends ms ms' \<and> next_of ms \<le> next_of ms' \<and>
    next_of ms' \<le> next_of ms + length bs \<and>
    pattern_means ms' (compile_atoms as) (place (read_elems bs))"
proof -
  obtain raw1 where l: "parse_loop ms bs [] 0 = Some (raw1, ms')" and as: "as = parse_dots raw1"
    using p by (auto simp: parse_def split: option.split_asm)
  from parse_loop_ok [OF ms pl l] obtain raw where ok: "ms_inv ms'" "ms_extends ms ms'"
      "next_of ms \<le> next_of ms'" "next_of ms' \<le> next_of ms + length bs"
    and k: "list_all (known ms') raw" and rd: "read_elems bs = map (elem_of (atom_matches ms')) raw"
    and inv: "(\<exists>l'. parse_inv (atom_matches ms') raw raw1 l') \<and> set raw1 \<subseteq> set raw"
    unfolding parse_ok_def using parse_inv_init by (metis append_Nil empty_set sup_bot_left)
  note dc = ms_dot_class [OF ok(1)]
  let ?cls = "atom_matches ms'"
  have pr: "plain_runes raw1" using inv k by (auto simp: plain_runes_def known_def atom_known_def list_all_iff)
  have "same_lang (spec_atoms ?cls (compile_atoms as)) (spec_atoms ?cls (rev as))"
    using compile_atoms_lang by blast
  also have "spec_atoms ?cls (rev as) = rev (map flip (runes_place ?cls raw1))"
    unfolding as by (rule spec_atoms_rev [OF dc pr])
  also have "same_lang \<dots> (rev (map flip (runes_place ?cls raw)))"
  proof -
    have "same_lang (runes_place ?cls raw1) (runes_place ?cls raw)"
      using inv runes_place_cong [OF dc] by blast
    then show ?thesis unfolding same_lang_def using in_lang_rev by (metis rev_rev_ident)
  qed
  also have "runes_place ?cls raw = place (read_elems bs)" unfolding rd by (rule place_runes [OF dc, symmetric])
  finally have lang: "same_lang (spec_atoms ?cls (compile_atoms as)) (rev (map flip (place (read_elems bs))))" .
  have "set (compile_atoms as) \<subseteq> insert 0 (set raw)" "compile_atoms as \<noteq> []"
    using compile_atoms_lang [of ?cls as] parse_dots_set [of raw1] inv unfolding as by fastforce+
  then have "list_all (rune_known ms') (compile_atoms as)" using k by (auto simp: rune_known_def list_all_iff)
  with lang ok \<open>compile_atoms as \<noteq> []\<close> show ?thesis by (simp add: pattern_means_def)
qed

lemma spec_atom_extends:
  "ms_extends ms ms' \<Longrightarrow> rune_known ms a \<Longrightarrow> spec_atom (atom_matches ms') a = spec_atom (atom_matches ms) a"
  by (auto simp: ms_extends_def rune_known_def known_def)

lemma pattern_means_extends:
  assumes "pattern_means ms as P" "ms_extends ms ms'" "next_of ms \<le> next_of ms'"
  shows "pattern_means ms' as P"
proof -
  have "list_all (rune_known ms') as"
    using assms known_mono unfolding pattern_means_def rune_known_def list_all_iff by blast
  moreover have "spec_tail (atom_matches ms') q = spec_tail (atom_matches ms) q"
    if "set q \<subseteq> set as" for q
    using that assms spec_atom_extends unfolding pattern_means_def spec_tail_def list_all_iff
    by (intro map_cong refl) blast
  then have "spec_atoms (atom_matches ms') as = spec_atoms (atom_matches ms) as"
    unfolding spec_atoms_def by (cases as) (auto simp del: spec_tail_simps)
  ultimately show ?thesis using assms(1) by (simp add: pattern_means_def)
qed

lemma rune_known_valid: "rune_known ms a \<Longrightarrow> next_of ms \<le> 0xD800 \<Longrightarrow> valid_rune a"
  by (auto simp: rune_known_def known_def valid_rune_def)

text \<open>The run of the matcher on one compiled pattern.\<close>

lemma match_one:
  assumes m: "pattern_means ms as P" and n: "next_of ms \<le> 0xD800"
    and ok: "wf_atoms as" "src_ok as (rev s)" and s: "s \<noteq> []"
  shows "set (match_positions ms (rev s) [0..<length (rev s)] [mk_pattern d as] acc) =
    set acc \<union> (if in_lang P s then {d} else {})"
proof -
  have "good_state as" using m rune_known_valid [OF _ n]
    by (auto simp: pattern_means_def good_state_def list_all_iff)
  then have "set (match_positions ms (rev s) [0..<length (rev s)] (map (mk_pattern d) [as]) acc) =
      set acc \<union> (if accepts (atom_matches ms) as True (rev s) then {d} else {})"
    using match_positions_refines [of "[as]" 0 "rev s" ms d acc] by simp
  moreover have "accepts (atom_matches ms) as True (rev s) \<longleftrightarrow> in_lang (spec_atoms (atom_matches ms) as) (rev s)"
    using ok s by (intro accepts_language) simp_all
  moreover have "\<dots> \<longleftrightarrow> in_lang P s"
    using m in_lang_rev [of P s] by (simp add: pattern_means_def same_lang_def)
  ultimately show ?thesis by simp
qed

section \<open>A set of patterns\<close>

text \<open>Building a set as its clients do, one \<open>Add\<close> after the other.\<close>

fun add_all :: "'d MatchSet \<Rightarrow> (string \<times> 'd) list \<Rightarrow> 'd MatchSet option" where
  "add_all ms [] = Some ms"
| "add_all ms ((patt, d) # es) =
     (case ms_Add ms patt d of None \<Rightarrow> None | Some ms' \<Rightarrow> add_all ms' es)"

text \<open>Every pattern compiles to atoms on which the matcher is exact for this source.\<close>

fun exact_on :: "'d MatchSet \<Rightarrow> (string \<times> 'd) list \<Rightarrow> string \<Rightarrow> bool" where
  "exact_on ms [] src = True"
| "exact_on ms ((patt, d) # es) src =
     (case parse ms (bytes_of patt) of
        None \<Rightarrow> False
      | Some (as, _) \<Rightarrow> wf_atoms (compile_atoms as) \<and> src_ok (compile_atoms as) (rev (bytes_of src)) \<and>
          (case ms_Add ms patt d of None \<Rightarrow> False | Some ms' \<Rightarrow> exact_on ms' es src))"

definition entries_ok :: "(string \<times> 'd) list \<Rightarrow> bool" where
  "entries_ok es \<longleftrightarrow> list_all (\<lambda>(patt, d). plain_bytes (bytes_of patt)) es \<and>
     sum_list (map (\<lambda>(patt, d). length (bytes_of patt)) es) \<le> 55040"

definition set_means :: "bytes \<Rightarrow> 'd MatchSet \<Rightarrow> (satom list \<times> 'd) list \<Rightarrow> bool" where
  "set_means s ms Ps \<longleftrightarrow> ms_inv ms \<and>
     list_all2 (\<lambda>pat (P, d). \<exists>as. pat = mk_pattern d as \<and> pattern_means ms as P \<and>
       wf_atoms as \<and> src_ok as (rev s)) (ms_patterns ms) Ps"

lemma set_means_Add:
  assumes sm: "set_means s ms Ps" and pl: "plain_bytes (bytes_of patt)"
    and p: "parse ms (bytes_of patt) = Some (as, ms1)" and ok: "wf_atoms (compile_atoms as)"
      "src_ok (compile_atoms as) (rev s)"
    and a: "ms_Add ms patt d = Some ms'"
  shows "set_means s ms' (Ps @ [(spec_pattern (bytes_of patt), d)]) \<and>
    next_of ms' \<le> next_of ms + length (bytes_of patt)"
proof -
  have ms': "ms' = ms1\<lparr>ms_patterns := ms_patterns ms1 @ [mk_pattern d (compile_atoms as)]\<rparr>"
    using a p by (simp add: ms_Add_def mk_pattern_def)
  have pm: "ms_inv ms1" "ms_extends ms ms1" "next_of ms \<le> next_of ms1"
    "next_of ms1 \<le> next_of ms + length (bytes_of patt)"
    "pattern_means ms1 (compile_atoms as) (spec_pattern (bytes_of patt))"
    using parse_means [OF _ pl p] sm by (simp_all add: set_means_def spec_pattern_def)
  have same: "ms_inv ms'" "next_of ms' = next_of ms1" "pattern_means ms' = pattern_means ms1"
  proof -
    have am: "atom_matches ms' = atom_matches ms1" by (simp add: ms' atom_matches_def fun_eq_iff)
    show "ms_inv ms'" "next_of ms' = next_of ms1" using pm(1) by (simp_all add: ms' ms_inv_def next_of_def)
    have "rune_known ms' = rune_known ms1"
      by (simp add: ms' rune_known_def known_def atom_known_def next_of_def fun_eq_iff)
    with am show "pattern_means ms' = pattern_means ms1" by (intro ext) (simp only: pattern_means_def)
  qed
  have "ms_patterns ms1 = ms_patterns ms" using pm(2) by (simp add: ms_extends_def)
  moreover have "list_all2 (\<lambda>pat (P, d). \<exists>as. pat = mk_pattern d as \<and> pattern_means ms1 as P \<and>
       wf_atoms as \<and> src_ok as (rev s)) (ms_patterns ms) Ps"
    using sm pattern_means_extends [OF _ pm(2,3)] unfolding set_means_def
    by (auto elim!: list_all2_mono)
  ultimately have "set_means s ms' (Ps @ [(spec_pattern (bytes_of patt), d)])"
    unfolding set_means_def same(3) using same(1) pm(5) ok
    by (auto simp: ms' intro!: list_all2_appendI)
  with pm(4) same(2) show ?thesis by simp
qed

lemma add_all_means:
  assumes "set_means (bytes_of src) ms Ps" "list_all (\<lambda>(patt, d). plain_bytes (bytes_of patt)) es"
    and "exact_on ms es src" "add_all ms es = Some ms'"
  shows "set_means (bytes_of src) ms' (Ps @ map (\<lambda>(patt, d). (spec_pattern (bytes_of patt), d)) es) \<and>
    next_of ms' \<le> next_of ms + sum_list (map (\<lambda>(patt, d). length (bytes_of patt)) es)"
  using assms
proof (induction es arbitrary: ms Ps)
  case Nil
  then show ?case by simp
next
  case (Cons e es)
  obtain patt d where e: "e = (patt, d)" by (cases e)
  obtain ms1 where a: "ms_Add ms patt d = Some ms1" and r: "add_all ms1 es = Some ms'"
    using Cons.prems(4) by (auto simp: e split: option.split_asm)
  obtain as ms0 where p: "parse ms (bytes_of patt) = Some (as, ms0)"
    using a by (auto simp: ms_Add_def split: option.split_asm)
  have ok: "wf_atoms (compile_atoms as)" "src_ok (compile_atoms as) (rev (bytes_of src))"
    "exact_on ms1 es src" using Cons.prems(3) p a by (simp_all add: e)
  have "plain_bytes (bytes_of patt)" using Cons.prems(2) by (simp add: e)
  from set_means_Add [OF Cons.prems(1) this p ok(1,2) a] Cons.IH [OF _ _ ok(3) r] Cons.prems(2)
  show ?case by (fastforce simp: e)
qed

lemma match_patterns_means:
  assumes "list_all2 (\<lambda>pat (P, d). \<exists>as. pat = mk_pattern d as \<and> pattern_means ms as P \<and>
       wf_atoms as \<and> src_ok as (rev s)) pats Ps" "next_of ms \<le> 0xD800" "s \<noteq> []"
  shows "set (match_patterns ms (rev s) pats acc) = set acc \<union> {d. \<exists>P. (P, d) \<in> set Ps \<and> in_lang P s}"
  using assms(1)
proof (induction pats Ps arbitrary: acc rule: list_all2_induct)
  case Nil
  then show ?case by simp
next
  case (Cons pat pats Pd Ps)
  obtain P d where Pd: "Pd = (P, d)" by (cases Pd)
  with Cons obtain as where "pat = mk_pattern d as" "pattern_means ms as P" "wf_atoms as"
    "src_ok as (rev s)" by auto
  from match_one [OF this(2) assms(2) this(3,4) assms(3), of d acc] this(1) Cons.IH
  show ?case by (auto simp: Pd)
qed

lemma MatchAll_add_all:
  assumes "entries_ok es" "exact_on ms_empty es src" "add_all ms_empty es = Some ms" "src \<noteq> []"
  shows "set (ms_MatchAll ms src) =
    {d. \<exists>patt. (patt, d) \<in> set es \<and> in_lang (spec_pattern (bytes_of patt)) (bytes_of src)}"
proof -
  have "set_means (bytes_of src) ms_empty []" by (simp add: set_means_def) (simp add: ms_empty_def)
  from add_all_means [OF this _ assms(2,3)] assms(1)
  have m: "set_means (bytes_of src) ms (map (\<lambda>(patt, d). (spec_pattern (bytes_of patt), d)) es)"
    and n: "next_of ms \<le> next_of (ms_empty :: 'a MatchSet) + 55040"
    by (auto simp: entries_ok_def)
  have "next_of (ms_empty :: 'a MatchSet) = 256" by (simp add: next_of_def ms_empty_def)
  with n have n': "next_of ms \<le> 0xD800" by simp
  have s: "bytes_of src \<noteq> []" using assms(4) by (simp add: bytes_of_def)
  have "set (match_patterns ms (rev (bytes_of src)) (ms_patterns ms) []) =
      {d. \<exists>P. (P, d) \<in> set (map (\<lambda>(patt, d). (spec_pattern (bytes_of patt), d)) es) \<and> in_lang P (bytes_of src)}"
    using match_patterns_means [OF conjunct2 [OF m [unfolded set_means_def]] n' s, of "[]"] by simp
  also have "\<dots> = {d. \<exists>patt. (patt, d) \<in> set es \<and> in_lang (spec_pattern (bytes_of patt)) (bytes_of src)}"
    by force
  finally show ?thesis
    by (cases "ms_patterns ms") (simp_all add: ms_MatchAll_def ms_Match_def ms_match_def ms_Empty_def
        del: match_patterns.simps(2))
qed

section \<open>Termination of \<open>Add\<close>\<close>

function groups_safe :: "bytes \<Rightarrow> bool" where
  "groups_safe [] = True"
| "groups_safe (b # bs) =
     (if b = lbracket then group_safe (group_body bs) \<and> groups_safe (group_rest bs)
      else groups_safe bs)"
  by pat_completeness auto
termination
  by (relation "measure length") (auto simp: less_Suc_eq_le group_rest_length)

lemma readAtom_safe:
  "case readAtom ms b bs of
     None \<Rightarrow> \<not> groups_safe (b # bs)
   | Some (a, left, ms') \<Rightarrow> groups_safe (b # bs) \<longleftrightarrow> groups_safe left"
proof (cases "b = lbracket")
  case True
  show ?thesis
  proof (cases "charSetFromGroup bs")
    case None
    then show ?thesis using True charSetFromGroup_NoneD by (simp add: readAtom_def)
  next
    case (Some x)
    obtain cs left where x: "x = (cs, left)" by (cases x)
    note D = charSetFromGroup_SomeD [OF Some [unfolded x]]
    have "groups_safe (b # bs) \<longleftrightarrow> groups_safe left" using True D(1,2) by simp
    then show ?thesis using True Some
      by (simp add: readAtom_def x Let_def split: option.split del: groups_safe.simps)
  qed
next
  case False
  then show ?thesis by (auto simp: readAtom_def split: list.split)
qed

lemma parse_loop_safe: "parse_loop ms bs atoms l = None \<longleftrightarrow> \<not> groups_safe bs"
proof (induction ms bs atoms l rule: parse_loop.induct)
  case (2 ms b bs atoms l)
  show ?case
  proof (cases "readAtom ms b bs")
    case None
    then show ?thesis using readAtom_safe [of b bs ms] by simp
  next
    case (Some r)
    obtain a left ms' where r: "r = (a, left, ms')" by (cases r)
    obtain x y where st: "parse_step atoms l a = (x, y)" by fastforce
    have "parse_loop ms (b # bs) atoms l = parse_loop ms' left x y" using Some r st by simp
    moreover have "groups_safe (b # bs) \<longleftrightarrow> groups_safe left"
      using readAtom_safe [of b bs ms] Some r by simp
    moreover have "parse_loop ms' left x y = None \<longleftrightarrow> \<not> groups_safe left"
      using 2 [OF Some [unfolded r] refl refl st [symmetric] refl] .
    ultimately show ?thesis by metis
  qed
qed simp

text \<open>
  C2. \<open>Add\<close> returns exactly when no character group of the pattern has a range that ends in byte 255.
\<close>
theorem Add_terminates: "ms_Add ms patt d \<noteq> None \<longleftrightarrow> groups_safe (bytes_of patt)"
  using parse_loop_safe [of ms "bytes_of patt" "[]" 0]
  by (auto simp: ms_Add_def parse_def split: option.split)

text \<open>
  C1. A set built by \<open>Add\<close> reports for a source exactly the data of the patterns whose
  language holds the source. Patterns are free of the bytes 0 to 4, the total of
  their lengths keeps group atoms below the surrogates, and \<open>exact_on\<close> leaves out the
  shapes on which the matcher departs from its language.
\<close>
theorem MatchAll_correct:
  assumes "entries_ok es" and "exact_on ms_empty es src"
    and "add_all ms_empty es = Some ms" and "src \<noteq> []"
  shows "set (ms_MatchAll ms src) =
    {d. \<exists>patt. (patt, d) \<in> set es \<and> in_lang (spec_pattern (bytes_of patt)) (bytes_of src)}"
  using assms by (rule MatchAll_add_all)



definition example_set :: "(string \<times> nat) list" where
  "example_set = [(''*.u?'', 1), (''.uk'', 2), (''co.'', 3), (''*'', 4)]"

lemma example_parse:
  "parse ms (bytes_of ''*.u?'') = Some ([1, 46, 117, 3], ms)"
  "parse ms (bytes_of ''.uk'') = Some ([0, 117, 107], ms)"
  "parse ms (bytes_of ''co.'') = Some ([99, 111, 0], ms)"
  "parse ms (bytes_of ''*'') = Some ([1], ms)"
  by (simp_all add: bytes_of_def parse_def readAtom_def parse_step_def parse_dots_def)

lemma example_compile:
  "compile_atoms [1, 46, 117, 3] = [3, 117, 46, 1]" "compile_atoms [0, 117, 107] = [107, 117, 0]"
  "compile_atoms [99, 111, 0] = [0, 111, 99]" "compile_atoms [1] = [1]"
  by (simp_all add: compile_atoms_def swap_loop.simps)

lemma example_exact:
  "exact_on ms example_set ''co.uk''" "\<exists>ms'. add_all ms example_set = Some ms'"
  by (simp_all add: example_set_def example_parse example_compile ms_Add_def wf_atoms_def src_ok_def
      is_star_def ends_star_dot_def suffix_to_prefix del: encode_runes_simps One_nat_def)


lemma example_spec:
  "spec_pattern (bytes_of ''*.u?'') = [SStar, SOne (\<lambda>c. c = 46), SOne (\<lambda>c. c = 117), SOne (\<lambda>c. \<not> is_delim c)]"
  "spec_pattern (bytes_of ''.uk'') = [SLead, SOne (\<lambda>c. c = 117), SOne (\<lambda>c. c = 107)]"
  "spec_pattern (bytes_of ''co.'') = [SOne (\<lambda>c. c = 99), SOne (\<lambda>c. c = 111), STrail]"
  "spec_pattern (bytes_of ''*'') = [SStar]"
  by (simp_all add: bytes_of_def spec_pattern_def place_def place_last_def)

lemma example_src: "bytes_of ''co.uk'' = [99, 111, 46, 117, 107]" by (simp add: bytes_of_def)


lemma example_lang:
  "in_lang [SStar, SOne (\<lambda>c. c = 46), SOne (\<lambda>c. c = 117), SOne (\<lambda>c. \<not> is_delim c)] [99, 111, 46, 117, 107]"
  "in_lang [SLead, SOne (\<lambda>c. c = 117), SOne (\<lambda>c. c = 107)] [99, 111, 46, 117, 107]"
  "in_lang [SOne (\<lambda>c. c = 99), SOne (\<lambda>c. c = 111), STrail] [99, 111, 46, 117, 107]"
  "\<not> in_lang [SStar] [99, 111, 46, 117, 107]"
proof -
  show "in_lang [SLead, SOne (\<lambda>c. c = 117), SOne (\<lambda>c. c = 107)] [99, 111, 46, 117, 107]"
    unfolding in_lang_SLead
    by (intro disjI2 exI [of _ 2]) (simp add: in_lang_SOne_Cons del: in_lang.simps(2) seg_ok.simps)
qed (simp_all add: in_lang_SStar_Cons in_lang_SOne_Cons in_lang_STrail in_lang_SStar_single is_delim_def
    del: in_lang.simps(2) seg_ok.simps)

lemma example_pick:
  assumes "Q a" "Q b" "Q c" "\<not> Q e"
  shows "{x. \<exists>p. (p, x) \<in> set [(a, 1), (b, 2), (c, 3), (e, 4)] \<and> Q p} = {1, 2, 3 :: nat}"
  using assms by auto

lemma MatchAll_correct_witness:
  "\<exists>ms. add_all ms_empty example_set = Some ms \<and> set (ms_MatchAll ms ''co.uk'') = {1, 2, 3}"
proof -
  obtain ms where ms: "add_all ms_empty example_set = Some ms" using example_exact(2) by blast
  have "entries_ok example_set" by (simp add: entries_ok_def example_set_def bytes_of_def)
  then have "set (ms_MatchAll ms ''co.uk'') = {d. \<exists>patt. (patt, d) \<in> set example_set \<and>
      in_lang (spec_pattern (bytes_of patt)) (bytes_of ''co.uk'')}"
    by (rule MatchAll_correct [OF _ example_exact(1) ms]) simp
  also have "\<dots> = {1, 2, 3}"
    unfolding example_set_def by (rule example_pick) (simp_all only: example_spec example_src example_lang simp_thms)
  finally show ?thesis using ms by blast
qed

section \<open>Where the matcher departs from the language\<close>

text \<open>One pattern, run as the automaton runs it.\<close>

lemma MatchAll_single:
  fixes d :: 'd
  assumes "parse (ms_empty :: 'd MatchSet) (bytes_of patt) = Some (as, ms_empty)"
    and "as \<noteq> []" "valid_runes (compile_atoms as)"
  obtains ms where "ms_Add ms_empty patt d = Some ms"
    and "set (ms_MatchAll ms src) = (if src \<noteq> [] \<and>
      accepts (\<lambda>a b. a = unat b) (compile_atoms as) True (rev (bytes_of src)) then {d} else {})"
proof
  let ?ms = "ms_empty\<lparr>ms_patterns := [mk_pattern d (compile_atoms as)]\<rparr>"
  show "ms_Add ms_empty patt d = Some ?ms"
  proof -
    have "ms_patterns ms_empty = ([] :: 'd pattern list)" by (simp add: ms_empty_def)
    then show ?thesis using assms(1) by (simp add: ms_Add_def mk_pattern_def)
  qed
  have cls: "atom_matches ?ms = (\<lambda>a b. a = unat b)"
    using cs_set_empty by (auto simp: atom_matches_def ms_empty_def cs_set_def fun_eq_iff)
  have "compile_atoms as \<noteq> []" using compile_atoms_lang [of undefined as] assms(2) by auto
  then have "list_all good_state [compile_atoms as]" using assms(3) by (simp add: good_state_def)
  from match_positions_refines [OF this, of 0 "rev (bytes_of src)" ?ms d "[]"] cls
  show "set (ms_MatchAll ?ms src) = (if src \<noteq> [] \<and>
      accepts (\<lambda>a b. a = unat b) (compile_atoms as) True (rev (bytes_of src)) then {d} else {})"
    by (auto simp: ms_MatchAll_def ms_Match_def ms_match_def ms_Empty_def bytes_of_def)
qed

text \<open>\<open>**?*\<close>: two stars become neighbours after the reversal, and the end-of-input test has no
  case for them. The language holds every non-empty source; ``a'' is not reported.\<close>

lemma adjacent_stars_missed:
  "\<exists>ms. ms_Add ms_empty ''**?*'' () = Some ms \<and> ms_MatchAll ms ''a'' = [] \<and>
     in_lang (spec_pattern (bytes_of ''**?*'')) (bytes_of ''a'')"
proof -
  have p: "parse ms_empty (bytes_of ''**?*'') = Some ([2, 3, 1], ms_empty)"
    by (simp add: bytes_of_def parse_def readAtom_def parse_step_def parse_dots_def)
  have c: "compile_atoms [2, 3, 1] = [3, 1, 2]" by (simp add: compile_atoms_def swap_loop.simps)
  have "valid_runes (compile_atoms [2, 3, 1])" unfolding c by (simp add: valid_rune_def)
  from MatchAll_single [OF p _ this, of "()" "''a''"] obtain ms where
    ms: "ms_Add ms_empty ''**?*'' () = Some ms"
    and r: "set (ms_MatchAll ms ''a'') = (if ''a'' \<noteq> [] \<and>
      accepts (\<lambda>a b. a = unat b) [3, 1, 2] True (rev (bytes_of ''a'')) then {()} else {})"
    unfolding c by auto
  have "\<not> accepts (\<lambda>a b. a = unat b) [3, 1, 2] True (rev (bytes_of ''a''))"
    by (simp add: bytes_of_def accepts_Cons is_delim_def take_step_def ends_well_runes_def)
  with r have "ms_MatchAll ms ''a'' = []" by simp
  moreover have "in_lang (spec_pattern (bytes_of ''**?*'')) (bytes_of ''a'')"
    by (simp add: bytes_of_def spec_pattern_def place_def place_last_def in_lang_SStar2_Cons
        in_lang_SOne_Cons is_delim_def in_lang_SStar_single del: in_lang.simps(2))
  ultimately show ?thesis using ms by blast
qed

lemma in_lang_SLead_no_dot: "dot \<notin> set s \<Longrightarrow> in_lang (SLead # p) s \<longleftrightarrow> in_lang p s"
  unfolding in_lang_SLead by (metis nth_mem)

text \<open>\<open>.*a\<close>: the star next to the leading dot may take a colon.\<close>

lemma star_takes_colon:
  "\<exists>ms. ms_Add ms_empty ''.*a'' () = Some ms \<and> ms_MatchAll ms ''b:xa'' \<noteq> [] \<and>
     \<not> in_lang (spec_pattern (bytes_of ''.*a'')) (bytes_of ''b:xa'')"
proof -
  have p: "parse ms_empty (bytes_of ''.*a'') = Some ([0, 1, 97], ms_empty)"
    by (simp add: bytes_of_def parse_def readAtom_def parse_step_def parse_dots_def)
  have c: "compile_atoms [0, 1, 97] = [97, 1, 0]" by (simp add: compile_atoms_def swap_loop.simps)
  have "valid_runes (compile_atoms [0, 1, 97])" unfolding c by (simp add: valid_rune_def)
  from MatchAll_single [OF p _ this, of "()" "''b:xa''"] obtain ms where
    ms: "ms_Add ms_empty ''.*a'' () = Some ms"
    and r: "set (ms_MatchAll ms ''b:xa'') = (if ''b:xa'' \<noteq> [] \<and>
      accepts (\<lambda>a b. a = unat b) [97, 1, 0] True (rev (bytes_of ''b:xa'')) then {()} else {})"
    unfolding c by auto
  have "accepts (\<lambda>a b. a = unat b) [97, 1, 0] True (rev (bytes_of ''b:xa''))"
    by (simp add: bytes_of_def accepts_Cons is_delim_def take_step_def ends_well_runes_def)
  with r have "ms_MatchAll ms ''b:xa'' \<noteq> []" by auto
  moreover have "\<not> in_lang (spec_pattern (bytes_of ''.*a'')) (bytes_of ''b:xa'')"
  proof -
    have "spec_pattern (bytes_of ''.*a'') = [SLead, SStar, SOne (\<lambda>c. c = 97)]"
      by (simp add: bytes_of_def spec_pattern_def place_def place_last_def)
    moreover have "bytes_of ''b:xa'' = [98, 58, 120, 97]" by (simp add: bytes_of_def)
    ultimately show ?thesis
      by (simp add: in_lang_SLead_no_dot in_lang_SStar_Cons in_lang_SOne_Cons is_delim_def
          del: in_lang.simps(2))
  qed
  ultimately show ?thesis using ms by blast
qed

end
