(* ===== verification/Range_Set.thy ===== *)
theory Range_Set
  imports Prelude
begin

text \<open>
  \<open>internal/netiputil/rangeset.go\<close>: a sorted list of half-open ranges, over any linear order
  (theory Addr_Range instantiates it with the addresses of \<open>net/netip\<close>). \<open>AddRange\<close> finds the
  ranges a new one touches with two binary searches and melts them; \<open>Contains\<close> is one more.
\<close>

section \<open>Operations\<close>

record 'a AddrRange =
  Low :: 'a
  High :: 'a

type_synonym 'a AddrRangeSet = "'a AddrRange list"

abbreviation mk_range :: "'a \<Rightarrow> 'a \<Rightarrow> 'a AddrRange" where
  "mk_range lo hi \<equiv> \<lparr>Low = lo, High = hi\<rparr>"

definition AddRange :: "'a::linorder AddrRangeSet \<Rightarrow> 'a \<Rightarrow> 'a \<Rightarrow> 'a AddrRangeSet" where
  "AddRange s lo hi =
     (let i = sort_Search (length s) (\<lambda>i. Low (s ! i) > lo);
          off = (if i > 0 then i - 1 else 0);
          t = drop off s;
          j = off + sort_Search (length t) (\<lambda>i. High (t ! i) > hi)
      in if i > j then s
         else
           let (lo, i) = (if i > 0 \<and> High (s ! (i - 1)) \<ge> lo then (Low (s ! (i - 1)), i - 1) else (lo, i));
               (hi, j) = (if j < length s \<and> Low (s ! j) \<le> hi then (High (s ! j), j + 1) else (hi, j))
           in if i = j
              then (if lo < hi then take i s @ [mk_range lo hi] @ drop i s else s)
              else take (i + 1) (s[i := mk_range lo hi]) @ drop j s)"

definition Add :: "'a::linorder AddrRangeSet \<Rightarrow> 'a AddrRange \<Rightarrow> 'a AddrRangeSet" where
  "Add x r = AddRange x (Low r) (High r)"

definition Contains :: "'a::linorder AddrRangeSet \<Rightarrow> 'a \<Rightarrow> bool" where
  "Contains x v =
     (let i = sort_Search (length x) (\<lambda>i. High (x ! i) > v)
      in i < length x \<and> Low (x ! i) \<le> v)"

section \<open>Invariant and meaning\<close>

definition rs_sorted :: "'a::linorder AddrRangeSet \<Rightarrow> bool" where
  "rs_sorted s \<longleftrightarrow> sorted_wrt (\<lambda>a b. High a < Low b) s"

definition rs_inv :: "'a::linorder AddrRangeSet \<Rightarrow> bool" where
  "rs_inv s \<longleftrightarrow> rs_sorted s \<and> (\<forall>r \<in> set s. Low r < High r)"

definition range_of :: "'a::linorder AddrRange \<Rightarrow> 'a set" where
  "range_of r = {Low r..<High r}"

definition rs_set :: "'a::linorder AddrRangeSet \<Rightarrow> 'a set" where
  "rs_set s = (\<Union>r \<in> set s. range_of r)"

lemma rs_inv_Nil [simp, inv_intros]: "rs_inv []"
  by (simp add: rs_inv_def rs_sorted_def)

lemma rs_set_simps [simp]: "rs_set [] = {}" "rs_set (r # s) = range_of r \<union> rs_set s"
  "rs_set (s @ t) = rs_set s \<union> rs_set t"
  by (simp_all add: rs_set_def)

lemma rs_inv_nth: "rs_inv s \<Longrightarrow> k < length s \<Longrightarrow> Low (s ! k) < High (s ! k)"
  by (simp add: rs_inv_def)

lemma rs_inv_gap: "rs_inv s \<Longrightarrow> k < l \<Longrightarrow> l < length s \<Longrightarrow> High (s ! k) < Low (s ! l)"
  using sorted_wrt_nth_less [of "\<lambda>a b. High a < Low b" s k l] by (simp add: rs_inv_def rs_sorted_def)

lemma rs_inv_mono:
  assumes "rs_inv s" "k \<le> l" "l < length s"
  shows "Low (s ! k) \<le> Low (s ! l)" "High (s ! k) \<le> High (s ! l)"
proof -
  have "k = l \<or> Low (s ! k) < Low (s ! l) \<and> High (s ! k) < High (s ! l)"
    using assms rs_inv_gap [of s k l] rs_inv_nth [of s k] rs_inv_nth [of s l]
    by (cases "k = l") (auto intro: less_trans)
  then show "Low (s ! k) \<le> Low (s ! l)" "High (s ! k) \<le> High (s ! l)" by auto
qed

text \<open>Replacing a block of ranges by one that covers it.\<close>

lemma rs_splice:
  assumes inv: "rs_inv (P @ M @ Q)" and lt: "lo < hi"
    and P: "\<And>r. r \<in> set P \<Longrightarrow> High r < lo" and Q: "\<And>r. r \<in> set Q \<Longrightarrow> hi < Low r"
  shows "rs_inv (P @ mk_range lo hi # Q)"
  using assms by (auto simp: rs_inv_def rs_sorted_def sorted_wrt_append)

lemma rs_splice_set:
  assumes "rs_set M \<union> A = {lo..<hi}"
  shows "rs_set (P @ mk_range lo hi # Q) = rs_set (P @ M @ Q) \<union> A"
  using assms by (auto simp: range_of_def)

lemma rs_set_block:
  assumes "rs_inv M" "M \<noteq> []"
  shows "rs_set M \<subseteq> {Low (hd M)..<High (last M)}"
proof
  fix x assume "x \<in> rs_set M"
  then obtain k where k: "k < length M" "Low (M ! k) \<le> x" "x < High (M ! k)"
    by (auto simp: rs_set_def range_of_def in_set_conv_nth)
  have "Low (M ! 0) \<le> Low (M ! k)" "High (M ! k) \<le> High (M ! (length M - 1))"
    using rs_inv_mono [OF assms(1)] k(1) by auto
  with k assms(2) show "x \<in> {Low (hd M)..<High (last M)}"
    by (auto simp: hd_conv_nth last_conv_nth)
qed

lemma rs_inv_append: "rs_inv (P @ Q) \<Longrightarrow> rs_inv P \<and> rs_inv Q"
  by (auto simp: rs_inv_def rs_sorted_def sorted_wrt_append)

lemma Contains_iff:
  assumes "rs_inv s"
  shows "Contains s v \<longleftrightarrow> v \<in> rs_set s"
proof -
  let ?f = "\<lambda>i. High (s ! i) > v"
  define i where "i = sort_Search (length s) ?f"
  have "monotone_below (length s) ?f"
    using rs_inv_mono(2) [OF assms] by (auto simp: monotone_below_def intro: less_le_trans)
  then have i: "\<And>k. k < length s \<Longrightarrow> v < High (s ! k) \<longleftrightarrow> i \<le> k"
    unfolding i_def by (rule sort_Search_boundary)
  have "v \<in> rs_set s \<longleftrightarrow> (\<exists>k < length s. Low (s ! k) \<le> v \<and> v < High (s ! k))"
    by (simp add: rs_set_def range_of_def) (metis in_set_conv_nth)
  also have "\<dots> \<longleftrightarrow> i < length s \<and> Low (s ! i) \<le> v"
    using i rs_inv_mono(1) [OF assms] by (meson le_less_trans order_refl order_trans)
  finally show ?thesis by (simp add: Contains_def i_def Let_def)
qed

section \<open>\<open>AddRange\<close>\<close>

text \<open>What the two searches of \<open>AddRange\<close> find.\<close>

definition cut_points :: "'a::linorder AddrRangeSet \<Rightarrow> 'a \<Rightarrow> 'a \<Rightarrow> nat \<Rightarrow> nat \<Rightarrow> bool" where
  "cut_points s lo hi i j \<longleftrightarrow>
     i \<le> length s \<and> j \<le> length s \<and> i \<le> j + 1 \<and>
     (\<forall>k < length s. (lo < Low (s ! k) \<longleftrightarrow> i \<le> k) \<and> (hi < High (s ! k) \<longleftrightarrow> j \<le> k))"

lemma search_cut_points:
  fixes s :: "'a::linorder AddrRangeSet"
  assumes inv: "rs_inv s" and le: "lo \<le> hi"
    and i: "i = sort_Search (length s) (\<lambda>i. Low (s ! i) > lo)"
    and j: "j = (i - 1) + sort_Search (length (drop (i - 1) s)) (\<lambda>k. High (drop (i - 1) s ! k) > hi)"
  shows "cut_points s lo hi i j"
proof -
  have "monotone_below (length s) (\<lambda>i. Low (s ! i) > lo)"
    using rs_inv_mono(1) [OF inv] by (auto simp: monotone_below_def intro: less_le_trans)
  note b1 = sort_Search_boundary [OF this, folded i]
  have "monotone_below (length (drop (i - 1) s)) (\<lambda>k. High (drop (i - 1) s ! k) > hi)"
    using rs_inv_mono(2) [OF inv] b1(1) by (auto simp: monotone_below_def intro: less_le_trans)
  note b2 = sort_Search_boundary [OF this]
  define m where "m = sort_Search (length (drop (i - 1) s)) (\<lambda>k. High (drop (i - 1) s ! k) > hi)"
  have jm: "j = (i - 1) + m" using j by (simp add: m_def)
  have m: "m \<le> length s - (i - 1)" using b2(1) by (simp add: m_def)
  have "(hi < High (s ! k) \<longleftrightarrow> j \<le> k)" if k: "k < length s" for k
  proof (cases "k < i - 1")
    case True
    then have "High (s ! k) < Low (s ! (i - 1))" using rs_inv_gap [OF inv, of k "i - 1"] b1(1) by simp
    also have "\<dots> \<le> lo" using b1(1) b1(2) [of "i - 1"] True by (simp add: not_less [symmetric])
    also note le
    finally have "\<not> hi < High (s ! k)" by (rule less_not_sym)
    moreover have "\<not> j \<le> k" using True jm by simp
    ultimately show ?thesis by simp
  next
    case False
    then have "drop (i - 1) s ! (k - (i - 1)) = s ! k" using b1(1) k by simp
    moreover have "hi < High (drop (i - 1) s ! (k - (i - 1))) \<longleftrightarrow> m \<le> k - (i - 1)"
      unfolding m_def using False k by (intro b2(2)) simp
    moreover have "m \<le> k - (i - 1) \<longleftrightarrow> j \<le> k" using False jm by linarith
    ultimately show ?thesis by simp
  qed
  with b1 m jm show ?thesis unfolding cut_points_def by auto
qed

text \<open>Melting: the new range against the block of ranges it touches.\<close>

definition melted :: "'a::linorder AddrRangeSet \<Rightarrow> 'a \<Rightarrow> 'a \<Rightarrow> 'a \<Rightarrow> 'a \<Rightarrow> nat \<Rightarrow> nat \<Rightarrow> bool" where
  "melted s lo hi lo' hi' i j \<longleftrightarrow>
     i \<le> j \<and> j \<le> length s \<and> lo' \<le> lo \<and> hi \<le> hi' \<and>
     (\<forall>k < i. High (s ! k) < lo') \<and> (\<forall>k < length s. j \<le> k \<longrightarrow> hi' < Low (s ! k)) \<and>
     (\<forall>k. i \<le> k \<longrightarrow> k < j \<longrightarrow> lo' \<le> Low (s ! k) \<and> High (s ! k) \<le> hi') \<and>
     (\<forall>x. lo' \<le> x \<longrightarrow> x < hi' \<longrightarrow> lo \<le> x \<and> x < hi \<or> (\<exists>k. i \<le> k \<and> k < j \<and> x \<in> range_of (s ! k)))"

lemma melt:
  fixes s :: "'a::linorder AddrRangeSet"
  assumes inv: "rs_inv s" and cp: "cut_points s lo hi i j" and le: "lo \<le> hi" "i \<le> j"
    and l: "(lo', i') = (if i > 0 \<and> High (s ! (i - 1)) \<ge> lo then (Low (s ! (i - 1)), i - 1) else (lo, i))"
    and h: "(hi', j') = (if j < length s \<and> Low (s ! j) \<le> hi then (High (s ! j), j + 1) else (hi, j))"
  shows "melted s lo hi lo' hi' i' j'"
proof -
  let ?m1 = "i > 0 \<and> High (s ! (i - 1)) \<ge> lo" and ?m2 = "j < length s \<and> Low (s ! j) \<le> hi"
  have n: "i \<le> length s" "j \<le> length s"
    and lo: "\<And>k. k < length s \<Longrightarrow> lo < Low (s ! k) \<longleftrightarrow> i \<le> k"
    and hi: "\<And>k. k < length s \<Longrightarrow> hi < High (s ! k) \<longleftrightarrow> j \<le> k"
    using cp by (auto simp: cut_points_def)
  have l1: "lo' \<le> lo" "\<forall>k < i'. High (s ! k) < lo'" "\<forall>k < length s. i' \<le> k \<longrightarrow> lo' \<le> Low (s ! k)"
    "\<forall>x. lo' \<le> x \<longrightarrow> x < lo \<longrightarrow> i' < i \<and> x \<in> range_of (s ! i')" "i' \<le> i"
  proof -
    have "lo' \<le> lo \<and> (\<forall>k < i'. High (s ! k) < lo') \<and> (\<forall>k < length s. i' \<le> k \<longrightarrow> lo' \<le> Low (s ! k)) \<and>
      (\<forall>x. lo' \<le> x \<longrightarrow> x < lo \<longrightarrow> i' < i \<and> x \<in> range_of (s ! i')) \<and> i' \<le> i"
    proof (cases ?m1)
      case True
      then have [simp]: "lo' = Low (s ! (i - 1))" "i' = i - 1" using l by auto
      have "\<not> lo < Low (s ! (i - 1))" 
      proof -
        have "i - 1 < length s" "\<not> i \<le> i - 1" using n True by auto
        with lo show ?thesis by blast
      qed
      then have "lo' \<le> lo" by (simp add: not_less)
      then show ?thesis using True rs_inv_gap [OF inv] rs_inv_mono(1) [OF inv] n
        by (auto simp: range_of_def intro: less_le_trans)
    next
      case False
      then have [simp]: "lo' = lo" "i' = i" using l by auto
      have "High (s ! k) < lo" if "k < i" for k
      proof -
        have "High (s ! k) \<le> High (s ! (i - 1))" using rs_inv_mono(2) [OF inv, of k "i - 1"] that n by simp
        also have "\<dots> < lo" using that False by simp
        finally show ?thesis .
      qed
      then show ?thesis using lo by (auto intro: less_imp_le)
    qed
    then show "lo' \<le> lo" "\<forall>k < i'. High (s ! k) < lo'" "\<forall>k < length s. i' \<le> k \<longrightarrow> lo' \<le> Low (s ! k)"
      "\<forall>x. lo' \<le> x \<longrightarrow> x < lo \<longrightarrow> i' < i \<and> x \<in> range_of (s ! i')" "i' \<le> i" by blast+
  qed
  have h1: "hi \<le> hi' \<and> (\<forall>k < length s. j' \<le> k \<longrightarrow> hi' < Low (s ! k)) \<and> (\<forall>k < j'. High (s ! k) \<le> hi') \<and>
      (\<forall>x. x < hi' \<longrightarrow> hi \<le> x \<longrightarrow> j < j' \<and> x \<in> range_of (s ! j)) \<and> j \<le> j' \<and> j' \<le> length s"
  proof (cases ?m2)
    case True
    then have [simp]: "hi' = High (s ! j)" "j' = j + 1" using h by auto
    have "hi \<le> hi'" using hi [of j] True by simp
    then show ?thesis using True rs_inv_gap [OF inv, of j] rs_inv_mono(2) [OF inv] n
      by (auto simp: range_of_def intro: order_trans)
  next
    case False
    then have [simp]: "hi' = hi" "j' = j" using h by auto
    have "hi < Low (s ! k)" if "k < length s" "j \<le> k" for k
      using rs_inv_mono(1) [OF inv, of j k] that False by auto
    moreover have "High (s ! k) \<le> hi" if "k < j" for k
      using hi [of k] that n by (simp add: not_less [symmetric])
    ultimately show ?thesis using n by auto
  qed
  show ?thesis unfolding melted_def
    using l1 h1 le n by (meson leI le_less_trans less_le_trans order_trans order_refl)
qed

lemma ivl_subset_mono: "a \<le> b \<Longrightarrow> c \<le> d \<Longrightarrow> {b..<c} \<subseteq> {a..<d}" for a :: "'a::order"
  by auto

lemma melted_result:
  fixes s :: "'a::linorder AddrRangeSet"
  assumes inv: "rs_inv s" and m: "melted s lo hi lo' hi' i j" and lt: "lo < hi \<or> i < j"
  shows "rs_inv (take i s @ mk_range lo' hi' # drop j s) \<and>
    rs_set (take i s @ mk_range lo' hi' # drop j s) = rs_set s \<union> {lo..<hi}"
proof -
  define M where "M = take (j - i) (drop i s)"
  have ij: "i \<le> j" "j \<le> length s" using m unfolding melted_def by blast+
  have "drop i s = M @ drop (j - i) (drop i s)" unfolding M_def by (rule append_take_drop_id [symmetric])
  also have "drop (j - i) (drop i s) = drop j s" using ij by simp
  finally have s: "s = take i s @ M @ drop j s" by (metis append_take_drop_id)
  have M: "r \<in> set M \<longleftrightarrow> (\<exists>k. i \<le> k \<and> k < j \<and> r = s ! k)" for r
  proof -
    have "length M = j - i" "\<And>k. k < j - i \<Longrightarrow> M ! k = s ! (i + k)"
      using ij by (auto simp: M_def)
    then show ?thesis unfolding in_set_conv_nth
      by (metis add.commute add_diff_inverse_nat le_add1 less_diff_conv not_less)
  qed
  have sub: "rs_set M \<union> {lo..<hi} = {lo'..<hi'}"
  proof
    show "rs_set M \<union> {lo..<hi} \<subseteq> {lo'..<hi'}"
    proof -
      have "range_of r \<subseteq> {lo'..<hi'}" if "r \<in> set M" for r
      proof -
        from that M obtain k where "i \<le> k" "k < j" "r = s ! k" by blast
        with m have "lo' \<le> Low r" "High r \<le> hi'" unfolding melted_def by blast+
        then show ?thesis unfolding range_of_def by (intro ivl_subset_mono)
      qed
      moreover have "lo' \<le> lo" "hi \<le> hi'" using m unfolding melted_def by blast+
      then have "{lo..<hi} \<subseteq> {lo'..<hi'}" by (intro ivl_subset_mono)
      ultimately show ?thesis unfolding rs_set_def by blast
    qed
    show "{lo'..<hi'} \<subseteq> rs_set M \<union> {lo..<hi}"
    proof
      fix x assume x: "x \<in> {lo'..<hi'}"
      then have "lo' \<le> x" "x < hi'" by simp_all
      with m consider "lo \<le> x \<and> x < hi" | k where "i \<le> k" "k < j" "x \<in> range_of (s ! k)"
        unfolding melted_def by blast
      then show "x \<in> rs_set M \<union> {lo..<hi}" using M unfolding rs_set_def by cases auto
    qed
  qed
  have lt': "lo' < hi'"
  proof (cases "lo < hi")
    case True
    then show ?thesis using m unfolding melted_def by (meson le_less_trans less_le_trans)
  next
    case False
    then have "i < j" "i < length s" using lt m by (auto simp: melted_def)
    then show ?thesis using m rs_inv_nth [OF inv, of i] unfolding melted_def
      by (meson le_less_trans less_le_trans order_refl)
  qed
  have "rs_inv (take i s @ mk_range lo' hi' # drop j s)"
  proof (rule rs_splice [of _ M])
    show "rs_inv (take i s @ M @ drop j s)" using inv s by simp
    show "High r < lo'" if "r \<in> set (take i s)" for r
      using that m by (auto simp: melted_def in_set_conv_nth)
    show "hi' < Low r" if "r \<in> set (drop j s)" for r
      using that m by (auto simp: melted_def in_set_conv_nth)
  qed (rule lt')
  moreover have "rs_set (take i s @ mk_range lo' hi' # drop j s) = rs_set (take i s @ M @ drop j s) \<union> {lo..<hi}"
    by (rule rs_splice_set [OF sub])
  ultimately show ?thesis using s by simp
qed

lemma AddRange_correct:
  fixes s :: "'a::linorder AddrRangeSet"
  assumes inv: "rs_inv s" and le: "lo \<le> hi"
  shows "rs_inv (AddRange s lo hi) \<and> rs_set (AddRange s lo hi) = rs_set s \<union> {lo..<hi}"
proof -
  define i where "i = sort_Search (length s) (\<lambda>i. Low (s ! i) > lo)"
  define j where "j = (i - 1) + sort_Search (length (drop (i - 1) s)) (\<lambda>k. High (drop (i - 1) s ! k) > hi)"
  have cp: "cut_points s lo hi i j" using search_cut_points [OF inv le i_def j_def] .
  have off: "(if i > 0 then i - 1 else 0) = i - 1" by simp
  show ?thesis
  proof (cases "i > j")
    case True
    then have r: "AddRange s lo hi = s"
      unfolding AddRange_def Let_def i_def [symmetric] off j_def [symmetric] by simp
    have j: "j < length s" using True cp by (simp add: cut_points_def)
    with True cp have "\<not> lo < Low (s ! j)" "hi < High (s ! j)" by (simp_all add: cut_points_def)
    then have "Low (s ! j) \<le> lo" "hi < High (s ! j)" by simp_all
    then have "{lo..<hi} \<subseteq> range_of (s ! j)" by (auto simp: range_of_def)
    then have "{lo..<hi} \<subseteq> rs_set s" using j unfolding rs_set_def by (meson UN_upper nth_mem order_trans)
    with r inv show ?thesis by auto
  next
    case False
    obtain lo' i' where l: "(lo', i') =
        (if i > 0 \<and> High (s ! (i - 1)) \<ge> lo then (Low (s ! (i - 1)), i - 1) else (lo, i))" by (metis surj_pair)
    obtain hi' j' where h: "(hi', j') =
        (if j < length s \<and> Low (s ! j) \<le> hi then (High (s ! j), j + 1) else (hi, j))" by (metis surj_pair)
    have m: "melted s lo hi lo' hi' i' j'" using melt [OF inv cp le _ l h] False by simp
    have r: "AddRange s lo hi = (if i' = j' then (if lo' < hi' then take i' s @ [mk_range lo' hi'] @ drop i' s else s)
              else take (i' + 1) (s[i' := mk_range lo' hi']) @ drop j' s)"
      using False unfolding AddRange_def Let_def i_def [symmetric] off j_def [symmetric] l [symmetric]
      by (simp add: h [symmetric])
    consider (same) "i' = j'" "lo' < hi'" | (none) "i' = j'" "\<not> lo' < hi'" | (block) "i' < j'"
    proof -
      have "i' = j' \<or> i' < j'" using m by (auto simp: melted_def)
      then show ?thesis using that by blast
    qed
    then show ?thesis
    proof cases
      case same
      then have "lo < hi" using m by (auto simp: melted_def)
      then show ?thesis using melted_result [OF inv m] same r by simp
    next
      case none
      then have "\<not> lo < hi" using m unfolding melted_def by (meson le_less_trans less_le_trans)
      then show ?thesis using none r inv by simp
    next
      case block
      then have "i' < length s" using m by (auto simp: melted_def)
      then have "take (i' + 1) (s[i' := mk_range lo' hi']) @ drop j' s
          = take i' s @ mk_range lo' hi' # drop j' s"
        by (simp add: take_Suc_conv_app_nth take_update_cancel)
      then show ?thesis using melted_result [OF inv m] block r by simp
    qed
  qed
qed

section \<open>The interface\<close>

text \<open>A set of points that ranges are added to one by one, as its clients see it.\<close>

locale point_set =
  fixes empty_set :: 's and add :: "'s \<Rightarrow> 'r \<Rightarrow> 's" and contains :: "'s \<Rightarrow> 'v \<Rightarrow> bool"
    and inv :: "'s \<Rightarrow> bool" and good :: "'r \<Rightarrow> bool" and covers :: "'r \<Rightarrow> 'v \<Rightarrow> bool"
  assumes inv_empty: "inv empty_set"
    and inv_add: "inv s \<Longrightarrow> good r \<Longrightarrow> inv (add s r)"
    and contains_empty: "\<not> contains empty_set v"
    and contains_add: "inv s \<Longrightarrow> good r \<Longrightarrow> contains (add s r) v \<longleftrightarrow> contains s v \<or> covers r v"
begin

lemma inv_foldl: "inv s \<Longrightarrow> list_all good rs \<Longrightarrow> inv (foldl add s rs)"
  by (induction rs arbitrary: s) (simp_all add: inv_add)

lemma contains_foldl:
  "inv s \<Longrightarrow> list_all good rs \<Longrightarrow> contains (foldl add s rs) v \<longleftrightarrow> contains s v \<or> (\<exists>r \<in> set rs. covers r v)"
  by (induction rs arbitrary: s) (auto simp: contains_add inv_add)

lemma contains_built:
  "list_all good rs \<Longrightarrow> contains (foldl add empty_set rs) v \<longleftrightarrow> (\<exists>r \<in> set rs. covers r v)"
  by (simp add: contains_foldl inv_empty contains_empty)

end

definition range_good :: "'a::linorder AddrRange \<Rightarrow> bool" where
  "range_good r \<longleftrightarrow> Low r \<le> High r"

definition range_covers :: "'a::linorder AddrRange \<Rightarrow> 'a \<Rightarrow> bool" where
  "range_covers r v \<longleftrightarrow> Low r \<le> v \<and> v < High r"

interpretation rset: point_set "[]" Add Contains rs_inv range_good range_covers
proof (unfold_locales, goal_cases)
  case 1 show ?case by simp
next
  case (2 s r) then show ?case using AddRange_correct [of s "Low r" "High r"] by (simp add: Add_def range_good_def)
next
  case (3 v) show ?case by (simp add: Contains_iff)
next
  case (4 s r v)
  then show ?case using AddRange_correct [of s "Low r" "High r"]
    by (simp add: Add_def range_good_def Contains_iff range_covers_def)
qed

section \<open>Properties\<close>

text \<open>
  C8. Adding a range keeps the list sorted, disjoint and free of touching ranges, and makes
  the set contain what it contained and the points of the range, nothing else.
\<close>
theorem AddRange_adds:
  assumes "rs_inv s" and "lo \<le> hi"
  shows "rs_inv (AddRange s lo hi) \<and>
    (Contains (AddRange s lo hi) v \<longleftrightarrow> Contains s v \<or> lo \<le> v \<and> v < hi)"
  using AddRange_correct [OF assms] assms by (simp add: Contains_iff)

lemma AddRange_adds_witness:
  "\<forall>v. Contains (AddRange [mk_range 1 4, mk_range 6 (9 :: nat)] 4 7) v \<longleftrightarrow> 1 \<le> v \<and> v < 9"
proof
  fix v
  have "rs_inv [mk_range 1 4, mk_range 6 (9 :: nat)]" by (simp add: rs_inv_def rs_sorted_def)
  from AddRange_adds [OF this, of 4 7 v] Contains_iff [OF this, of v]
  show "Contains (AddRange [mk_range 1 4, mk_range 6 (9 :: nat)] 4 7) v \<longleftrightarrow> 1 \<le> v \<and> v < 9"
    by (auto simp: range_of_def)
qed

text \<open>
  A set built by adding ranges in any order, overlapping or not, contains exactly the
  points of the ranges.
\<close>
theorem Contains_built:
  assumes "list_all range_good rs"
  shows "Contains (foldl Add [] rs) v \<longleftrightarrow> (\<exists>r \<in> set rs. range_covers r v)"
  using assms by (rule rset.contains_built)

lemma Contains_built_witness:
  "Contains (foldl Add [] [mk_range 5 9, mk_range 1 3, mk_range 2 (6 :: nat)]) 4 \<and>
   \<not> Contains (foldl Add [] [mk_range 5 9, mk_range 1 3, mk_range 2 (6 :: nat)]) 9"
  using Contains_built [of "[mk_range 5 9, mk_range 1 3, mk_range 2 (6 :: nat)]" 4]
    Contains_built [of "[mk_range 5 9, mk_range 1 3, mk_range 2 (6 :: nat)]" 9]
  by (simp add: range_good_def range_covers_def)

end
