(* ===== verification/Addr_Range.thy ===== *)
theory Addr_Range
  imports Range_Set "HOL-Library.List_Lexorder" "HOL-Library.Product_Lexorder"
begin

text \<open>
  The addresses of \<open>net/netip\<close> as \<open>internal/netiputil\<close> uses them, their order, and
  \<open>ParsePrefix\<close> (\<open>internal/netiputil/parse.go\<close>), which turns a prefix into the half-open range
  of its addresses. The text parser \<open>netip.ParsePrefix\<close> is a parameter.
\<close>

unbundle bit_operations_syntax

section \<open>Addresses\<close>

datatype addr = AddrZero | Addr4 "32 word" | Addr6 "128 word" bytes   \<comment> \<open>\<open>Addr6\<close> with its zone\<close>

definition addr_IsValid :: "addr \<Rightarrow> bool" where
  "addr_IsValid a \<longleftrightarrow> a \<noteq> AddrZero"

fun addr_BitLen :: "addr \<Rightarrow> nat" where
  "addr_BitLen AddrZero = 0"
| "addr_BitLen (Addr4 v) = 32"
| "addr_BitLen (Addr6 v z) = 128"

text \<open>\<open>Addr.Compare\<close>: by bit length, then by value, then by zone.\<close>

fun addr_key :: "addr \<Rightarrow> nat \<times> nat \<times> bytes" where
  "addr_key AddrZero = (0, 0, [])"
| "addr_key (Addr4 v) = (32, unat v, [])"
| "addr_key (Addr6 v z) = (128, unat v, z)"

lemma addr_key_inject: "addr_key a = addr_key b \<Longrightarrow> a = b"
  by (cases a; cases b) (auto simp: word_unat_eq_iff)

instantiation addr :: linorder
begin

definition less_eq_addr :: "addr \<Rightarrow> addr \<Rightarrow> bool" where
  "less_eq_addr a b \<longleftrightarrow> addr_key a \<le> addr_key b"

definition less_addr :: "addr \<Rightarrow> addr \<Rightarrow> bool" where
  "less_addr a b \<longleftrightarrow> addr_key a < addr_key b"

instance
proof
  fix a b c :: addr
  show "a < b \<longleftrightarrow> a \<le> b \<and> \<not> b \<le> a" by (auto simp: less_eq_addr_def less_addr_def)
  show "a \<le> a" by (simp add: less_eq_addr_def)
  show "a \<le> b \<Longrightarrow> b \<le> c \<Longrightarrow> a \<le> c" unfolding less_eq_addr_def by (rule order_trans)
  show "a \<le> b \<Longrightarrow> b \<le> a \<Longrightarrow> a = b" unfolding less_eq_addr_def using addr_key_inject by (meson order_antisym)
  show "a \<le> b \<or> b \<le> a" unfolding less_eq_addr_def by (rule linear)
qed

end

definition addr_Compare :: "addr \<Rightarrow> addr \<Rightarrow> int" where
  "addr_Compare a b = (if a < b then - 1 else if a = b then 0 else 1)"

fun addr_Next :: "addr \<Rightarrow> addr" where
  "addr_Next AddrZero = AddrZero"
| "addr_Next (Addr4 v) = (if v + 1 = 0 then AddrZero else Addr4 (v + 1))"
| "addr_Next (Addr6 v z) = (if v + 1 = 0 then AddrZero else Addr6 (v + 1) z)"

section \<open>\<open>ParsePrefix\<close>\<close>

text \<open>\<open>As4\<close>, \<open>As16\<close> and their inverses: the bytes of an address, the most significant one first.\<close>

definition as_bytes :: "nat \<Rightarrow> 'w::len word \<Rightarrow> bytes" where
  "as_bytes n w = map (\<lambda>i. ucast (drop_bit (8 * (n - 1 - i)) w)) [0..<n]"

definition from_bytes :: "bytes \<Rightarrow> 'w::len word" where
  "from_bytes bs = foldl (\<lambda>acc b. push_bit 8 acc OR ucast b) 0 bs"

definition masked_value :: "nat \<Rightarrow> 'w::len word \<Rightarrow> 'w word" where
  "masked_value m w = w AND NOT (mask m)"

text \<open>\<open>Prefix.Masked\<close> on the prefixes that \<open>netip.ParsePrefix\<close> returns.\<close>

fun prefix_Masked :: "addr \<times> nat \<Rightarrow> addr \<times> nat" where
  "prefix_Masked (AddrZero, bits) = (AddrZero, bits)"
| "prefix_Masked (Addr4 v, bits) = (Addr4 (masked_value (32 - bits) v), bits)"
| "prefix_Masked (Addr6 v z, bits) = (Addr6 (masked_value (128 - bits) v) [], bits)"

text \<open>The loops over \<open>a4\<close> and \<open>a16\<close>; \<open>1 << nz - 1\<close> is computed in a byte.\<close>

definition fill_bytes :: "nat \<Rightarrow> bytes \<Rightarrow> bytes" where
  "fill_bytes bits a =
     (let i0 = bits div 8
      in fold (\<lambda>i a. let nz = (if i = i0 then 8 - bits mod 8 else 8)
                     in a[i := a ! i OR (push_bit nz 1 - 1)]) [i0..<length a] a)"

definition close_range :: "addr \<Rightarrow> addr \<Rightarrow> addr AddrRange \<times> bool" where
  "close_range low high =
     (let ip = addr_Next high
      in if addr_IsValid ip then (mk_range low ip, False) else (mk_range low high, True))"

definition prefix_range :: "addr \<times> nat \<Rightarrow> (addr AddrRange \<times> bool) option" where
  "prefix_range q =
     (case prefix_Masked q of
        (Addr4 v, bits) \<Rightarrow>
          Some (close_range (Addr4 v) (Addr4 (from_bytes (fill_bytes bits (as_bytes 4 v)))))
      | (Addr6 v z, bits) \<Rightarrow>
          Some (close_range (Addr6 v z) (Addr6 (from_bytes (fill_bytes bits (as_bytes 16 v))) []))
      | (AddrZero, bits) \<Rightarrow> None)"

datatype parse_error = ParseFailed string | Unrecognized string

definition ParsePrefix ::
  "(string \<Rightarrow> (addr \<times> nat) option) \<Rightarrow> string \<Rightarrow> parse_error + addr AddrRange \<times> bool" where
  "ParsePrefix netip_ParsePrefix s =
     (case netip_ParsePrefix s of
        None \<Rightarrow> Inl (ParseFailed s)
      | Some p \<Rightarrow> (case prefix_range p of None \<Rightarrow> Inl (Unrecognized s) | Some r \<Rightarrow> Inr r))"

section \<open>Bytes of a word\<close>

lemma length_as_bytes [simp]: "length (as_bytes n w) = n"
  by (simp add: as_bytes_def)

lemma bit_as_bytes:
  "i < n \<Longrightarrow> bit (as_bytes n w ! i) k \<longleftrightarrow> k < 8 \<and> bit w (8 * (n - 1 - i) + k)"
  by (simp add: as_bytes_def bit_simps)

lemma bit_from_bytes:
  "k < LENGTH('w) \<Longrightarrow> bit (from_bytes bs :: 'w::len word) k \<longleftrightarrow>
     k < 8 * length bs \<and> bit (bs ! (length bs - 1 - k div 8)) (k mod 8)"
proof (induction bs arbitrary: k rule: rev_induct)
  case Nil
  then show ?case by (simp add: from_bytes_def)
next
  case (snoc b bs)
  have f: "from_bytes (bs @ [b]) = push_bit 8 (from_bytes bs) OR (ucast b :: 'w word)"
    by (simp add: from_bytes_def)
  show ?case
  proof (cases "k < 8")
    case True
    then show ?thesis using snoc.prems unfolding f by (simp add: bit_simps)
  next
    case False
    have "bit (from_bytes (bs @ [b]) :: 'w word) k \<longleftrightarrow> bit (from_bytes bs :: 'w word) (k - 8)"
      using False snoc.prems unfolding f by (auto simp: bit_simps dest: bit_imp_le_length)
    also have "\<dots> \<longleftrightarrow> k - 8 < 8 * length bs \<and> bit (bs ! (length bs - 1 - (k - 8) div 8)) ((k - 8) mod 8)"
      using snoc.prems by (intro snoc.IH) simp
    also have "\<dots> \<longleftrightarrow> k < 8 * length (bs @ [b]) \<and>
        bit ((bs @ [b]) ! (length (bs @ [b]) - 1 - k div 8)) (k mod 8)"
    proof -
      define q where "q = k div 8 - 1"
      have k8: "1 \<le> k div 8" using False by linarith
      have q: "(k - 8) div 8 = q" "(k - 8) mod 8 = k mod 8" "k div 8 = Suc q"
        using False k8 by (simp_all add: q_def le_div_geq le_mod_geq)
      have "k - 8 < 8 * length bs \<longleftrightarrow> q < length bs" "k < 8 * length (bs @ [b]) \<longleftrightarrow> q < length bs"
        using q(3) False by simp_all linarith+
      moreover have "(bs @ [b]) ! (length (bs @ [b]) - 1 - Suc q) = bs ! (length bs - 1 - q)" if "q < length bs"
      proof -
        have "length bs - Suc q < length bs" using that by linarith
        then show ?thesis by (simp add: nth_append)
      qed
      ultimately show ?thesis unfolding q by auto
    qed
    finally show ?thesis .
  qed
qed

lemma bit_fill_step: "k < 8 \<Longrightarrow> nz \<le> 8 \<Longrightarrow> bit (b OR (push_bit nz 1 - 1) :: u8) k \<longleftrightarrow> bit b k \<or> k < nz"
proof -
  assume "k < 8" "nz \<le> 8"
  have "push_bit nz 1 - 1 = (mask nz :: u8)" by (simp add: mask_eq_exp_minus_1 push_bit_eq_mult)
  then show ?thesis using \<open>k < 8\<close> by (simp add: bit_simps)
qed

lemma fold_update_nth:
  assumes "i < length a" "distinct js" "\<forall>j \<in> set js. j < length a"
  shows "fold (\<lambda>j a. a[j := f j (a ! j)]) js a ! i = (if i \<in> set js then f i (a ! i) else a ! i)
    \<and> length (fold (\<lambda>j a. a[j := f j (a ! j)]) js a) = length a"
  using assms by (induction js arbitrary: a) (auto simp: nth_list_update)

lemma fill_bytes_nth:
  assumes "i < length a"
  shows "fill_bytes bits a ! i = (if bits div 8 \<le> i
     then a ! i OR (push_bit (if i = bits div 8 then 8 - bits mod 8 else 8) 1 - 1) else a ! i)"
    and "length (fill_bytes bits a) = length a"
proof -
  let ?f = "\<lambda>i x. x OR (push_bit (if i = bits div 8 then 8 - bits mod 8 else 8) 1 - 1) :: u8"
  have e: "fill_bytes bits a = fold (\<lambda>j a. a[j := ?f j (a ! j)]) [bits div 8..<length a] a"
    by (simp add: fill_bytes_def Let_def)
  from fold_update_nth [OF assms, of "[bits div 8..<length a]" ?f] assms
  show "fill_bytes bits a ! i = (if bits div 8 \<le> i
     then a ! i OR (push_bit (if i = bits div 8 then 8 - bits mod 8 else 8) 1 - 1) else a ! i)"
    and "length (fill_bytes bits a) = length a" unfolding e by simp_all
qed

lemma length_fill_bytes [simp]: "length (fill_bytes bits a) = length a"
proof (cases a)
  case Nil
  then show ?thesis by (simp add: fill_bytes_def)
next
  case (Cons x xs)
  then show ?thesis using fill_bytes_nth(2) [of 0 a] by simp
qed

lemma from_bytes_fill:
  assumes n: "LENGTH('w) = 8 * n" and bits: "bits \<le> 8 * n"
  shows "from_bytes (fill_bytes bits (as_bytes n w)) = (w :: 'w::len word) OR mask (8 * n - bits)"
proof (rule bit_word_eqI)
  fix p assume p: "p < LENGTH('w)"
  define i k where "i = n - 1 - p div 8" and "k = p mod 8"
  have q: "p div 8 < n" using p n by auto
  then have i: "i < n" "8 * (n - 1 - i) + k = p" "k < 8"
    unfolding i_def k_def by (simp_all add: algebra_simps)
  have "bit (from_bytes (fill_bytes bits (as_bytes n w)) :: 'w word) p \<longleftrightarrow>
      bit (fill_bytes bits (as_bytes n w) ! i) k"
    using p n q by (simp add: bit_from_bytes i_def k_def)
  also have "\<dots> \<longleftrightarrow> bit (as_bytes n w ! i) k \<or>
      bits div 8 \<le> i \<and> (i = bits div 8 \<longrightarrow> k < 8 - bits mod 8)"
    using i bit_fill_step [of k "8 - bits mod 8" "as_bytes n w ! i"] bit_fill_step [of k 8 "as_bytes n w ! i"]
    by (subst fill_bytes_nth(1)) auto
  also have "bits div 8 \<le> i \<and> (i = bits div 8 \<longrightarrow> k < 8 - bits mod 8) \<longleftrightarrow> p < 8 * n - bits"
  proof -
    define b r where "b = bits div 8" and "r = bits mod 8"
    have bits': "bits = 8 * b + r" "r < 8" by (simp_all add: b_def r_def)
    have "n - 1 = i + p div 8" using q by (simp add: i_def)
    then have "8 * n = 8 * i + 8 * (p div 8) + 8" using q by linarith
    moreover have "p = 8 * (p div 8) + k" by (simp add: k_def)
    ultimately have "p < 8 * n - bits \<longleftrightarrow> k + 8 * b + r < 8 * i + 8" using bits' by linarith
    also have "\<dots> \<longleftrightarrow> b \<le> i \<and> (i = b \<longrightarrow> k < 8 - r)" using i(3) bits' by (cases "i = b") auto
    finally show ?thesis by (simp add: b_def r_def)
  qed
  also have "bit (as_bytes n w ! i) k \<longleftrightarrow> bit w p" using i by (simp add: bit_as_bytes)
  finally show "bit (from_bytes (fill_bytes bits (as_bytes n w)) :: 'w word) p \<longleftrightarrow>
      bit (w OR mask (8 * n - bits)) p" using p n by (simp add: bit_simps)
qed

section \<open>The range of a prefix\<close>

lemma unat_masked: "unat (masked_value m w :: 'w::len word) = unat w div 2 ^ m * 2 ^ m"
proof -
  have "unat (masked_value m w :: 'w::len word) = push_bit m (drop_bit m (unat w))"
    by (rule bit_eqI) (auto simp: masked_value_def bit_simps dest: bit_imp_le_length)
  then show ?thesis by (simp add: push_bit_eq_mult drop_bit_eq_div)
qed

lemma unat_masked_or:
  assumes "m \<le> LENGTH('w)"
  shows "unat (masked_value m w OR mask m :: 'w::len word) = unat w div 2 ^ m * 2 ^ m + (2 ^ m - 1)"
proof -
  have e: "unat (masked_value m w OR mask m :: 'w word) = push_bit m (drop_bit m (unat w)) OR mask m"
    using assms by (intro bit_eqI) (auto simp: masked_value_def bit_simps dest: bit_imp_le_length)
  also have "\<dots> = push_bit m (drop_bit m (unat w)) + mask m"
    by (rule disjunctive_add_eq_or [symmetric]) (auto simp: bit_eq_iff bit_simps)
  finally show ?thesis by (simp add: push_bit_eq_mult drop_bit_eq_div mask_eq_exp_minus_1)
qed

lemma div_range_iff:
  fixes x v :: nat
  shows "v div 2 ^ m * 2 ^ m \<le> x \<and> x \<le> v div 2 ^ m * 2 ^ m + (2 ^ m - 1) \<longleftrightarrow> x div 2 ^ m = v div 2 ^ m"
proof -
  define d where "d = (2 :: nat) ^ m"
  have d: "0 < d" by (simp add: d_def)
  have "v div d * d \<le> x \<and> x \<le> v div d * d + (d - 1) \<longleftrightarrow> x div d = v div d"
  proof
    assume a: "x div d = v div d"
    have "v div d * d + x mod d = x" using div_mult_mod_eq [of x d] unfolding a .
    moreover have "x mod d < d" using d by simp
    ultimately show "v div d * d \<le> x \<and> x \<le> v div d * d + (d - 1)" by linarith
  next
    assume a: "v div d * d \<le> x \<and> x \<le> v div d * d + (d - 1)"
    then have "x = v div d * d + (x - v div d * d)" "x - v div d * d < d" using d by linarith+
    then show "x div d = v div d" by (metis d div_mult_self3 div_less add_0_right less_nat_zero_code not_gr_zero)
  qed
  then show ?thesis by (simp add: d_def)
qed

text \<open>Membership in a prefix: the same first bits.\<close>

fun in_prefix :: "addr \<times> nat \<Rightarrow> addr \<Rightarrow> bool" where
  "in_prefix (Addr4 v, bits) (Addr4 x) \<longleftrightarrow> drop_bit (32 - bits) x = drop_bit (32 - bits) v"
| "in_prefix (Addr6 v _, bits) (Addr6 x _) \<longleftrightarrow> drop_bit (128 - bits) x = drop_bit (128 - bits) v"
| "in_prefix _ _ \<longleftrightarrow> False"

text \<open>The last address of a family, which no half-open range can cover.\<close>

fun is_last :: "addr \<Rightarrow> bool" where
  "is_last AddrZero = False"
| "is_last (Addr4 v) \<longleftrightarrow> v = - 1"
| "is_last (Addr6 v z) \<longleftrightarrow> v = - 1"

definition same_family :: "addr \<Rightarrow> addr \<Rightarrow> bool" where
  "same_family a b \<longleftrightarrow> addr_BitLen a = addr_BitLen b"

lemma drop_bit_eq_iff: "drop_bit m x = drop_bit m v \<longleftrightarrow> unat x div 2 ^ m = unat v div 2 ^ m"
  for x v :: "'w::len word"
  unfolding word_unat_eq_iff unat_drop_bit_eq by (simp only: drop_bit_eq_div)

lemma word_succ_cases:
  fixes h :: "'w::len word"
  obtains (top) "h + 1 = 0" "h = - 1" | (succ) "h + 1 \<noteq> 0" "h \<noteq> - 1" "unat (h + 1) = unat h + 1"
proof (cases "h = - 1")
  case True
  then show ?thesis using that(1) by simp
next
  case False
  then have "1 + h \<noteq> 0" by (metis add.commute add_eq_0_iff)
  then show ?thesis using that(2) False unatSuc [of h] by (simp add: add.commute)
qed

lemma addr_order [simp]:
  "Addr4 x \<le> Addr4 y \<longleftrightarrow> unat x \<le> unat y" "Addr4 x < Addr4 y \<longleftrightarrow> unat x < unat y"
  "Addr6 u [] \<le> Addr6 w z \<longleftrightarrow> unat u \<le> unat w" "Addr6 u z < Addr6 w [] \<longleftrightarrow> unat u < unat w"
  "Addr4 x \<le> Addr6 u z" "\<not> Addr6 u z \<le> Addr4 x" "Addr4 x < Addr6 u z" "\<not> Addr6 u z < Addr4 x"
  "\<not> Addr4 x < AddrZero" "\<not> Addr6 u z < AddrZero"
  "\<not> Addr4 x \<le> AddrZero" "\<not> Addr6 u z \<le> AddrZero" "AddrZero < Addr4 x" "AddrZero < Addr6 u z"
  by (auto simp: less_eq_addr_def less_addr_def)

lemma last_word_unat:
  fixes h x :: "'w::len word"
  assumes "h = - 1"
  shows "unat x \<le> unat h" and "unat x = unat h \<longleftrightarrow> x = - 1"
proof -
  show "unat x \<le> unat h" using word_order.extremum [of x] assms by (simp only: word_le_nat_alt)
  show "unat x = unat h \<longleftrightarrow> x = - 1" using assms by (simp only: word_unat_eq_iff)
qed

text \<open>The half-open range from \<open>l\<close> to the successor of \<open>h\<close>, or closed when there is none.\<close>

lemma close_range_4:
  assumes "close_range (Addr4 l) (Addr4 h) = (r, closed)" "unat l \<le> unat h"
  shows "range_good r \<and> (\<forall>a. range_covers r a \<or> closed \<and> same_family a (Addr4 l) \<and> is_last a \<longleftrightarrow>
    (\<exists>x. a = Addr4 x \<and> unat l \<le> unat x \<and> unat x \<le> unat h))"
proof (cases h rule: word_succ_cases)
  case top
  note le = last_word_unat(1) [OF top(2)] and eq = last_word_unat(2) [OF top(2)]
  have "r = mk_range (Addr4 l) (Addr4 h)" closed
    using assms(1) top by (auto simp: close_range_def addr_IsValid_def)
  moreover have "range_covers (mk_range (Addr4 l) (Addr4 h)) a \<or> same_family a (Addr4 l) \<and> is_last a \<longleftrightarrow>
      (\<exists>x. a = Addr4 x \<and> unat l \<le> unat x \<and> unat x \<le> unat h)" for a
  proof (cases a)
    case (Addr4 x)
    then show ?thesis using assms(2) le [of x] eq [of x, symmetric] by (auto simp: range_covers_def same_family_def)
  qed (simp_all add: range_covers_def same_family_def)
  ultimately show ?thesis using assms(2) by (simp add: range_good_def)
next
  case succ
  then have "r = mk_range (Addr4 l) (Addr4 (h + 1))" "\<not> closed"
    using assms(1) by (auto simp: close_range_def addr_IsValid_def)
  moreover have "range_covers (mk_range (Addr4 l) (Addr4 (h + 1))) a \<longleftrightarrow>
      (\<exists>x. a = Addr4 x \<and> unat l \<le> unat x \<and> unat x \<le> unat h)" for a
    using succ(3) by (cases a) (auto simp: range_covers_def)
  ultimately show ?thesis using assms(2) succ(3) by (simp add: range_good_def)
qed

lemma close_range_6:
  assumes "close_range (Addr6 l []) (Addr6 h []) = (r, closed)" "unat l \<le> unat h"
  shows "range_good r \<and> (\<forall>a. range_covers r a \<or> closed \<and> same_family a (Addr6 l []) \<and> is_last a \<longleftrightarrow>
    (\<exists>x z. a = Addr6 x z \<and> unat l \<le> unat x \<and> unat x \<le> unat h))"
proof (cases h rule: word_succ_cases)
  case top
  note le = last_word_unat(1) [OF top(2)] and eq = last_word_unat(2) [OF top(2)]
  have "r = mk_range (Addr6 l []) (Addr6 h [])" closed
    using assms(1) top by (auto simp: close_range_def addr_IsValid_def)
  moreover have "range_covers (mk_range (Addr6 l []) (Addr6 h [])) a \<or> same_family a (Addr6 l []) \<and> is_last a \<longleftrightarrow>
      (\<exists>x z. a = Addr6 x z \<and> unat l \<le> unat x \<and> unat x \<le> unat h)" for a
  proof (cases a)
    case (Addr6 x z)
    then show ?thesis using assms(2) le [of x] eq [of x, symmetric] by (auto simp: range_covers_def same_family_def)
  qed (simp_all add: range_covers_def same_family_def)
  ultimately show ?thesis using assms(2) by (simp add: range_good_def)
next
  case succ
  then have "r = mk_range (Addr6 l []) (Addr6 (h + 1) [])" "\<not> closed"
    using assms(1) by (auto simp: close_range_def addr_IsValid_def)
  moreover have "range_covers (mk_range (Addr6 l []) (Addr6 (h + 1) [])) a \<longleftrightarrow>
      (\<exists>x z. a = Addr6 x z \<and> unat l \<le> unat x \<and> unat x \<le> unat h)" for a
    using succ(3) by (cases a) (auto simp: range_covers_def)
  ultimately show ?thesis using assms(2) succ(3) by (simp add: range_good_def)
qed

lemma prefix_range_meets:
  assumes "prefix_range (p, bits) = Some (r, closed)" "bits \<le> addr_BitLen p"
  shows "range_good r \<and>
    (\<forall>a. range_covers r a \<or> closed \<and> same_family a p \<and> is_last a \<longleftrightarrow> in_prefix (p, bits) a)"
proof (cases p)
  case AddrZero
  with assms show ?thesis by (simp add: prefix_range_def)
next
  case (Addr4 v)
  define l where "l = masked_value (32 - bits) v"
  have h: "from_bytes (fill_bytes bits (as_bytes 4 l)) = l OR mask (32 - bits)"
    using from_bytes_fill [of 4 bits l] assms(2) Addr4 by simp
  have c: "close_range (Addr4 l) (Addr4 (l OR mask (32 - bits))) = (r, closed)"
    using assms(1) by (simp add: prefix_range_def Addr4 l_def [symmetric] h)
  have u: "unat l = unat v div 2 ^ (32 - bits) * 2 ^ (32 - bits)"
    "unat (l OR mask (32 - bits)) = unat v div 2 ^ (32 - bits) * 2 ^ (32 - bits) + (2 ^ (32 - bits) - 1)"
    unfolding l_def by (rule unat_masked, rule unat_masked_or) simp
  have "in_prefix (p, bits) a \<longleftrightarrow>
      (\<exists>x. a = Addr4 x \<and> unat l \<le> unat x \<and> unat x \<le> unat (l OR mask (32 - bits)))" for a
    unfolding u div_range_iff by (cases a) (simp_all add: Addr4 drop_bit_eq_iff)
  moreover have "unat l \<le> unat (l OR mask (32 - bits))" unfolding u by (rule le_add1)
  ultimately show ?thesis using close_range_4 [OF c] by (simp add: Addr4 same_family_def)
next
  case (Addr6 v z)
  define l where "l = masked_value (128 - bits) v"
  have h: "from_bytes (fill_bytes bits (as_bytes 16 l)) = l OR mask (128 - bits)"
    using from_bytes_fill [of 16 bits l] assms(2) Addr6 by simp
  have c: "close_range (Addr6 l []) (Addr6 (l OR mask (128 - bits)) []) = (r, closed)"
    using assms(1) by (simp add: prefix_range_def Addr6 l_def [symmetric] h)
  have u: "unat l = unat v div 2 ^ (128 - bits) * 2 ^ (128 - bits)"
    "unat (l OR mask (128 - bits)) = unat v div 2 ^ (128 - bits) * 2 ^ (128 - bits) + (2 ^ (128 - bits) - 1)"
    unfolding l_def by (rule unat_masked, rule unat_masked_or) simp
  have "in_prefix (p, bits) a \<longleftrightarrow>
      (\<exists>x z. a = Addr6 x z \<and> unat l \<le> unat x \<and> unat x \<le> unat (l OR mask (128 - bits)))" for a
    unfolding u div_range_iff by (cases a) (simp_all add: Addr6 drop_bit_eq_iff)
  moreover have "unat l \<le> unat (l OR mask (128 - bits))" unfolding u by (rule le_add1)
  ultimately show ?thesis using close_range_6 [OF c] by (simp add: Addr6 same_family_def)
qed

section \<open>Properties\<close>

text \<open>
  C9. The range of a prefix covers exactly the addresses with the first bits of the prefix. When the
  prefix ends at the last address of its family no half-open range does; then the result is
  closed and leaves out only that address.
\<close>
theorem ParsePrefix_range:
  assumes "parse s = Some (p, bits)" and "bits \<le> addr_BitLen p" and "p \<noteq> AddrZero"
  shows "\<exists>r closed. ParsePrefix parse s = Inr (r, closed) \<and> range_good r \<and>
    (\<forall>a. range_covers r a \<or> closed \<and> same_family a p \<and> is_last a \<longleftrightarrow> in_prefix (p, bits) a)"
proof -
  obtain r closed where "prefix_range (p, bits) = Some (r, closed)"
    using assms(3) by (cases p) (auto simp: prefix_range_def intro: prod.exhaust)
  then show ?thesis using prefix_range_meets [OF _ assms(2)] assms(1) by (simp add: ParsePrefix_def)
qed

lemma ParsePrefix_range_witness:
  "\<exists>r closed. ParsePrefix (\<lambda>s. Some (Addr4 0x0A010203, 8)) ''10.1.2.3/8'' = Inr (r, closed) \<and>
    (range_covers r (Addr4 0x0AFFFFFF) \<or> closed) \<and> \<not> range_covers r (Addr4 0x0B000000)"
proof -
  from ParsePrefix_range [of "\<lambda>s. Some (Addr4 0x0A010203, 8)" "''10.1.2.3/8''", OF refl]
  obtain r closed where "ParsePrefix (\<lambda>s. Some (Addr4 0x0A010203, 8)) ''10.1.2.3/8'' = Inr (r, closed)"
    "\<forall>a. range_covers r a \<or> closed \<and> same_family a (Addr4 0x0A010203) \<and> is_last a
      \<longleftrightarrow> in_prefix (Addr4 0x0A010203, 8) a" by auto
  moreover have "in_prefix (Addr4 0x0A010203, 8) (Addr4 0x0AFFFFFF)"
    "\<not> in_prefix (Addr4 0x0A010203, 8) (Addr4 0x0B000000)"
    by (simp_all add: drop_bit_eq_iff)
  ultimately show ?thesis by blast
qed
end
