(* ===== verification/Go_Text.thy ===== *)
theory Go_Text
  imports Prelude
begin

text \<open>
  Go strings and the library routines on them that the services call: searching, trimming,
  upper and lower case, decimal numbers, \<open>net.SplitHostPort\<close> and \<open>net.JoinHostPort\<close>,
  \<open>path.Dir\<close> and \<open>path.Join\<close>. Characters are bytes. Case conversion and \<open>TrimSpace\<close> are
  those of ASCII text.
\<close>

section \<open>Searching\<close>

fun index_byte :: "char \<Rightarrow> string \<Rightarrow> nat option" where
  "index_byte c [] = None"
| "index_byte c (x # xs) = (if x = c then Some 0 else map_option Suc (index_byte c xs))"

definition last_index_byte :: "char \<Rightarrow> string \<Rightarrow> nat option" where
  "last_index_byte c s = map_option (\<lambda>i. length s - 1 - i) (index_byte c (rev s))"

lemma index_byte_None [simp]: "index_byte c s = None \<longleftrightarrow> c \<notin> set s"
  by (induction s) auto

lemma index_byte_append [simp]:
  "index_byte c (xs @ ys) =
     (if c \<in> set xs then index_byte c xs else map_option ((+) (length xs)) (index_byte c ys))"
proof (induction xs)
  case Nil
  then show ?case by (cases "index_byte c ys") (simp_all del: index_byte_None)
next
  case (Cons x xs)
  then show ?case by (cases "index_byte c ys") (auto simp del: index_byte_None)
qed

lemma index_byte_Some:
  "index_byte c s = Some i \<Longrightarrow> i < length s \<and> s ! i = c \<and> c \<notin> set (take i s)"
  by (induction s arbitrary: i) (auto split: if_splits)

lemma last_index_byte_append [simp]:
  "c \<notin> set ys \<Longrightarrow> last_index_byte c (xs @ c # ys) = Some (length xs)"
  by (simp add: last_index_byte_def)

lemma last_index_byte_None [simp]: "last_index_byte c s = None \<longleftrightarrow> c \<notin> set s"
  by (simp add: last_index_byte_def)

lemma last_index_byte_Some:
  assumes "last_index_byte c s = Some i"
  shows "i < length s \<and> s ! i = c \<and> c \<notin> set (drop (Suc i) s)"
proof -
  have "c \<in> set s" using assms by (metis last_index_byte_None option.distinct(1))
  then obtain xs ys where s: "s = xs @ c # ys" "c \<notin> set ys" by (meson split_list_last)
  with assms show ?thesis by (simp add: nth_append)
qed

definition HasPrefix :: "string \<Rightarrow> string \<Rightarrow> bool" where
  "HasPrefix s p \<longleftrightarrow> prefix p s"

definition HasSuffix :: "string \<Rightarrow> string \<Rightarrow> bool" where
  "HasSuffix s p \<longleftrightarrow> suffix p s"

definition TrimSuffix :: "string \<Rightarrow> string \<Rightarrow> string" where
  "TrimSuffix s p = (if HasSuffix s p then take (length s - length p) s else s)"

text \<open>\<open>strings.Split\<close> for a separator of one byte.\<close>

fun split_on :: "char \<Rightarrow> string \<Rightarrow> string list" where
  "split_on c [] = [[]]"
| "split_on c (x # xs) =
     (if x = c then [] # split_on c xs
      else (case split_on c xs of [] \<Rightarrow> [[x]] | w # ws \<Rightarrow> (x # w) # ws))"

section \<open>Case, space and numbers\<close>

definition upper_byte :: "char \<Rightarrow> char" where
  "upper_byte c = (let n = of_char c :: nat in if 97 \<le> n \<and> n \<le> 122 then char_of (n - 32) else c)"

definition lower_byte :: "char \<Rightarrow> char" where
  "lower_byte c = (let n = of_char c :: nat in if 65 \<le> n \<and> n \<le> 90 then char_of (n + 32) else c)"

definition ToUpper :: "string \<Rightarrow> string" where "ToUpper s = map upper_byte s"
definition ToLower :: "string \<Rightarrow> string" where "ToLower s = map lower_byte s"

definition is_space :: "char \<Rightarrow> bool" where
  "is_space c \<longleftrightarrow> (let n = of_char c :: nat in n = 32 \<or> 9 \<le> n \<and> n \<le> 13)"

definition TrimSpace :: "string \<Rightarrow> string" where
  "TrimSpace s = rev (dropWhile is_space (rev (dropWhile is_space s)))"

definition digit :: "nat \<Rightarrow> char" where "digit n = char_of (48 + n)"

definition is_digit :: "char \<Rightarrow> bool" where
  "is_digit c \<longleftrightarrow> (let n = of_char c :: nat in 48 \<le> n \<and> n \<le> 57)"

fun Itoa :: "nat \<Rightarrow> string" where
  "Itoa n = (if n < 10 then [digit n] else Itoa (n div 10) @ [digit (n mod 10)])"

declare Itoa.simps [simp del]

lemma char_of_inj: "n < 256 \<Longrightarrow> m < 256 \<Longrightarrow> (char_of n :: char) = char_of (m :: nat) \<longleftrightarrow> n = m"
  by (metis of_char_of mod_less)

lemma of_char_digit: "n < 10 \<Longrightarrow> of_char (digit n) = 48 + n"
  by (simp add: digit_def)

lemma is_digit_digit: "n < 10 \<Longrightarrow> is_digit (digit n)"
  by (simp add: is_digit_def of_char_digit Let_def)

lemma Itoa_digits: "list_all is_digit (Itoa n)"
proof (induction n rule: Itoa.induct)
  case (1 n)
  then show ?case by (subst Itoa.simps) (simp add: is_digit_digit)
qed

lemma Itoa_nonempty [simp]: "Itoa n \<noteq> []"
  by (subst Itoa.simps) simp

text \<open>The number that decimal digits denote; \<open>Itoa\<close> is its inverse.\<close>

fun digits_value :: "string \<Rightarrow> nat" where
  "digits_value [] = 0"
| "digits_value (c # cs) = (of_char c - 48) * 10 ^ length cs + digits_value cs"

lemma digits_value_snoc: "digits_value (cs @ [c]) = digits_value cs * 10 + (of_char c - 48)"
  by (induction cs) (simp_all add: algebra_simps)

lemma digits_value_Itoa [simp]: "digits_value (Itoa n) = n"
proof (induction n rule: Itoa.induct)
  case (1 n)
  then show ?case by (subst Itoa.simps) (auto simp: digits_value_snoc of_char_digit)
qed

lemma Itoa_inject [simp]: "Itoa m = Itoa n \<longleftrightarrow> m = n"
  by (metis digits_value_Itoa)

lemma digit_neq: "\<not> is_digit c \<Longrightarrow> c \<notin> set (Itoa n)"
  using Itoa_digits [of n] by (auto simp: list_all_iff)

lemma not_digits [simp]: "\<not> is_digit (CHR '':'')" "\<not> is_digit (CHR ''['')" "\<not> is_digit (CHR '']'')"
  "\<not> is_digit (CHR ''-'')"
  by (simp_all add: is_digit_def)

section \<open>Numbers with a sign: \<open>strconv.Atoi\<close> and \<open>strconv.ParseInt(s, 10, 64)\<close>\<close>

definition split_sign :: "string \<Rightarrow> bool \<times> string" where
  "split_sign s =
     (case s of
        [] \<Rightarrow> (False, [])
      | c # cs \<Rightarrow> if c = CHR ''-'' then (True, cs) else if c = CHR ''+'' then (False, cs) else (False, s))"

text \<open>\<open>None\<close> is a syntax or range error; an \<open>int\<close> of Go has 64 bits here.\<close>

definition Atoi :: "string \<Rightarrow> int option" where
  "Atoi s =
     (case split_sign s of (neg, ds) \<Rightarrow>
        if ds = [] \<or> \<not> list_all is_digit ds then None
        else let n = int (digits_value ds) in
             if neg then (if n \<le> 2 ^ 63 then Some (- n) else None)
             else (if n < 2 ^ 63 then Some n else None))"

lemma Atoi_range: "Atoi s = Some n \<Longrightarrow> - (2 ^ 63) \<le> n \<and> n < 2 ^ 63"
  by (auto simp: Atoi_def Let_def split: prod.splits if_splits)

lemma digit_not_sign: "is_digit c \<Longrightarrow> c \<noteq> CHR ''-'' \<and> c \<noteq> CHR ''+''"
  by (auto simp: is_digit_def)

lemma Atoi_Itoa [simp]: "n < 2 ^ 63 \<Longrightarrow> Atoi (Itoa n) = Some (int n)"
proof -
  assume n: "n < 2 ^ 63"
  obtain c cs where c: "Itoa n = c # cs" by (cases "Itoa n") auto
  then have "split_sign (Itoa n) = (False, Itoa n)"
    using Itoa_digits [of n] digit_not_sign [of c] by (simp add: split_sign_def)
  with n show ?thesis using Itoa_digits [of n] by (simp add: Atoi_def)
qed

section \<open>Host and port\<close>

definition SplitHostPort :: "string \<Rightarrow> (string \<times> string) option" where
  "SplitHostPort hp =
     (case last_index_byte (CHR '':'') hp of
        None \<Rightarrow> None
      | Some i \<Rightarrow>
          if hp ! 0 = CHR ''['' then
            (case index_byte (CHR '']'') hp of
               None \<Rightarrow> None
             | Some e \<Rightarrow>
                 if e + 1 \<noteq> i then None
                 else if CHR ''['' \<in> set (drop 1 hp) \<or> CHR '']'' \<in> set (drop (e + 1) hp) then None
                 else Some (drop 1 (take e hp), drop (i + 1) hp))
          else if CHR '':'' \<in> set (take i hp) then None
          else if CHR ''['' \<in> set hp \<or> CHR '']'' \<in> set hp then None
          else Some (take i hp, drop (i + 1) hp))"

definition JoinHostPort :: "string \<Rightarrow> string \<Rightarrow> string" where
  "JoinHostPort host port =
     (if CHR '':'' \<in> set host then ''['' @ host @ '']:'' @ port else host @ '':'' @ port)"

definition plain_host :: "string \<Rightarrow> bool" where
  "plain_host h \<longleftrightarrow> CHR ''['' \<notin> set h \<and> CHR '']'' \<notin> set h"

lemma Split_Join:
  assumes "plain_host host" "plain_host port" "CHR '':'' \<notin> set port"
  shows "SplitHostPort (JoinHostPort host port) = Some (host, port)"
proof (cases "CHR '':'' \<in> set host")
  case True
  have "JoinHostPort host port = (CHR ''['' # host @ [CHR '']'']) @ CHR '':'' # port"
    using True by (simp add: JoinHostPort_def)
  moreover have "last_index_byte (CHR '':'') \<dots> = Some (length host + 2)"
    using assms(3) by (subst last_index_byte_append) simp_all
  moreover have "index_byte (CHR '']'') (CHR ''['' # host @ CHR '']'' # CHR '':'' # port) = Some (length host + 1)"
    using assms(1) by (simp add: plain_host_def)
  ultimately show ?thesis using assms by (simp add: SplitHostPort_def plain_host_def)
next
  case False
  have "last_index_byte (CHR '':'') (host @ CHR '':'' # port) = Some (length host)" using assms(3) by simp
  moreover have "(host @ CHR '':'' # port) ! 0 \<noteq> CHR ''[''"
    using assms(1) by (cases host) (auto simp: plain_host_def)
  ultimately show ?thesis using assms False
    by (auto simp: JoinHostPort_def SplitHostPort_def plain_host_def)
qed

lemma SplitHostPort_ne: "SplitHostPort [] = None"
  by (simp add: SplitHostPort_def last_index_byte_def)

section \<open>Strings and bytes\<close>

text \<open>\<open>string(b)\<close>.\<close>

definition string_of :: "bytes \<Rightarrow> string" where
  "string_of bs = map (\<lambda>b. char_of (unat b)) bs"

lemma byte_unat [simp]: "byte (unat b) = b"
  by (simp add: byte_def)

lemma bytes_string [simp]: "string_of (bytes_of s) = s"
proof -
  have "string_of (bytes_of s) = map (\<lambda>c. char_of (unat (of_char c :: u8))) s"
    by (simp add: string_of_def bytes_of_def)
  also have "\<dots> = map (\<lambda>c. c) s"
  proof (rule map_cong [OF refl])
    fix c :: char
    have "(of_char c :: u8) = of_nat (of_char c)" by (simp only: of_nat_of_char)
    moreover have "(of_char c :: nat) < 256" using of_char_mod_256 [of c, where 'a = nat] by linarith
    ultimately have "unat (of_char c :: u8) = of_char c"
      using unat_byte [of "of_char c"] by (simp add: byte_def)
    then show "char_of (unat (of_char c :: u8)) = c" by simp
  qed
  finally show ?thesis by simp
qed

lemma string_bytes [simp]: "bytes_of (string_of bs) = bs"
proof -
  have "(of_char (char_of (unat b) :: char) :: u8) = b" for b :: u8
  proof -
    have l: "unat b < 256" using unsigned_less [of b] by simp
    then have "(of_char (char_of (unat b) :: char) :: nat) = unat b" by simp
    then show ?thesis by (metis byte_def byte_unat of_nat_of_char)
  qed
  then show ?thesis by (simp add: string_of_def bytes_of_def comp_def)
qed

lemma length_bytes_of [simp]: "length (bytes_of s) = length s"
  by (simp add: bytes_of_def)

lemma length_string_of [simp]: "length (string_of bs) = length bs"
  by (simp add: string_of_def)

lemma byte_mod: "byte (p mod 256) = byte p"
  by (simp add: byte_def word_unat_eq_iff unat_of_nat)

lemma split_port:
  assumes "p < 65536"
  shows "unat (byte (p div 256)) * 256 + unat (byte p) = p"
proof -
  have "unat (byte p) = p mod 256" using unat_byte [of "p mod 256"] by (simp add: byte_mod)
  then show ?thesis using assms by (simp add: unat_byte)
qed

lemma port_bytes: "unat h * 256 + unat l = p \<longleftrightarrow> p < 65536 \<and> h = byte (p div 256) \<and> l = byte p"
proof
  assume a: "unat h * 256 + unat l = p"
  have b: "unat l < 256" "unat h < 256" using unsigned_less [of l] unsigned_less [of h] by simp_all
  have "p div 256 = unat h" "p mod 256 = unat l" using a b by auto
  moreover have "byte p = byte (p mod 256)" by (simp add: byte_mod)
  ultimately show "p < 65536 \<and> h = byte (p div 256) \<and> l = byte p" using a b by simp
qed (auto simp: split_port)

end
