(* ===== verification/Conn.thy ===== *)
theory Conn
  imports Prelude
begin

text \<open>
  \<open>conn.go\<close>: \<open>Manager.NewConn\<close> races dial attempts against each other and relays the first that
  answers. Everything but the blocking calls runs as coroutines of one \<open>async.Executor\<close>, one
  at a time and without preemption between two suspensions, so the program is a machine:
  \<open>nc_state\<close> holds \<open>myState\<close> and the captured variables, \<open>nc_step\<close> is what the executor does for
  one event (the result of a blocking call, an expired timer, a coroutine that is resumed),
  and \<open>None\<close> means that the event cannot happen now. The blocking calls (\<open>getRemote\<close>, reads and
  writes) are the events' arguments.
\<close>

section \<open>Options\<close>

type_synonym duration = int   \<comment> \<open>\<open>time.Duration\<close>, in nanoseconds\<close>

record ConnOptions =
  co_Timeout :: duration
  co_Interval :: duration
  co_Parallel :: int
  co_MaxAttempts :: int

abbreviation "second \<equiv> (1000000000 :: int)"

definition "defaultConnTimeout = 10 * second"
definition "defaultConnInterval = 2 * second"
definition "defaultConnParallel = (1 :: int)"
definition "defaultConnMaxAttempts = (30 :: int)"
definition "maxRequestSize = (32768 :: nat)"

text \<open>The first of given, configured and default value that is positive.\<close>

definition or_default :: "int \<Rightarrow> int \<Rightarrow> int \<Rightarrow> int" where
  "or_default given configured dflt =
     (if given \<le> 0 then (if configured \<le> 0 then dflt else configured) else given)"

definition SetConnOptions :: "ConnOptions \<Rightarrow> ConnOptions \<Rightarrow> ConnOptions" where
  "SetConnOptions m opts = m\<lparr>co_Timeout := co_Timeout opts, co_Interval := co_Interval opts,
     co_Parallel := co_Parallel opts, co_MaxAttempts := co_MaxAttempts opts\<rparr>"

definition conn_options :: "ConnOptions \<Rightarrow> ConnOptions \<Rightarrow> ConnOptions" where
  "conn_options m opts = \<lparr>
     co_Timeout = or_default (co_Timeout opts) (co_Timeout m) defaultConnTimeout,
     co_Interval = or_default (co_Interval opts) (co_Interval m) defaultConnInterval,
     co_Parallel = or_default (co_Parallel opts) (co_Parallel m) defaultConnParallel,
     co_MaxAttempts = or_default (co_MaxAttempts opts) (co_MaxAttempts m) defaultConnMaxAttempts\<rparr>"

section \<open>State\<close>

datatype timer = Stopped | Running | Fired   \<comment> \<open>\<open>Fired\<close>: its function is queued or has run\<close>

text \<open>Where the coroutine of an attempt stands.\<close>

datatype attempt_pc =
    Dialing          \<comment> \<open>\<open>co.Await(&remote)\<close>\<close>
  | Waiting          \<comment> \<open>\<open>co.Await(&resp)\<close>\<close>
  | Winning          \<comment> \<open>the block of awaits of the winner\<close>
  | Relaying         \<comment> \<open>\<open>m.Relay\<close> runs\<close>
  | Closing          \<comment> \<open>the deferred awaits\<close>
  | Ended

datatype sender = NoSender | SendIdle | Sending nat | SendDone   \<comment> \<open>\<open>Sending m\<close>: writing up to byte \<open>m\<close>\<close>

datatype after_func = NotSet | Armed | Queued | Over   \<comment> \<open>\<open>context.AfterFunc\<close> and its wait group\<close>

record attempt =
  a_pc :: attempt_pc
  a_timer :: timer
  a_cancelled :: bool          \<comment> \<open>\<open>ctx\<close> is done\<close>
  a_sender :: sender
  a_sent :: nat                \<comment> \<open>\<open>sr.sent\<close>\<close>
  a_stop :: bool               \<comment> \<open>\<open>sr.stop\<close>\<close>
  a_after :: after_func
  a_winner :: bool             \<comment> \<open>\<open>thisIsTheWinner\<close>\<close>
  a_written :: bytes           \<comment> \<open>what the remote side was written so far\<close>

datatype loop_pc = Checking | Awaiting | LoopClosing | LoopDone

record nc_state =
  nc_opts :: ConnOptions
  rr_done :: bool
  rr_stop :: bool              \<comment> \<open>and the read deadline of \<open>pipeLeft\<close> is set\<close>
  req_data :: bytes
  cl_done :: bool
  cl_stop :: bool
  cl_newconn :: bool
  cl_n :: nat                  \<comment> \<open>\<open>connections.n\<close>\<close>
  cl_attempts :: nat
  cl_timer :: timer
  cl_timerRunning :: bool
  cl_pc :: loop_pc
  hasWinner :: bool
  attempts :: "attempt list"
  lc_log :: "bool list"        \<comment> \<open>life cycle events: \<open>True\<close> is \<open>ConnEventResponse\<close>\<close>

definition nc_start :: "ConnOptions \<Rightarrow> nc_state" where
  "nc_start opts = \<lparr>nc_opts = opts, rr_done = False, rr_stop = False, req_data = [],
     cl_done = False, cl_stop = False, cl_newconn = True, cl_n = 0, cl_attempts = 0,
     cl_timer = Stopped, cl_timerRunning = False, cl_pc = Checking, hasWinner = False,
     attempts = [], lc_log = []\<rparr>"

definition new_attempt :: attempt where
  "new_attempt = \<lparr>a_pc = Dialing, a_timer = Running, a_cancelled = False, a_sender = NoSender,
     a_sent = 0, a_stop = False, a_after = NotSet, a_winner = False, a_written = []\<rparr>"

section \<open>Reading the request\<close>

text \<open>
  One read of \<open>pipeLeft\<close>: data, and whether it failed (end of file, the deadline, a closed
  pipe). After a failure, or too much data, the deferred block stops the connection loop.
\<close>

definition client_read :: "bytes \<Rightarrow> bool \<Rightarrow> nc_state \<Rightarrow> nc_state option" where
  "client_read data err s =
     (if rr_done s then None
      else
        let s1 = s\<lparr>req_data := req_data s @ data\<rparr>
        in if err \<or> length (req_data s1) \<ge> maxRequestSize
           then Some (s1\<lparr>cl_stop := True, rr_done := True\<rparr>)
           else Some s1)"

section \<open>The connection loop\<close>

definition stop_timer :: "nc_state \<Rightarrow> nc_state" where
  "stop_timer s =
     (if cl_timer s = Running
      then s\<lparr>cl_timer := Stopped, cl_newconn := True, cl_timerRunning := False\<rparr> else s)"

definition start_timer :: "nc_state \<Rightarrow> nc_state" where
  "start_timer s = s\<lparr>cl_newconn := False, cl_timerRunning := True, cl_timer := Running\<rparr>"

text \<open>The check at the head of the loop, \<open>newConn\<close> and \<open>stopTimer\<close>.\<close>

definition loop_check :: "nc_state \<Rightarrow> nc_state option" where
  "loop_check s =
     (if cl_pc s \<noteq> Checking then None
      else if cl_stop s then Some ((stop_timer s)\<lparr>cl_pc := LoopClosing\<rparr>)
      else if \<not> cl_newconn s then None
      else if int (cl_n s) \<ge> co_Parallel (nc_opts s) then None
      else if int (cl_attempts s) \<ge> co_MaxAttempts (nc_opts s)
      then (if cl_n s \<noteq> 0 then None
            else Some ((stop_timer (s\<lparr>lc_log := lc_log s @ [False]\<rparr>))\<lparr>cl_pc := LoopClosing\<rparr>))
      else Some ((stop_timer (s\<lparr>cl_n := cl_n s + 1, cl_attempts := cl_attempts s + 1,
                    attempts := attempts s @ [new_attempt]\<rparr>))\<lparr>cl_pc := Awaiting\<rparr>))"

text \<open>\<open>awaitTimer\<close>, then \<open>startTimer\<close> or the end of the loop.\<close>

definition loop_await :: "nc_state \<Rightarrow> nc_state option" where
  "loop_await s =
     (if cl_timerRunning s then None
      else case cl_pc s of
        Awaiting \<Rightarrow> Some ((start_timer s)\<lparr>cl_pc := Checking\<rparr>)
      | LoopClosing \<Rightarrow> Some (s\<lparr>cl_done := True, cl_pc := LoopDone\<rparr>)
      | _ \<Rightarrow> None)"

definition timer_fires :: "nc_state \<Rightarrow> nc_state option" where
  "timer_fires s = (if cl_timer s = Running then Some (s\<lparr>cl_timer := Fired\<rparr>) else None)"

definition timer_callback :: "nc_state \<Rightarrow> nc_state option" where
  "timer_callback s =
     (if cl_timer s = Fired
      then Some (s\<lparr>cl_timer := Stopped, cl_newconn := True, cl_timerRunning := False\<rparr>) else None)"

section \<open>Attempts\<close>

definition upd_attempt :: "nat \<Rightarrow> (attempt \<Rightarrow> attempt) \<Rightarrow> nc_state \<Rightarrow> nc_state" where
  "upd_attempt i f s = s\<lparr>attempts := (attempts s)[i := f (attempts s ! i)]\<rparr>"

abbreviation "att s i \<equiv> attempts s ! i"

definition stop_after_func :: "attempt \<Rightarrow> attempt" where
  "stop_after_func a = (if a_after a = Armed then a\<lparr>a_after := Over\<rparr> else a)"

text \<open>The function deferred first: close the remote side, stop the timer, cancel, count down.\<close>

definition end_attempt :: "nat \<Rightarrow> nc_state \<Rightarrow> nc_state" where
  "end_attempt i s =
     (upd_attempt i (\<lambda>a. a\<lparr>a_pc := Ended, a_timer := Stopped, a_cancelled := True\<rparr>) s)\<lparr>cl_n := cl_n s - 1\<rparr>"

text \<open>\<open>getRemote\<close> returned: with a connection or not, and whether its error is \<open>CloseConn\<close>.\<close>

definition dialed :: "nat \<Rightarrow> bool \<Rightarrow> bool \<Rightarrow> nc_state \<Rightarrow> nc_state option" where
  "dialed i connected closeConn s =
     (if \<not> (i < length (attempts s) \<and> a_pc (att s i) = Dialing) then None
      else
        let s1 = (if closeConn then s\<lparr>rr_stop := True\<rparr> else s)
        in if \<not> connected then Some (end_attempt i s1)
           else Some (upd_attempt i (\<lambda>a. a\<lparr>a_pc := Waiting, a_sender := SendIdle, a_after := Armed\<rparr>) s1))"

text \<open>The loop of \<open>sendRequest\<close>: the check, and the result of a write.\<close>

definition send_check :: "nat \<Rightarrow> nc_state \<Rightarrow> nc_state option" where
  "send_check i s =
     (if \<not> (i < length (attempts s) \<and> a_sender (att s i) = SendIdle) then None
      else if a_stop (att s i) then Some (upd_attempt i (\<lambda>a. a\<lparr>a_sender := SendDone\<rparr>) s)
      else if a_sent (att s i) = length (req_data s) then None
      else Some (upd_attempt i (\<lambda>a. a\<lparr>a_sender := Sending (length (req_data s))\<rparr>) s))"

definition sent_bytes :: "nat \<Rightarrow> nat \<Rightarrow> bool \<Rightarrow> nc_state \<Rightarrow> nc_state option" where
  "sent_bytes i n err s =
     (if \<not> i < length (attempts s) then None
      else case a_sender (att s i) of
        Sending m \<Rightarrow>
          let bytesToSend = drop (a_sent (att s i)) (take m (req_data s))
          in if n > length bytesToSend then None
             else Some (upd_attempt i (\<lambda>a. a\<lparr>a_written := a_written a @ take n bytesToSend,
                    a_sent := a_sent a + n, a_sender := if err then SendDone else SendIdle\<rparr>) s)
      | _ \<Rightarrow> None)"

text \<open>The first byte of the response, or an error of the first read.\<close>

definition response :: "nat \<Rightarrow> bool \<Rightarrow> nc_state \<Rightarrow> nc_state option" where
  "response i err s =
     (if \<not> (i < length (attempts s) \<and> a_pc (att s i) = Waiting) then None
      else if err \<or> a_timer (att s i) \<noteq> Running
      then Some (upd_attempt i (\<lambda>a. stop_after_func (a\<lparr>a_pc := Closing, a_stop := True\<rparr>)) s)
      else if hasWinner s
      then Some (upd_attempt i (\<lambda>a. stop_after_func (a\<lparr>a_timer := Stopped, a_pc := Closing, a_stop := True\<rparr>)) s)
      else Some ((upd_attempt i (\<lambda>a. stop_after_func
                   (a\<lparr>a_timer := Stopped, a_pc := Winning, a_winner := True, a_stop := True\<rparr>)) s)
                 \<lparr>hasWinner := True, lc_log := lc_log s @ [True], cl_stop := True, rr_stop := True\<rparr>))"

definition win_await :: "nat \<Rightarrow> nc_state \<Rightarrow> nc_state option" where
  "win_await i s =
     (if i < length (attempts s) \<and> a_pc (att s i) = Winning \<and> cl_done s \<and> rr_done s \<and>
         a_sender (att s i) = SendDone \<and> a_after (att s i) = Over
      then Some (upd_attempt i (\<lambda>a. a\<lparr>a_pc := Relaying\<rparr>) s) else None)"

text \<open>What \<open>Relay\<close> writes first to the remote side: the part of the request not yet sent.\<close>

definition relay_prefix :: "nat \<Rightarrow> nc_state \<Rightarrow> bytes" where
  "relay_prefix i s =
     (if a_sent (att s i) < length (req_data s) then drop (a_sent (att s i)) (req_data s) else [])"

definition relay_ends :: "nat \<Rightarrow> nc_state \<Rightarrow> nc_state option" where
  "relay_ends i s =
     (if i < length (attempts s) \<and> a_pc (att s i) = Relaying
      then Some (upd_attempt i (\<lambda>a. stop_after_func (a\<lparr>a_pc := Closing, a_stop := True\<rparr>)) s) else None)"

definition close_await :: "nat \<Rightarrow> nc_state \<Rightarrow> nc_state option" where
  "close_await i s =
     (if i < length (attempts s) \<and> a_pc (att s i) = Closing \<and>
         a_sender (att s i) = SendDone \<and> a_after (att s i) = Over
      then Some (end_attempt i s) else None)"

text \<open>The timer of the attempt, the end of the loop for all but the winner, \<open>context.AfterFunc\<close>.\<close>

definition attempt_timeout :: "nat \<Rightarrow> nc_state \<Rightarrow> nc_state option" where
  "attempt_timeout i s =
     (if i < length (attempts s) \<and> a_timer (att s i) = Running
      then Some (upd_attempt i (\<lambda>a. a\<lparr>a_timer := Fired, a_cancelled := True\<rparr>) s) else None)"

definition cancel_loser :: "nat \<Rightarrow> nc_state \<Rightarrow> nc_state option" where
  "cancel_loser i s =
     (if i < length (attempts s) \<and> cl_done s \<and> \<not> a_winner (att s i) \<and> \<not> a_cancelled (att s i)
      then Some (upd_attempt i (\<lambda>a. a\<lparr>a_cancelled := True\<rparr>) s) else None)"

definition after_runs :: "nat \<Rightarrow> nc_state \<Rightarrow> nc_state option" where
  "after_runs i s =
     (if i < length (attempts s) \<and> a_after (att s i) = Armed \<and> a_cancelled (att s i)
      then Some (upd_attempt i (\<lambda>a. a\<lparr>a_after := Queued\<rparr>) s) else None)"

definition after_callback :: "nat \<Rightarrow> nc_state \<Rightarrow> nc_state option" where
  "after_callback i s =
     (if i < length (attempts s) \<and> a_after (att s i) = Queued
      then Some (upd_attempt i (\<lambda>a. a\<lparr>a_after := Over\<rparr>) s) else None)"

section \<open>The machine\<close>

datatype nc_event =
    ClientRead bytes bool | LoopCheck | LoopAwait | TimerFires | TimerCallback
  | Dialed nat bool bool | SendCheck nat | SentBytes nat nat bool | Response nat bool
  | WinAwait nat | RelayEnds nat | CloseAwait nat
  | Timeout nat | CancelLoser nat | AfterRuns nat | AfterCallback nat

fun nc_step :: "nc_event \<Rightarrow> nc_state \<Rightarrow> nc_state option" where
  "nc_step (ClientRead data err) = client_read data err"
| "nc_step LoopCheck = loop_check"
| "nc_step LoopAwait = loop_await"
| "nc_step TimerFires = timer_fires"
| "nc_step TimerCallback = timer_callback"
| "nc_step (Dialed i connected closeConn) = dialed i connected closeConn"
| "nc_step (SendCheck i) = send_check i"
| "nc_step (SentBytes i n err) = sent_bytes i n err"
| "nc_step (Response i err) = response i err"
| "nc_step (WinAwait i) = win_await i"
| "nc_step (RelayEnds i) = relay_ends i"
| "nc_step (CloseAwait i) = close_await i"
| "nc_step (Timeout i) = attempt_timeout i"
| "nc_step (CancelLoser i) = cancel_loser i"
| "nc_step (AfterRuns i) = after_runs i"
| "nc_step (AfterCallback i) = after_callback i"

fun nc_run :: "nc_event list \<Rightarrow> nc_state \<Rightarrow> nc_state option" where
  "nc_run [] s = Some s"
| "nc_run (e # es) s = (case nc_step e s of None \<Rightarrow> None | Some s' \<Rightarrow> nc_run es s')"

text \<open>A client whose reads are at most as long as \<open>buf\<close>, 8 KiB.\<close>

fun event_ok :: "nc_event \<Rightarrow> bool" where
  "event_ok (ClientRead data err) \<longleftrightarrow> length data \<le> 8192"
| "event_ok _ \<longleftrightarrow> True"

inductive nc_reachable :: "ConnOptions \<Rightarrow> nc_state \<Rightarrow> bool" for opts where
  start: "nc_reachable opts (nc_start opts)"
| step: "nc_reachable opts s \<Longrightarrow> event_ok e \<Longrightarrow> nc_step e s = Some s' \<Longrightarrow> nc_reachable opts s'"

lemma nc_run_reachable:
  "nc_reachable opts s \<Longrightarrow> list_all event_ok es \<Longrightarrow> nc_run es s = Some s' \<Longrightarrow> nc_reachable opts s'"
  by (induction es arbitrary: s) (auto split: option.splits intro: nc_reachable.step)

section \<open>Invariants\<close>

text \<open>An attempt, given the request so far and the ends of the two loops.\<close>

definition att_data :: "bytes \<Rightarrow> attempt \<Rightarrow> bool" where
  "att_data req a \<longleftrightarrow>
     a_sent a \<le> length req \<and> a_written a = take (a_sent a) req \<and>
     (\<forall>m. a_sender a = Sending m \<longrightarrow> a_sent a \<le> m \<and> m \<le> length req)"

definition att_shape :: "attempt \<Rightarrow> bool" where
  "att_shape a \<longleftrightarrow>
     (case a_pc a of
        Dialing \<Rightarrow> \<not> a_winner a \<and> a_sender a = NoSender
      | Waiting \<Rightarrow> \<not> a_winner a \<and> a_sender a \<noteq> NoSender \<and> a_after a \<noteq> NotSet
      | Winning \<Rightarrow> a_winner a \<and> a_sender a \<noteq> NoSender \<and> a_after a \<noteq> NotSet \<and> a_stop a \<and> a_after a \<noteq> Armed
      | Relaying \<Rightarrow> a_winner a \<and> a_sender a = SendDone \<and> a_after a \<noteq> NotSet \<and> a_stop a \<and> a_after a \<noteq> Armed
      | Closing \<Rightarrow> a_sender a \<noteq> NoSender \<and> a_after a \<noteq> NotSet \<and> a_stop a \<and> a_after a \<noteq> Armed
      | Ended \<Rightarrow> True)"

definition att_ok :: "bytes \<Rightarrow> bool \<Rightarrow> attempt \<Rightarrow> bool" where
  "att_ok req quiet a \<longleftrightarrow> att_data req a \<and> att_shape a \<and> (a_pc a = Relaying \<longrightarrow> quiet)"

definition quiet :: "nc_state \<Rightarrow> bool" where
  "quiet s \<longleftrightarrow> rr_done s \<and> cl_done s"

definition atts_ok :: "nc_state \<Rightarrow> bool" where
  "atts_ok s \<longleftrightarrow> (\<forall>i < length (attempts s). att_ok (req_data s) (quiet s) (att s i))"

definition live_count :: "attempt list \<Rightarrow> nat" where
  "live_count as = length (filter (\<lambda>a. a_pc a \<noteq> Ended) as)"

definition winner_count :: "attempt list \<Rightarrow> nat" where
  "winner_count as = length (filter a_winner as)"

definition loop_ok :: "nc_state \<Rightarrow> bool" where
  "loop_ok s \<longleftrightarrow>
     cl_n s = live_count (attempts s) \<and> int (cl_n s) \<le> co_Parallel (nc_opts s) \<and>
     cl_attempts s = length (attempts s) \<and> int (cl_attempts s) \<le> co_MaxAttempts (nc_opts s) \<and>
     (cl_newconn s \<longleftrightarrow> \<not> cl_timerRunning s) \<and> (cl_timerRunning s \<longleftrightarrow> cl_timer s \<noteq> Stopped) \<and>
     (cl_done s \<longleftrightarrow> cl_pc s = LoopDone) \<and> (cl_pc s = LoopDone \<longrightarrow> \<not> cl_timerRunning s) \<and>
     (cl_pc s \<in> {LoopClosing, LoopDone} \<longrightarrow> cl_stop s \<or> cl_n s = 0)"

definition win_ok :: "nc_state \<Rightarrow> bool" where
  "win_ok s \<longleftrightarrow>
     winner_count (attempts s) = (if hasWinner s then 1 else 0) \<and>
     length (filter id (lc_log s)) = (if hasWinner s then 1 else 0) \<and>
     (hasWinner s \<longrightarrow> cl_stop s) \<and> (rr_done s \<longrightarrow> cl_stop s)"

definition req_ok :: "nc_state \<Rightarrow> bool" where
  "req_ok s \<longleftrightarrow> (\<not> rr_done s \<longrightarrow> length (req_data s) < maxRequestSize) \<and>
     length (req_data s) < maxRequestSize + 8192"

lemma upd_attempt_sel [simp]:
  "nc_opts (upd_attempt i f s) = nc_opts s" "rr_done (upd_attempt i f s) = rr_done s"
  "rr_stop (upd_attempt i f s) = rr_stop s" "req_data (upd_attempt i f s) = req_data s"
  "cl_done (upd_attempt i f s) = cl_done s" "cl_stop (upd_attempt i f s) = cl_stop s"
  "cl_newconn (upd_attempt i f s) = cl_newconn s" "cl_n (upd_attempt i f s) = cl_n s"
  "cl_attempts (upd_attempt i f s) = cl_attempts s" "cl_timer (upd_attempt i f s) = cl_timer s"
  "cl_timerRunning (upd_attempt i f s) = cl_timerRunning s" "cl_pc (upd_attempt i f s) = cl_pc s"
  "hasWinner (upd_attempt i f s) = hasWinner s" "lc_log (upd_attempt i f s) = lc_log s"
  "attempts (upd_attempt i f s) = (attempts s)[i := f (att s i)]"
  by (simp_all add: upd_attempt_def)

lemma stop_timer_sel [simp]:
  "nc_opts (stop_timer s) = nc_opts s" "rr_done (stop_timer s) = rr_done s"
  "req_data (stop_timer s) = req_data s" "cl_done (stop_timer s) = cl_done s"
  "cl_stop (stop_timer s) = cl_stop s" "cl_n (stop_timer s) = cl_n s"
  "cl_attempts (stop_timer s) = cl_attempts s" "cl_pc (stop_timer s) = cl_pc s"
  "hasWinner (stop_timer s) = hasWinner s" "lc_log (stop_timer s) = lc_log s"
  "attempts (stop_timer s) = attempts s"
  by (simp_all add: stop_timer_def)

lemma filter_update_count:
  "i < length xs \<Longrightarrow> length (filter P (xs[i := y])) + (if P (xs ! i) then 1 else 0) =
     length (filter P xs) + (if P y then 1 else 0)"
proof (induction xs arbitrary: i)
  case (Cons x xs)
  then show ?case by (cases i) auto
qed simp

text \<open>An update of one attempt that keeps the counts.\<close>

lemma live_count_upd:
  assumes "i < length as"
  shows "live_count (as[i := y]) + (if a_pc (as ! i) \<noteq> Ended then 1 else 0) =
    live_count as + (if a_pc y \<noteq> Ended then 1 else 0)"
  unfolding live_count_def by (rule filter_update_count [OF assms])

lemma winner_count_upd:
  assumes "i < length as"
  shows "winner_count (as[i := y]) + (if a_winner (as ! i) then 1 else 0) =
    winner_count as + (if a_winner y then 1 else 0)"
  unfolding winner_count_def by (rule filter_update_count [OF assms])

lemma stop_after_func_sel [simp]:
  "a_pc (stop_after_func a) = a_pc a" "a_timer (stop_after_func a) = a_timer a"
  "a_cancelled (stop_after_func a) = a_cancelled a" "a_sender (stop_after_func a) = a_sender a"
  "a_sent (stop_after_func a) = a_sent a" "a_stop (stop_after_func a) = a_stop a"
  "a_winner (stop_after_func a) = a_winner a" "a_written (stop_after_func a) = a_written a"
  "a_after (stop_after_func a) \<noteq> Armed" "a_after (stop_after_func a) = NotSet \<longleftrightarrow> a_after a = NotSet"
  by (auto simp: stop_after_func_def)

lemma att_ok_append: "att_ok req q a \<Longrightarrow> (q \<longrightarrow> q') \<Longrightarrow> att_ok (req @ d) q' a"
  by (auto simp: att_ok_def att_data_def)

lemma atts_ok_upd:
  assumes "atts_ok s" "req_data s' = req_data s" "quiet s \<longrightarrow> quiet s'" "attempts s' = (attempts s)[i := y]"
    and "i < length (attempts s) \<Longrightarrow> att_ok (req_data s) (quiet s) (att s i) \<Longrightarrow> att_ok (req_data s) (quiet s') y"
  shows "atts_ok s'"
  unfolding atts_ok_def
proof (intro allI impI)
  fix j assume j: "j < length (attempts s')"
  have old: "att_ok (req_data s) (quiet s) (att s k)" if "k < length (attempts s)" for k
    using assms(1) that by (simp add: atts_ok_def)
  show "att_ok (req_data s') (quiet s') (att s' j)"
  proof (cases "j = i")
    case True
    then show ?thesis using j assms old by simp
  next
    case False
    then show ?thesis using j assms att_ok_append [OF old, of j "quiet s'" "[]"] by simp
  qed
qed

definition nc_inv :: "nc_state \<Rightarrow> bool" where
  "nc_inv s \<longleftrightarrow> atts_ok s \<and> loop_ok s \<and> win_ok s \<and> req_ok s"

lemma upd_keeps:
  assumes inv: "nc_inv s" and i: "i < length (attempts s)"
    and y: "att_ok (req_data s) (quiet s) (att s i) \<Longrightarrow> att_ok (req_data s) (quiet s) (f (att s i))"
    and e: "a_pc (f (att s i)) = Ended \<longleftrightarrow> a_pc (att s i) = Ended" "a_winner (f (att s i)) = a_winner (att s i)"
  shows "nc_inv (upd_attempt i f s)"
proof -
  have q: "quiet (upd_attempt i f s) = quiet s" by (simp add: quiet_def)
  have a: "atts_ok (upd_attempt i f s)"
    using atts_ok_upd [of s "upd_attempt i f s" i "f (att s i)"] inv y i q by (simp add: nc_inv_def)
  have "live_count ((attempts s)[i := f (att s i)]) = live_count (attempts s)"
    using live_count_upd [OF i, of "f (att s i)"] e(1) by (simp split: if_splits)
  moreover have "winner_count ((attempts s)[i := f (att s i)]) = winner_count (attempts s)"
    using winner_count_upd [OF i, of "f (att s i)"] e(2) by (simp split: if_splits)
  ultimately have "loop_ok (upd_attempt i f s)" "win_ok (upd_attempt i f s)" "req_ok (upd_attempt i f s)"
    using inv by (auto simp: nc_inv_def loop_ok_def win_ok_def req_ok_def)
  with a show ?thesis by (simp add: nc_inv_def)
qed

lemma nc_inv_att: "nc_inv s \<Longrightarrow> i < length (attempts s) \<Longrightarrow> att_ok (req_data s) (quiet s) (att s i)"
  by (simp add: nc_inv_def atts_ok_def)

lemma end_attempt_inv:
  assumes inv: "nc_inv s" and i: "i < length (attempts s)" and p: "a_pc (att s i) \<noteq> Ended"
  shows "nc_inv (end_attempt i s)"
proof -
  let ?y = "(att s i)\<lparr>a_pc := Ended, a_timer := Stopped, a_cancelled := True\<rparr>"
  have q: "quiet (end_attempt i s) = quiet s" by (simp add: quiet_def end_attempt_def)
  have "atts_ok (end_attempt i s)"
    using atts_ok_upd [of s "end_attempt i s" i ?y] inv i q
    by (simp add: nc_inv_def end_attempt_def att_ok_def att_data_def att_shape_def)
  moreover have "live_count ((attempts s)[i := ?y]) + 1 = live_count (attempts s)"
    using live_count_upd [OF i, of ?y] p by simp
  moreover have "winner_count ((attempts s)[i := ?y]) = winner_count (attempts s)"
    using winner_count_upd [OF i, of ?y] by (simp split: if_splits)
  ultimately show ?thesis using inv
    by (auto simp: nc_inv_def loop_ok_def win_ok_def req_ok_def end_attempt_def)
qed

lemma client_read_inv:
  assumes inv: "nc_inv s" and r: "client_read d err s = Some s'" and d: "length d \<le> 8192"
  shows "nc_inv s'"
proof -
  have n: "\<not> rr_done s" using r by (simp add: client_read_def split: if_splits)
  then have len: "length (req_data s) < maxRequestSize" using inv by (simp add: nc_inv_def req_ok_def)
  have s': "s' = (if err \<or> length (req_data s @ d) \<ge> maxRequestSize
      then s\<lparr>req_data := req_data s @ d, cl_stop := True, rr_done := True\<rparr> else s\<lparr>req_data := req_data s @ d\<rparr>)"
    using r n by (auto simp: client_read_def Let_def)
  have "attempts s' = attempts s" "req_data s' = req_data s @ d" "quiet s \<longrightarrow> quiet s'"
    by (auto simp: s' quiet_def)
  then have "atts_ok s'"
    using inv att_ok_append [of "req_data s" "quiet s" _ "quiet s'" d] unfolding nc_inv_def atts_ok_def by metis
  moreover have "loop_ok s'" using inv by (auto simp: s' nc_inv_def loop_ok_def)
  moreover have "win_ok s'" using inv n by (auto simp: s' nc_inv_def win_ok_def)
  moreover have "req_ok s'" using len d by (auto simp: s' req_ok_def n)
  ultimately show ?thesis by (simp add: nc_inv_def)
qed

lemma stop_timer_inv: "loop_ok s \<Longrightarrow> loop_ok (stop_timer s)"
  by (auto simp: loop_ok_def stop_timer_def)

lemma quiet_mono:
  assumes "atts_ok s" "attempts s' = attempts s" "req_data s' = req_data s" "quiet s \<longrightarrow> quiet s'"
  shows "atts_ok s'"
  using assms att_ok_append [of "req_data s" "quiet s" _ "quiet s'" "[]"] by (simp add: atts_ok_def)

lemma new_attempt_ok [simp]: "att_ok req q new_attempt"
  by (simp add: att_ok_def att_data_def att_shape_def new_attempt_def)

lemma loop_check_inv:
  assumes inv: "nc_inv s" and r: "loop_check s = Some s'"
  shows "nc_inv s'"
proof -
  have pc: "cl_pc s = Checking" using r by (simp add: loop_check_def split: if_splits)
  have nd: "\<not> cl_done s" using inv pc by (simp add: nc_inv_def loop_ok_def)
  have lo: "loop_ok s" using inv by (simp add: nc_inv_def)
  consider (stop) "cl_stop s" "s' = (stop_timer s)\<lparr>cl_pc := LoopClosing\<rparr>"
    | (max) "cl_n s = 0" "s' = (stop_timer (s\<lparr>lc_log := lc_log s @ [False]\<rparr>))\<lparr>cl_pc := LoopClosing\<rparr>"
    | (new) "int (cl_n s) < co_Parallel (nc_opts s)" "int (cl_attempts s) < co_MaxAttempts (nc_opts s)"
      "s' = (stop_timer (s\<lparr>cl_n := cl_n s + 1, cl_attempts := cl_attempts s + 1,
                    attempts := attempts s @ [new_attempt]\<rparr>))\<lparr>cl_pc := Awaiting\<rparr>"
    using r pc unfolding loop_check_def by (simp split: if_splits)
  then show ?thesis
  proof cases
    case stop
    have "atts_ok s'" by (rule quiet_mono [of s]) (use inv nd in \<open>auto simp: stop nc_inv_def quiet_def\<close>)
    moreover have "loop_ok s'" using stop_timer_inv [OF lo] stop(1) nd by (auto simp: stop loop_ok_def)
    ultimately show ?thesis using inv by (simp add: stop nc_inv_def win_ok_def req_ok_def)
  next
    case max
    have "atts_ok s'" by (rule quiet_mono [of s]) (use inv nd in \<open>auto simp: max nc_inv_def quiet_def\<close>)
    moreover have "loop_ok (s\<lparr>lc_log := lc_log s @ [False]\<rparr>)" using lo by (auto simp: loop_ok_def)
    from stop_timer_inv [OF this] have "loop_ok s'" using max(1) nd by (auto simp: max loop_ok_def)
    ultimately show ?thesis using inv by (simp add: max nc_inv_def win_ok_def req_ok_def)
  next
    case new
    let ?t = "s\<lparr>cl_n := cl_n s + 1, cl_attempts := cl_attempts s + 1, attempts := attempts s @ [new_attempt]\<rparr>"
    have a: "attempts s' = attempts s @ [new_attempt]" "req_data s' = req_data s" "quiet s' = quiet s"
      by (simp_all add: new quiet_def)
    have "atts_ok s'" using inv a by (auto simp: nc_inv_def atts_ok_def nth_append less_Suc_eq)
    moreover have "loop_ok ?t" using lo new(1,2) pc
      by (simp add: loop_ok_def live_count_def new_attempt_def)
    from stop_timer_inv [OF this] have "loop_ok s'" using nd pc by (auto simp: new loop_ok_def)
    ultimately show ?thesis using inv
      by (simp add: new nc_inv_def win_ok_def req_ok_def winner_count_def new_attempt_def)
  qed
qed

lemma loop_await_inv:
  assumes inv: "nc_inv s" and r: "loop_await s = Some s'"
  shows "nc_inv s'"
proof -
  have t: "\<not> cl_timerRunning s" using r by (simp add: loop_await_def split: if_splits)
  then consider (go) "cl_pc s = Awaiting" "s' = (start_timer s)\<lparr>cl_pc := Checking\<rparr>"
    | (fin) "cl_pc s = LoopClosing" "s' = s\<lparr>cl_done := True, cl_pc := LoopDone\<rparr>"
    using r by (auto simp: loop_await_def split: loop_pc.splits)
  then show ?thesis
  proof cases
    case go
    have nd: "\<not> cl_done s" using inv go by (simp add: nc_inv_def loop_ok_def)
    have "atts_ok s'" by (rule quiet_mono [of s]) (use inv nd in \<open>auto simp: go nc_inv_def quiet_def start_timer_def\<close>)
    moreover have "loop_ok s'" using inv go nd t by (auto simp: nc_inv_def loop_ok_def start_timer_def)
    ultimately show ?thesis using inv go by (simp add: nc_inv_def win_ok_def req_ok_def start_timer_def)
  next
    case fin
    have "atts_ok s'" by (rule quiet_mono [of s]) (use inv in \<open>auto simp: fin nc_inv_def quiet_def\<close>)
    moreover have "loop_ok s'" using inv fin t by (auto simp: nc_inv_def loop_ok_def)
    ultimately show ?thesis using inv fin by (simp add: nc_inv_def win_ok_def req_ok_def)
  qed
qed

lemma timer_inv:
  assumes inv: "nc_inv s" and r: "timer_fires s = Some s' \<or> timer_callback s = Some s'"
  shows "nc_inv s'"
proof -
  have "atts_ok s'" by (rule quiet_mono [of s])
    (use inv r in \<open>auto simp: nc_inv_def quiet_def timer_fires_def timer_callback_def split: if_splits\<close>)
  moreover have "loop_ok s'" using inv r
    by (auto simp: nc_inv_def loop_ok_def timer_fires_def timer_callback_def split: if_splits)
  ultimately show ?thesis using inv r
    by (auto simp: nc_inv_def win_ok_def req_ok_def timer_fires_def timer_callback_def split: if_splits)
qed

lemmas att_defs = att_ok_def att_data_def att_shape_def

lemma dialed_inv:
  assumes inv: "nc_inv s" and r: "dialed i c cc s = Some s'"
  shows "nc_inv s'"
proof -
  let ?s1 = "if cc then s\<lparr>rr_stop := True\<rparr> else s"
  have i: "i < length (attempts s)" "a_pc (att s i) = Dialing"
    using r by (auto simp: dialed_def split: if_splits)
  have "atts_ok ?s1" by (rule quiet_mono [of s]) (use inv in \<open>auto simp: nc_inv_def quiet_def\<close>)
  moreover have "loop_ok ?s1" using inv by (auto simp: nc_inv_def loop_ok_def)
  ultimately have inv1: "nc_inv ?s1" using inv by (auto simp: nc_inv_def win_ok_def req_ok_def)
  have i1: "i < length (attempts ?s1)" "att ?s1 i = att s i" using i by auto
  have "s' = (if \<not> c then end_attempt i ?s1 else
      upd_attempt i (\<lambda>a. a\<lparr>a_pc := Waiting, a_sender := SendIdle, a_after := Armed\<rparr>) ?s1)"
    using r i by (auto simp: dialed_def Let_def)
  moreover have "nc_inv (end_attempt i ?s1)" using end_attempt_inv [OF inv1 i1(1)] i1(2) i(2) by simp
  moreover have "nc_inv (upd_attempt i (\<lambda>a. a\<lparr>a_pc := Waiting, a_sender := SendIdle, a_after := Armed\<rparr>) ?s1)"
    by (rule upd_keeps [OF inv1 i1(1)]) (use i(2) in \<open>auto simp: i1(2) att_defs\<close>)
  ultimately show ?thesis by presburger
qed

lemma send_check_inv:
  assumes inv: "nc_inv s" and r: "send_check i s = Some s'"
  shows "nc_inv s'"
proof -
  have i: "i < length (attempts s)" "a_sender (att s i) = SendIdle"
    using r by (auto simp: send_check_def split: if_splits)
  show ?thesis
  proof (cases "a_stop (att s i)")
    case True
    then have s': "s' = upd_attempt i (\<lambda>a. a\<lparr>a_sender := SendDone\<rparr>) s" using r i by (simp add: send_check_def)
    show ?thesis unfolding s'
      by (rule upd_keeps [OF inv i(1)]) (use i(2) in \<open>auto simp: att_defs split: attempt_pc.splits\<close>)
  next
    case False
    then have s': "s' = upd_attempt i (\<lambda>a. a\<lparr>a_sender := Sending (length (req_data s))\<rparr>) s"
      using r i by (simp add: send_check_def split: if_splits)
    show ?thesis unfolding s'
      by (rule upd_keeps [OF inv i(1)]) (use i(2) in \<open>auto simp: att_defs split: attempt_pc.splits\<close>)
  qed
qed

lemma sent_bytes_inv:
  assumes inv: "nc_inv s" and r: "sent_bytes i n err s = Some s'"
  shows "nc_inv s'"
proof -
  obtain m where i: "i < length (attempts s)" and m: "a_sender (att s i) = Sending m"
    using r by (auto simp: sent_bytes_def split: if_splits sender.splits)
  let ?b = "drop (a_sent (att s i)) (take m (req_data s))"
  have n: "n \<le> length ?b" using r i m by (simp add: sent_bytes_def split: if_splits)
  have s': "s' = upd_attempt i (\<lambda>a. a\<lparr>a_written := a_written a @ take n ?b,
      a_sent := a_sent a + n, a_sender := if err then SendDone else SendIdle\<rparr>) s"
    using r i m n by (simp add: sent_bytes_def Let_def)
  have ok: "att_ok (req_data s) (quiet s) (att s i)" by (rule nc_inv_att [OF inv i])
  then have d: "a_sent (att s i) \<le> m" "m \<le> length (req_data s)"
    "a_written (att s i) = take (a_sent (att s i)) (req_data s)" using m by (auto simp: att_defs)
  have w: "take (a_sent (att s i)) (req_data s) @ take n ?b = take (a_sent (att s i) + n) (req_data s)"
  proof -
    have "take n ?b = take n (drop (a_sent (att s i)) (req_data s))"
    proof -
      have "n \<le> m - a_sent (att s i)" using n d by simp
      then show ?thesis by (simp add: drop_take take_take min_absorb1)
    qed
    then show ?thesis by (simp add: take_add)
  qed
  show ?thesis unfolding s'
  proof (rule upd_keeps [OF inv i])
    have "a_sent (att s i) + n \<le> length (req_data s)" using n d by simp
    then show "att_ok (req_data s) (quiet s) ((att s i)\<lparr>a_written := a_written (att s i) @ take n ?b,
        a_sent := a_sent (att s i) + n, a_sender := if err then SendDone else SendIdle\<rparr>)"
      using ok m d(3) w by (auto simp: att_defs split: attempt_pc.splits)
  qed simp_all
qed

lemma response_inv:
  assumes inv: "nc_inv s" and r: "response i err s = Some s'"
  shows "nc_inv s'"
proof -
  have i: "i < length (attempts s)" "a_pc (att s i) = Waiting"
    using r by (auto simp: response_def split: if_splits)
  have ok: "att_ok (req_data s) (quiet s) (att s i)" by (rule nc_inv_att [OF inv i(1)])
  consider (err) "s' = upd_attempt i (\<lambda>a. stop_after_func (a\<lparr>a_pc := Closing, a_stop := True\<rparr>)) s"
    | (late) "s' = upd_attempt i (\<lambda>a. stop_after_func (a\<lparr>a_timer := Stopped, a_pc := Closing, a_stop := True\<rparr>)) s"
    | (win) "\<not> hasWinner s" "s' = (upd_attempt i (\<lambda>a. stop_after_func
                   (a\<lparr>a_timer := Stopped, a_pc := Winning, a_winner := True, a_stop := True\<rparr>)) s)
                 \<lparr>hasWinner := True, lc_log := lc_log s @ [True], cl_stop := True, rr_stop := True\<rparr>"
    using r i unfolding response_def by (simp split: if_splits)
  then show ?thesis
  proof cases
    case err
    show ?thesis unfolding err by (rule upd_keeps [OF inv i(1)]) (use i(2) in \<open>auto simp: att_defs\<close>)
  next
    case late
    show ?thesis unfolding late by (rule upd_keeps [OF inv i(1)]) (use i(2) in \<open>auto simp: att_defs\<close>)
  next
    case win
    let ?y = "stop_after_func ((att s i)\<lparr>a_timer := Stopped, a_pc := Winning, a_winner := True, a_stop := True\<rparr>)"
    have a: "attempts s' = (attempts s)[i := ?y]" by (simp add: win)
    have "att_ok (req_data s) (quiet s) ?y" using ok i(2) by (auto simp: att_defs)
    then have "atts_ok s'" using atts_ok_upd [of s s' i ?y] inv a by (simp add: nc_inv_def win quiet_def)
    moreover have "live_count (attempts s') = live_count (attempts s)"
      unfolding a using live_count_upd [OF i(1), of ?y] i(2) by simp
    then have "loop_ok s'" using inv by (auto simp: nc_inv_def loop_ok_def win)
    moreover have "\<not> a_winner (att s i)" using ok i(2) by (simp add: att_defs)
    then have "winner_count (attempts s') = winner_count (attempts s) + 1"
      unfolding a using winner_count_upd [OF i(1), of ?y] by simp
    then have "win_ok s'" using inv win(1) by (simp add: nc_inv_def win_ok_def win(2))
    ultimately show ?thesis using inv by (simp add: nc_inv_def req_ok_def win)
  qed
qed

lemma win_await_inv:
  assumes inv: "nc_inv s" and r: "win_await i s = Some s'"
  shows "nc_inv s'"
proof -
  have i: "i < length (attempts s)" "a_pc (att s i) = Winning" "quiet s" "a_sender (att s i) = SendDone"
    and s': "s' = upd_attempt i (\<lambda>a. a\<lparr>a_pc := Relaying\<rparr>) s"
    using r by (auto simp: win_await_def quiet_def split: if_splits)
  show ?thesis unfolding s' by (rule upd_keeps [OF inv i(1)]) (use i in \<open>auto simp: att_defs\<close>)
qed

lemma relay_ends_inv:
  assumes inv: "nc_inv s" and r: "relay_ends i s = Some s'"
  shows "nc_inv s'"
proof -
  have i: "i < length (attempts s)" "a_pc (att s i) = Relaying"
    and s': "s' = upd_attempt i (\<lambda>a. stop_after_func (a\<lparr>a_pc := Closing, a_stop := True\<rparr>)) s"
    using r by (auto simp: relay_ends_def split: if_splits)
  show ?thesis unfolding s' by (rule upd_keeps [OF inv i(1)]) (use i in \<open>auto simp: att_defs\<close>)
qed

lemma close_await_inv:
  assumes inv: "nc_inv s" and r: "close_await i s = Some s'"
  shows "nc_inv s'"
proof -
  have i: "i < length (attempts s)" "a_pc (att s i) = Closing" and s': "s' = end_attempt i s"
    using r by (auto simp: close_await_def split: if_splits)
  show ?thesis unfolding s' by (rule end_attempt_inv [OF inv i(1)]) (simp add: i)
qed

lemma attempt_timeout_inv:
  assumes inv: "nc_inv s" and r: "attempt_timeout i s = Some s'"
  shows "nc_inv s'"
proof -
  have i: "i < length (attempts s)" and u: "a_timer (att s i) = Running"
    and s': "s' = upd_attempt i (\<lambda>a. a\<lparr>a_timer := Fired, a_cancelled := True\<rparr>) s"
    using r by (simp_all add: attempt_timeout_def split: if_splits)
  show ?thesis unfolding s'
    by (rule upd_keeps [OF inv i]) (use u in \<open>auto simp: att_defs split: attempt_pc.splits\<close>)
qed

lemma cancel_loser_inv:
  assumes inv: "nc_inv s" and r: "cancel_loser i s = Some s'"
  shows "nc_inv s'"
proof -
  have i: "i < length (attempts s)" and u: "cl_done s"
    and s': "s' = upd_attempt i (\<lambda>a. a\<lparr>a_cancelled := True\<rparr>) s"
    using r by (simp_all add: cancel_loser_def split: if_splits)
  show ?thesis unfolding s'
    by (rule upd_keeps [OF inv i]) (use u in \<open>auto simp: att_defs split: attempt_pc.splits\<close>)
qed

lemma after_runs_inv:
  assumes inv: "nc_inv s" and r: "after_runs i s = Some s'"
  shows "nc_inv s'"
proof -
  have i: "i < length (attempts s)" and u: "a_after (att s i) = Armed"
    and s': "s' = upd_attempt i (\<lambda>a. a\<lparr>a_after := Queued\<rparr>) s"
    using r by (simp_all add: after_runs_def split: if_splits)
  show ?thesis unfolding s'
    by (rule upd_keeps [OF inv i]) (use u in \<open>auto simp: att_defs split: attempt_pc.splits\<close>)
qed

lemma after_callback_inv:
  assumes inv: "nc_inv s" and r: "after_callback i s = Some s'"
  shows "nc_inv s'"
proof -
  have i: "i < length (attempts s)" and u: "a_after (att s i) = Queued"
    and s': "s' = upd_attempt i (\<lambda>a. a\<lparr>a_after := Over\<rparr>) s"
    using r by (simp_all add: after_callback_def split: if_splits)
  show ?thesis unfolding s'
    by (rule upd_keeps [OF inv i]) (use u in \<open>auto simp: att_defs split: attempt_pc.splits\<close>)
qed

lemma nc_step_inv:
  assumes "nc_inv s" "event_ok e" "nc_step e s = Some s'"
  shows "nc_inv s'"
proof (cases e)
  case (ClientRead data err)
  with assms client_read_inv [of s] show ?thesis by simp
next
  case LoopCheck
  with assms loop_check_inv [of s] show ?thesis by simp
next
  case LoopAwait
  with assms loop_await_inv [of s] show ?thesis by simp
next
  case TimerFires
  with assms timer_inv [of s] show ?thesis by simp
next
  case TimerCallback
  with assms timer_inv [of s] show ?thesis by simp
next
  case (Dialed i c cc)
  with assms dialed_inv [of s] show ?thesis by simp
next
  case (SendCheck i)
  with assms send_check_inv [of s] show ?thesis by simp
next
  case (SentBytes i n err)
  with assms sent_bytes_inv [of s] show ?thesis by simp
next
  case (Response i err)
  with assms response_inv [of s] show ?thesis by simp
next
  case (WinAwait i)
  with assms win_await_inv [of s] show ?thesis by simp
next
  case (RelayEnds i)
  with assms relay_ends_inv [of s] show ?thesis by simp
next
  case (CloseAwait i)
  with assms close_await_inv [of s] show ?thesis by simp
next
  case (Timeout i)
  with assms attempt_timeout_inv [of s] show ?thesis by simp
next
  case (CancelLoser i)
  with assms cancel_loser_inv [of s] show ?thesis by simp
next
  case (AfterRuns i)
  with assms after_runs_inv [of s] show ?thesis by simp
next
  case (AfterCallback i)
  with assms after_callback_inv [of s] show ?thesis by simp
qed

definition nc_opts_ok :: "ConnOptions \<Rightarrow> bool" where
  "nc_opts_ok opts \<longleftrightarrow> 1 \<le> co_Parallel opts \<and> 1 \<le> co_MaxAttempts opts"

lemma nc_start_inv: "nc_opts_ok opts \<Longrightarrow> nc_inv (nc_start opts)"
  by (simp add: nc_inv_def atts_ok_def loop_ok_def win_ok_def req_ok_def nc_start_def nc_opts_ok_def
      live_count_def winner_count_def maxRequestSize_def)

lemma nc_step_opts:
  "nc_step e s = Some s' \<Longrightarrow> nc_opts s' = nc_opts s"
  by (cases e) (auto simp: client_read_def loop_check_def loop_await_def timer_fires_def timer_callback_def
      dialed_def send_check_def sent_bytes_def response_def win_await_def relay_ends_def close_await_def
      attempt_timeout_def cancel_loser_def after_runs_def after_callback_def start_timer_def end_attempt_def Let_def
      split: if_splits loop_pc.splits sender.splits)

lemma reachable_inv:
  assumes "nc_reachable opts s" "nc_opts_ok opts"
  shows "nc_inv s \<and> nc_opts s = opts"
  using assms(1)
proof induction
  case start
  then show ?case using nc_start_inv [OF assms(2)] by (simp add: nc_start_def)
next
  case (step s e s')
  then show ?case using nc_step_inv nc_step_opts by metis
qed

section \<open>The life cycle\<close>

definition lc_ok :: "nc_state \<Rightarrow> bool" where
  "lc_ok s \<longleftrightarrow>
     lc_log s = [] \<and> \<not> hasWinner s \<or> lc_log s = [True] \<and> hasWinner s \<or>
     lc_log s = [False] \<and> \<not> hasWinner s \<and> cl_n s = 0 \<and> cl_pc s \<in> {LoopClosing, LoopDone}"

lemma no_live: "nc_inv s \<Longrightarrow> cl_n s = 0 \<Longrightarrow> i < length (attempts s) \<Longrightarrow> a_pc (att s i) = Ended"
  by (auto simp: nc_inv_def loop_ok_def live_count_def filter_empty_conv)

lemma lc_ok_keep:
  "lc_ok s \<Longrightarrow> lc_log s' = lc_log s \<Longrightarrow> hasWinner s' = hasWinner s \<Longrightarrow> cl_n s' = cl_n s \<Longrightarrow> cl_pc s' = cl_pc s \<Longrightarrow> lc_ok s'"
  by (auto simp: lc_ok_def)

lemma lc_step:
  assumes inv: "nc_inv s" and lc: "lc_ok s" and r: "nc_step e s = Some s'"
  shows "lc_ok s'"
proof (cases e)
  case LoopCheck
  then have r': "loop_check s = Some s'" using r by simp
  have "hasWinner s \<Longrightarrow> cl_stop s" using inv by (simp add: nc_inv_def win_ok_def)
  with lc r' show ?thesis by (auto simp: loop_check_def lc_ok_def split: if_splits)
next
  case LoopAwait
  with lc r show ?thesis by (auto simp: loop_await_def lc_ok_def start_timer_def split: if_splits loop_pc.splits)
next
  case (Dialed i c cc)
  then have i: "i < length (attempts s)" "a_pc (att s i) = Dialing" using r by (auto simp: dialed_def split: if_splits)
  then have "cl_n s \<noteq> 0" using no_live [OF inv] by fastforce
  then have "lc_log s = [] \<and> \<not> hasWinner s \<or> lc_log s = [True] \<and> hasWinner s" using lc by (auto simp: lc_ok_def)
  moreover have "lc_log s' = lc_log s \<and> hasWinner s' = hasWinner s"
    using Dialed r i by (auto simp: dialed_def end_attempt_def Let_def split: if_splits)
  ultimately show ?thesis by (auto simp: lc_ok_def)
next
  case (Response i err)
  then have i: "i < length (attempts s)" "a_pc (att s i) = Waiting" using r by (auto simp: response_def split: if_splits)
  then have "cl_n s \<noteq> 0" using no_live [OF inv] by fastforce
  then have "lc_log s = [] \<and> \<not> hasWinner s \<or> lc_log s = [True] \<and> hasWinner s" using lc by (auto simp: lc_ok_def)
  then show ?thesis using Response r i by (auto simp: response_def lc_ok_def split: if_splits)
next
  case (CloseAwait i)
  then have i: "i < length (attempts s)" "a_pc (att s i) = Closing" using r by (auto simp: close_await_def split: if_splits)
  then have "cl_n s \<noteq> 0" using no_live [OF inv] by fastforce
  then have "lc_log s = [] \<and> \<not> hasWinner s \<or> lc_log s = [True] \<and> hasWinner s" using lc by (auto simp: lc_ok_def)
  then show ?thesis using CloseAwait r i by (auto simp: close_await_def end_attempt_def lc_ok_def split: if_splits)
qed (use r in \<open>auto intro!: lc_ok_keep [OF lc] simp: client_read_def timer_fires_def timer_callback_def send_check_def
      sent_bytes_def win_await_def relay_ends_def attempt_timeout_def cancel_loser_def after_runs_def
      after_callback_def Let_def split: if_splits sender.splits\<close>)

lemma reachable_lc:
  assumes "nc_reachable opts s" "nc_opts_ok opts"
  shows "lc_ok s"
  using assms(1)
proof induction
  case start
  then show ?case by (simp add: lc_ok_def nc_start_def)
next
  case (step s e s')
  with reachable_inv [OF step.hyps(1) assms(2)] lc_step show ?case by blast
qed

section \<open>The outgoing connection\<close>

text \<open>
  \<open>Conn\<close>: whichever of \<open>setOutgoingConn\<close> and \<open>SetOutgoingTimeout\<close> comes last, both under
  the mutex. Connections are names; \<open>oc_deadlines\<close> is what their deadlines were set to.
\<close>

record out_conn =
  oc :: "nat option"
  oc_tr :: duration
  oc_tw :: duration
  oc_deadlines :: "nat \<Rightarrow> int option \<times> int option"

definition toDeadline :: "int \<Rightarrow> duration \<Rightarrow> int option" where
  "toDeadline now d = (if d = 0 then None else Some (now + d))"

definition setOutgoingConn :: "int \<Rightarrow> nat option \<Rightarrow> out_conn \<Rightarrow> out_conn" where
  "setOutgoingConn now c s =
     (let s1 = s\<lparr>oc := c\<rparr>
      in case c of
        None \<Rightarrow> s1
      | Some k \<Rightarrow> s1\<lparr>oc_deadlines := (oc_deadlines s1)(k := (toDeadline now (oc_tr s1), toDeadline now (oc_tw s1)))\<rparr>)"

definition SetOutgoingTimeout :: "int \<Rightarrow> duration \<Rightarrow> duration \<Rightarrow> out_conn \<Rightarrow> out_conn" where
  "SetOutgoingTimeout now tr tw s =
     (let s1 = s\<lparr>oc_tr := tr, oc_tw := tw\<rparr>
      in case oc s1 of
        None \<Rightarrow> s1
      | Some k \<Rightarrow> s1\<lparr>oc_deadlines := (oc_deadlines s1)(k := (toDeadline now tr, toDeadline now tw))\<rparr>)"

definition deadlines_at :: "int \<Rightarrow> out_conn \<Rightarrow> bool" where
  "deadlines_at now s \<longleftrightarrow>
     (\<forall>k. oc s = Some k \<longrightarrow> oc_deadlines s k = (toDeadline now (oc_tr s), toDeadline now (oc_tw s)))"

text \<open>\<open>conn\<close>: the counters of the bytes read and written.\<close>

record counted_conn =
  cc_sent :: nat
  cc_recv :: nat

definition counted_Read :: "nat \<Rightarrow> counted_conn \<Rightarrow> counted_conn" where
  "counted_Read n c = (if n > 0 then c\<lparr>cc_recv := cc_recv c + n\<rparr> else c)"

definition counted_Write :: "nat \<Rightarrow> counted_conn \<Rightarrow> counted_conn" where
  "counted_Write n c = (if n > 0 then c\<lparr>cc_sent := cc_sent c + n\<rparr> else c)"

section \<open>Properties\<close>

lemma conn_options_ok: "nc_opts_ok (conn_options m opts)"
  by (simp add: nc_opts_ok_def conn_options_def or_default_def defaultConnParallel_def defaultConnMaxAttempts_def)

lemma one_winner:
  assumes "winner_count as \<le> 1" "i < length as" "j < length as" "a_winner (as ! i)" "a_winner (as ! j)"
  shows "i = j"
proof (rule ccontr)
  assume "i \<noteq> j"
  have "card {k. k < length as \<and> a_winner (as ! k)} = winner_count as"
    by (simp add: winner_count_def length_filter_conv_card)
  moreover have "card {i, j} \<le> card {k. k < length as \<and> a_winner (as ! k)}"
    using assms by (intro card_mono) auto
  ultimately show False using \<open>i \<noteq> j\<close> assms(1) by simp
qed

text \<open>
  C12. In every reachable state of a connection at most one attempt is the winner, no more than
  \<open>Parallel\<close> attempts are open, no more than \<open>MaxAttempts\<close> were ever made, and at most one
  life cycle event was sent: a response when there is a winner, or that all attempts failed.
\<close>
theorem conn_single_winner:
  assumes "nc_reachable (conn_options m opts) s"
  shows "(\<forall>i < length (attempts s). \<forall>j < length (attempts s).
      a_winner (att s i) \<longrightarrow> a_winner (att s j) \<longrightarrow> i = j) \<and>
    int (live_count (attempts s)) \<le> co_Parallel (conn_options m opts) \<and>
    int (length (attempts s)) \<le> co_MaxAttempts (conn_options m opts) \<and>
    lc_log s \<in> {[], [True], [False]} \<and> (lc_log s = [True] \<longleftrightarrow> hasWinner s)"
proof -
  have inv: "nc_inv s" "nc_opts s = conn_options m opts"
    using reachable_inv [OF assms conn_options_ok] by simp_all
  then have "winner_count (attempts s) \<le> 1" by (simp add: nc_inv_def win_ok_def)
  moreover have "lc_ok s" by (rule reachable_lc [OF assms conn_options_ok])
  ultimately show ?thesis using inv one_winner
    by (auto simp: nc_inv_def loop_ok_def lc_ok_def)
qed

text \<open>A run: two attempts, the second wins after the first was refused.\<close>

definition example_opts :: ConnOptions where
  "example_opts = conn_options \<lparr>co_Timeout = 0, co_Interval = 0, co_Parallel = 0, co_MaxAttempts = 0\<rparr>
     \<lparr>co_Timeout = 0, co_Interval = 0, co_Parallel = 2, co_MaxAttempts = 3\<rparr>"

definition example_run :: "nc_event list" where
  "example_run = [ClientRead [7, 8] False, LoopCheck, LoopAwait, TimerFires, TimerCallback,
     LoopCheck, LoopAwait, Dialed 0 False False, Dialed 1 True False, SendCheck 1,
     SentBytes 1 1 False, Response 1 False, SendCheck 1, LoopCheck, LoopAwait,
     ClientRead [9] True, WinAwait 1]"

lemma example_run_result:
  "\<exists>s. nc_run example_run (nc_start example_opts) = Some s \<and> hasWinner s \<and> length (attempts s) = 2 \<and>
     a_pc (att s 1) = Relaying \<and> a_written (att s 1) = [7] \<and> relay_prefix 1 s = [8, 9]"
  by (simp add: example_run_def example_opts_def nc_start_def conn_options_def or_default_def
      client_read_def loop_check_def loop_await_def timer_fires_def timer_callback_def start_timer_def
      stop_timer_def dialed_def end_attempt_def upd_attempt_def send_check_def sent_bytes_def
      response_def stop_after_func_def win_await_def new_attempt_def relay_prefix_def maxRequestSize_def)

lemma example_reachable:
  "nc_run example_run (nc_start example_opts) = Some s \<Longrightarrow> nc_reachable example_opts s"
  by (rule nc_run_reachable [OF nc_reachable.start, where es = example_run]) (simp_all add: example_run_def)

lemma conn_single_winner_witness:
  "\<exists>s. nc_run example_run (nc_start example_opts) = Some s \<and> lc_log s = [True] \<and> length (attempts s) = 2"
proof -
  obtain s where s: "nc_run example_run (nc_start example_opts) = Some s" "hasWinner s" "length (attempts s) = 2"
    using example_run_result by blast
  have "nc_reachable (conn_options \<lparr>co_Timeout = 0, co_Interval = 0, co_Parallel = 0, co_MaxAttempts = 0\<rparr>
     \<lparr>co_Timeout = 0, co_Interval = 0, co_Parallel = 2, co_MaxAttempts = 3\<rparr>) s"
    using example_reachable [OF s(1)] by (simp add: example_opts_def)
  from conn_single_winner [OF this] s show ?thesis by blast
qed

text \<open>
  C13. When the winner is relayed, the request is complete and no other part of the program
  changes it any more: what was sent to the remote side followed by the prefix that the relay
  sends first is exactly what was read from the client.
\<close>
theorem conn_request_intact:
  assumes "nc_reachable (conn_options m opts) s"
    and "i < length (attempts s)" and "a_pc (att s i) = Relaying"
  shows "a_written (att s i) @ relay_prefix i s = req_data s \<and> rr_done s \<and> cl_done s"
proof -
  have "nc_inv s" using reachable_inv [OF assms(1) conn_options_ok] by simp
  from nc_inv_att [OF this assms(2)] assms(3) show ?thesis
    by (auto simp: att_defs quiet_def relay_prefix_def)
qed

lemma conn_request_intact_witness:
  "\<exists>s. nc_run example_run (nc_start example_opts) = Some s \<and> req_data s = [7, 8, 9]"
proof -
  obtain s where s: "nc_run example_run (nc_start example_opts) = Some s" "length (attempts s) = 2"
    "a_pc (att s 1) = Relaying" "a_written (att s 1) = [7]" "relay_prefix 1 s = [8, 9]"
    using example_run_result by blast
  have "nc_reachable (conn_options \<lparr>co_Timeout = 0, co_Interval = 0, co_Parallel = 0, co_MaxAttempts = 0\<rparr>
     \<lparr>co_Timeout = 0, co_Interval = 0, co_Parallel = 2, co_MaxAttempts = 3\<rparr>) s"
    using example_reachable [OF s(1)] by (simp add: example_opts_def)
  from conn_request_intact [OF this, of 1] s show ?thesis by auto
qed

text \<open>
  Every byte written to any attempt is a prefix of the request, and the request never grows
  beyond \<open>maxRequestSize\<close> plus one buffer.
\<close>
theorem conn_request_bounds:
  assumes "nc_reachable (conn_options m opts) s"
  shows "length (req_data s) < maxRequestSize + 8192 \<and>
    (\<forall>i < length (attempts s). a_written (att s i) = take (a_sent (att s i)) (req_data s))"
proof -
  have "nc_inv s" using reachable_inv [OF assms conn_options_ok] by simp
  then show ?thesis using nc_inv_att by (auto simp: nc_inv_def req_ok_def att_defs)
qed

lemma conn_request_bounds_witness: "length (req_data (nc_start example_opts)) < maxRequestSize + 8192"
  unfolding example_opts_def using conn_request_bounds [OF nc_reachable.start] by blast

text \<open>
  C14. The connection loop never hangs: while it is not done, and it was told to stop or no attempt
  is open, one of its own events or of its timer can happen.
\<close>
theorem conn_loop_progress:
  assumes "nc_reachable (conn_options m opts) s" and "\<not> cl_done s" and "cl_stop s \<or> cl_n s = 0"
  shows "\<exists>e \<in> {LoopCheck, LoopAwait, TimerFires, TimerCallback}. nc_step e s \<noteq> None"
proof -
  have inv: "loop_ok s" "nc_opts s = conn_options m opts"
    using reachable_inv [OF assms(1) conn_options_ok] by (simp_all add: nc_inv_def)
  have timer: ?thesis if "cl_timerRunning s"
    using that inv(1) by (cases "cl_timer s") (auto simp: loop_ok_def timer_fires_def timer_callback_def)
  have par: "0 < co_Parallel (nc_opts s)" using conn_options_ok [of m opts] inv(2) by (simp add: nc_opts_ok_def)
  show ?thesis
  proof (cases "cl_timerRunning s")
    case False
    then have new: "cl_newconn s" using inv(1) by (simp add: loop_ok_def)
    show ?thesis
    proof (cases "cl_pc s")
      case Checking
      then have "loop_check s \<noteq> None" using assms(3) new par by (auto simp: loop_check_def)
      then show ?thesis by simp
    next
      case LoopDone
      then show ?thesis using assms(2) inv(1) by (simp add: loop_ok_def)
    qed (use False in \<open>simp_all add: loop_await_def\<close>)
  qed (rule timer)
qed

lemma conn_loop_progress_witness:
  "\<exists>e \<in> {LoopCheck, LoopAwait, TimerFires, TimerCallback}. nc_step e (nc_start example_opts) \<noteq> None"
  unfolding example_opts_def by (rule conn_loop_progress [OF nc_reachable.start]) (simp_all add: nc_start_def)

text \<open>
  Whichever comes last of installing a connection and setting timeouts, the deadlines of the
  installed connection are those of the timeouts in force.
\<close>
theorem outgoing_deadlines:
  "deadlines_at now (setOutgoingConn now c s) \<and> deadlines_at now (SetOutgoingTimeout now tr tw s) \<and>
   oc_tr (setOutgoingConn now c s) = oc_tr s \<and> oc_tr (SetOutgoingTimeout now tr tw s) = tr"
  by (auto simp: deadlines_at_def setOutgoingConn_def SetOutgoingTimeout_def Let_def split: option.splits)

end
