(* ===== verification/Service.thy ===== *)
theory Service
  imports Go_Text Conn
begin

text \<open>
  The loop that every listening service runs (\<open>Service.Run\<close> of \<open>tcptun\<close>, \<open>random\<close>, \<open>http\<close> and
  the others, which repeat it word for word) as a step function on the state of a job: its
  options, its listener and whether \<open>Run\<close> still runs. The services differ in the address they
  listen on (\<open>on\<close>) and in what they do to new options (\<open>load\<close>, \<open>None\<close> when they log an error
  and return); locale \<open>service_loop\<close> states what the loop relies on. The second half puts
  jobs together: every job handles its events in a goroutine of its own while the manager
  goes on, and listeners are a resource they share.
\<close>

section \<open>The state of a job\<close>

datatype 'o event = LoadEvent 'o | LoadedEvent | NilEvent   \<comment> \<open>\<open>Event\<close>; \<open>NilEvent\<close> is \<open>nil\<close>\<close>

datatype 'o job_input = Received "'o event" | CtxDone | ServerDown

record 'o job =
  jb_opts :: 'o                     \<comment> \<open>what the options channel serves\<close>
  jb_server :: "string option"      \<comment> \<open>the address of \<open>server\<close>, if not \<open>nil\<close>\<close>
  jb_alive :: bool                  \<comment> \<open>\<open>Run\<close> has not returned\<close>

definition job_start :: "'o \<Rightarrow> 'o job" where
  "job_start zero = \<lparr>jb_opts = zero, jb_server = None, jb_alive = True\<rparr>"

text \<open>The goroutine that serves the options: a closed channel serves the zero value and \<open>false\<close>.\<close>

definition opts_out :: "'o \<Rightarrow> 'o job \<Rightarrow> 'o \<times> bool" where
  "opts_out zero j = (if jb_alive j then (jb_opts j, True) else (zero, False))"

section \<open>The loop\<close>

definition start_server :: "('o \<Rightarrow> string) \<Rightarrow> (string \<Rightarrow> bool) \<Rightarrow> 'o job \<Rightarrow> 'o job option" where
  "start_server on listen j =
     (case jb_server j of
        Some _ \<Rightarrow> Some j
      | None \<Rightarrow> if listen (on (jb_opts j)) then Some (j\<lparr>jb_server := Some (on (jb_opts j))\<rparr>) else None)"

definition stop_server :: "'o job \<Rightarrow> 'o job" where
  "stop_server j = j\<lparr>jb_server := None\<rparr>"

text \<open>Returning from \<open>Run\<close>: the deferred \<open>stopServer\<close> and \<open>close(optsIn)\<close>.\<close>

definition job_return :: "'o job \<Rightarrow> 'o job" where
  "job_return j = (stop_server j)\<lparr>jb_alive := False\<rparr>"

definition on_load :: "('o \<Rightarrow> string) \<Rightarrow> ('o \<Rightarrow> 'o \<Rightarrow> 'o option) \<Rightarrow> 'o \<Rightarrow> 'o job \<Rightarrow> 'o job" where
  "on_load on load new j =
     (if SplitHostPort (on new) = None then job_return j
      else
        let j1 = (if on new \<noteq> on (jb_opts j) then stop_server j else j)
        in case load (jb_opts j) new of
             None \<Rightarrow> job_return j1
           | Some new' \<Rightarrow> j1\<lparr>jb_opts := new'\<rparr>)"

fun job_event :: "('o \<Rightarrow> string) \<Rightarrow> ('o \<Rightarrow> 'o \<Rightarrow> 'o option) \<Rightarrow> (string \<Rightarrow> bool) \<Rightarrow> 'o event \<Rightarrow> 'o job \<Rightarrow> 'o job" where
  "job_event on load listen (LoadEvent new) j = on_load on load new j"
| "job_event on load listen LoadedEvent j =
     (case start_server on listen j of None \<Rightarrow> job_return j | Some j' \<Rightarrow> j')"
| "job_event on load listen NilEvent j = j"

definition job_step ::
  "('o \<Rightarrow> string) \<Rightarrow> ('o \<Rightarrow> 'o \<Rightarrow> 'o option) \<Rightarrow> (string \<Rightarrow> bool) \<Rightarrow> 'o job_input \<Rightarrow> 'o job \<Rightarrow> 'o job"
  where
  "job_step on load listen i j =
     (if \<not> jb_alive j then j
      else case i of
        Received ev \<Rightarrow> job_event on load listen ev j
      | CtxDone \<Rightarrow> job_return j
      | ServerDown \<Rightarrow> if jb_server j \<noteq> None then job_return j else j)"

lemmas job_defs = job_step_def on_load_def start_server_def job_return_def stop_server_def

definition job_inv :: "('o \<Rightarrow> string) \<Rightarrow> 'o job \<Rightarrow> bool" where
  "job_inv on j \<longleftrightarrow> (\<forall>a. jb_server j = Some a \<longrightarrow> jb_alive j \<and> a = on (jb_opts j))"

lemma job_inv_start [simp]: "job_inv on (job_start zero)"
  by (simp add: job_inv_def job_start_def)

text \<open>What the loop relies on: \<open>load\<close> does not change the address.\<close>

locale service_loop =
  fixes on :: "'o \<Rightarrow> string" and load :: "'o \<Rightarrow> 'o \<Rightarrow> 'o option"
  assumes load_on: "load old new = Some new' \<Longrightarrow> on new' = on new"
begin

lemma step_inv: "job_inv on j \<Longrightarrow> job_inv on (job_step on load listen i j)"
proof (cases i)
  case (Received e)
  then show "job_inv on j \<Longrightarrow> ?thesis"
    by (cases e) (auto simp: job_inv_def job_defs load_on Let_def split: option.splits)
qed (auto simp: job_inv_def job_defs)

lemma steps_inv: "job_inv on j \<Longrightarrow> job_inv on (foldl (\<lambda>j (l, i). job_step on load l i j) j is)"
proof (induction "is" arbitrary: j)
  case (Cons x xs)
  then show ?case by (cases x) (simp add: step_inv)
qed simp

text \<open>New options are in force, and the address is listened on, after both events.\<close>

lemma load_loaded:
  assumes "jb_alive j" "SplitHostPort (on new) \<noteq> None" "load (jb_opts j) new = Some new'" "job_inv on j"
    and "listen (on new)"
  shows "job_step on load listen (Received LoadedEvent) (job_step on load listen' (Received (LoadEvent new)) j)
    = \<lparr>jb_opts = new', jb_server = Some (on new), jb_alive = True\<rparr>"
  using assms load_on [OF assms(3)]
  by (cases "jb_server j") (auto simp: job_defs Let_def job_inv_def job.defs intro!: job.equality)

text \<open>A \<open>LoadEvent\<close> never opens a listener; it keeps the one of an unchanged address.\<close>

lemma load_server:
  assumes "job_inv on j"
  shows "jb_server (job_step on load listen (Received (LoadEvent new)) j) \<in> {None, jb_server j}"
    and "on new = on (jb_opts j) \<Longrightarrow> jb_alive (job_step on load listen (Received (LoadEvent new)) j) \<Longrightarrow>
      jb_server (job_step on load listen (Received (LoadEvent new)) j) = jb_server j"
    and "on new \<noteq> on (jb_opts j) \<Longrightarrow> jb_server (job_step on load listen (Received (LoadEvent new)) j) = None"
  using assms by (auto simp: job_defs Let_def job_inv_def split: option.splits)

end

lemma job_cancelled [simp]:
  "job_step on load listen CtxDone j = (if jb_alive j then job_return j else j)" "\<not> jb_alive (job_return j)"
  by (simp_all add: job_step_def job_return_def)

lemma job_dead [simp]: "\<not> jb_alive j \<Longrightarrow> job_step on load listen i j = j"
  by (simp add: job_step_def)


text \<open>
  Some services keep data that they derive from the options (a cipher, a handler, a queue).
  \<open>decoded\<close> says that options come from the decoder, with the derived fields unset; \<open>good\<close> that
  the derived fields fit.
\<close>

fun input_ok :: "('o \<Rightarrow> bool) \<Rightarrow> 'o job_input \<Rightarrow> bool" where
  "input_ok decoded (Received (LoadEvent new)) \<longleftrightarrow> decoded new"
| "input_ok decoded _ \<longleftrightarrow> True"

lemma input_ok_any [simp]: "input_ok (\<lambda>_. True) i"
proof (cases i)
  case (Received e)
  then show ?thesis by (cases e) simp_all
qed simp_all

definition job_run ::
  "('o \<Rightarrow> string) \<Rightarrow> ('o \<Rightarrow> 'o \<Rightarrow> 'o option) \<Rightarrow> ((string \<Rightarrow> bool) \<times> 'o job_input) list \<Rightarrow> 'o job \<Rightarrow> 'o job" where
  "job_run on load is j = foldl (\<lambda>j (listen, i). job_step on load listen i j) j is"

locale derived_service = service_loop on load
  for on :: "'o \<Rightarrow> string" and load :: "'o \<Rightarrow> 'o \<Rightarrow> 'o option" +
  fixes decoded :: "'o \<Rightarrow> bool" and good :: "'o \<Rightarrow> bool"
  assumes load_good: "good old \<Longrightarrow> decoded new \<Longrightarrow> load old new = Some new' \<Longrightarrow> good new'"
begin

lemma step_good:
  assumes "good (jb_opts j)" "input_ok decoded i"
  shows "good (jb_opts (job_step on load listen i j))"
proof (cases i)
  case (Received e)
  then show ?thesis using assms
    by (cases e) (auto simp: job_defs Let_def load_good split: option.splits)
qed (use assms in \<open>auto simp: job_defs\<close>)

lemma run_good:
  "good (jb_opts j) \<Longrightarrow> list_all (\<lambda>(l, i). input_ok decoded i) is \<Longrightarrow> good (jb_opts (job_run on load is j))"
proof (induction "is" arbitrary: j)
  case (Cons x xs)
  then show ?case by (cases x) (simp add: job_run_def step_good)
qed (simp add: job_run_def)

lemma run_inv: "job_inv on j \<Longrightarrow> job_inv on (job_run on load is j)"
  unfolding job_run_def by (rule steps_inv)

end

end
