(* ===== verification/Service_System.thy ===== *)
theory Service_System
  imports Service
begin

text \<open>
  Jobs together. \<open>Job.SendEvent\<close> hands an event over a channel without a buffer: the manager
  waits until the job takes the event, not until it has handled it. So a state has the
  sends still to do and, for each job, the event it is handling; \<open>sys_step\<close> is one move, of the
  manager or of a job, and a list of moves is a schedule. \<open>free\<close> are the addresses that
  nothing outside of the program listens on.
\<close>

record 'o sys_job =
  sj_job :: "'o job"
  sj_inbox :: "'o event option"     \<comment> \<open>taken from the channel and not yet handled\<close>

type_synonym 'o sends = "(string \<times> 'o event) list"

record 'o sys =
  sy_jobs :: "(string \<times> 'o sys_job) list"
  sy_sends :: "'o sends"

type_synonym 'o loops = "string \<Rightarrow> ('o \<Rightarrow> string) \<times> ('o \<Rightarrow> 'o \<Rightarrow> 'o option)"  \<comment> \<open>the service of each job\<close>

datatype move = Deliver | Handle string

definition upd_job :: "string \<Rightarrow> ('x \<Rightarrow> 'x) \<Rightarrow> (string \<times> 'x) list \<Rightarrow> (string \<times> 'x) list" where
  "upd_job n f js = map (\<lambda>(m, x). (m, if m = n then f x else x)) js"

lemma map_of_upd_job [simp]:
  "map_of (upd_job n f js) m = (if m = n then map_option f (map_of js n) else map_of js m)"
  by (induction js) (auto simp: upd_job_def)

lemma fst_upd_job [simp]: "map fst (upd_job n f js) = map fst js"
  by (auto simp: upd_job_def)

definition taken :: "('x \<Rightarrow> 'o job) \<Rightarrow> (string \<times> 'x) list \<Rightarrow> string \<Rightarrow> string \<Rightarrow> bool" where
  "taken job js n a = list_ex (\<lambda>(m, x). m \<noteq> n \<and> jb_server (job x) = Some a) js"

text \<open>\<open>SendEvent\<close>: a job that is done takes nothing.\<close>

definition SendEvent :: "string \<Rightarrow> 'o event \<Rightarrow> (string \<times> 'o sys_job) list \<Rightarrow> (string \<times> 'o sys_job) list option" where
  "SendEvent n ev js =
     (case map_of js n of
        None \<Rightarrow> Some js
      | Some x \<Rightarrow>
          if \<not> jb_alive (sj_job x) then Some js
          else if sj_inbox x \<noteq> None then None
          else Some (upd_job n (\<lambda>x. x\<lparr>sj_inbox := Some ev\<rparr>) js))"

definition handle_event ::
  "'o loops \<Rightarrow> (string \<Rightarrow> bool) \<Rightarrow> string \<Rightarrow> (string \<times> 'o sys_job) list \<Rightarrow> (string \<times> 'o sys_job) list option" where
  "handle_event loops free n js =
     (case map_of js n of
        None \<Rightarrow> None
      | Some x \<Rightarrow>
          case sj_inbox x of
            None \<Rightarrow> None
          | Some ev \<Rightarrow> Some (upd_job n (\<lambda>x. x\<lparr>sj_inbox := None, sj_job :=
              job_step (fst (loops n)) (snd (loops n)) (\<lambda>a. free a \<and> \<not> taken sj_job js n a) (Received ev) (sj_job x)\<rparr>) js))"

fun sys_step :: "'o loops \<Rightarrow> (string \<Rightarrow> bool) \<Rightarrow> move \<Rightarrow> 'o sys \<Rightarrow> 'o sys option" where
  "sys_step loops free Deliver s =
     (case sy_sends s of
        [] \<Rightarrow> None
      | (n, ev) # rest \<Rightarrow>
          map_option (\<lambda>js. \<lparr>sy_jobs = js, sy_sends = rest\<rparr>) (SendEvent n ev (sy_jobs s)))"
| "sys_step loops free (Handle n) s =
     map_option (\<lambda>js. s\<lparr>sy_jobs := js\<rparr>) (handle_event loops free n (sy_jobs s))"

fun sys_run :: "'o loops \<Rightarrow> (string \<Rightarrow> bool) \<Rightarrow> move list \<Rightarrow> 'o sys \<Rightarrow> 'o sys option" where
  "sys_run loops free [] s = Some s"
| "sys_run loops free (m # ms) s =
     (case sys_step loops free m s of None \<Rightarrow> None | Some s' \<Rightarrow> sys_run loops free ms s')"

definition quiet :: "'o sys \<Rightarrow> bool" where
  "quiet s \<longleftrightarrow> sy_sends s = [] \<and> list_all (\<lambda>(n, x). sj_inbox x = None) (sy_jobs s)"

text \<open>A job on its own, with every address it asks for.\<close>

definition solo :: "'o loops \<Rightarrow> string \<Rightarrow> 'o job \<Rightarrow> 'o event list \<Rightarrow> 'o job" where
  "solo loops n j evs = foldl (\<lambda>j ev. job_step (fst (loops n)) (snd (loops n)) (\<lambda>_. True) (Received ev) j) j evs"

definition events_for :: "string \<Rightarrow> 'o sends \<Rightarrow> 'o event list" where
  "events_for n ss = map snd (filter (\<lambda>(m, ev). m = n) ss)"

lemma events_for_simps [simp]:
  "events_for n [] = []"
  "events_for n ((m, ev) # ss) = (if m = n then [ev] else []) @ events_for n ss"
  "events_for n (ss @ ss') = events_for n ss @ events_for n ss'"
  by (auto simp: events_for_def)

lemma solo_simps [simp]:
  "solo loops n j [] = j"
  "solo loops n j (evs @ [ev]) = job_step (fst (loops n)) (snd (loops n)) (\<lambda>_. True) (Received ev) (solo loops n j evs)"
  by (auto simp: solo_def)

text \<open>The addresses a job has or gets while it handles its events on its own.\<close>

definition solo_addrs :: "'o loops \<Rightarrow> string \<Rightarrow> 'o job \<Rightarrow> 'o event list \<Rightarrow> string set" where
  "solo_addrs loops n j evs = {a. \<exists>h t. evs = h @ t \<and> jb_server (solo loops n j h) = Some a}"

text \<open>No two jobs ever want the same address.\<close>

definition no_conflict :: "'o loops \<Rightarrow> (string \<Rightarrow> bool) \<Rightarrow> 'o sys \<Rightarrow> bool" where
  "no_conflict loops free s \<longleftrightarrow>
     (\<forall>n x. map_of (sy_jobs s) n = Some x \<longrightarrow>
        (\<forall>a \<in> solo_addrs loops n (sj_job x) (events_for n (sy_sends s)). free a) \<and>
        (\<forall>m y. m \<noteq> n \<and> map_of (sy_jobs s) m = Some y \<longrightarrow>
           solo_addrs loops n (sj_job x) (events_for n (sy_sends s)) \<inter>
           solo_addrs loops m (sj_job y) (events_for m (sy_sends s)) = {}))"

definition on_track :: "'o loops \<Rightarrow> 'o sys \<Rightarrow> 'o sys \<Rightarrow> string \<Rightarrow> 'o sys_job \<Rightarrow> bool" where
  "on_track loops s0 s n x0 \<longleftrightarrow>
     (\<exists>h x. map_of (sy_jobs s) n = Some x \<and> (sj_inbox x \<noteq> None \<longrightarrow> jb_alive (sj_job x)) \<and>
        events_for n (sy_sends s0) = h @ (case sj_inbox x of None \<Rightarrow> [] | Some ev \<Rightarrow> [ev]) @ events_for n (sy_sends s) \<and>
        sj_job x = solo loops n (sj_job x0) h)"

definition all_on_track :: "'o loops \<Rightarrow> 'o sys \<Rightarrow> 'o sys \<Rightarrow> bool" where
  "all_on_track loops s0 s \<longleftrightarrow>
     map fst (sy_jobs s) = map fst (sy_jobs s0) \<and>
     (\<forall>n x0. map_of (sy_jobs s0) n = Some x0 \<longrightarrow> on_track loops s0 s n x0)"

text \<open>A listener that a job may open in the system is one it may open on its own.\<close>

lemma job_step_listen:
  assumes "\<And>a. jb_server (job_step on load (\<lambda>_. True) i j) = Some a \<Longrightarrow> listen a"
  shows "job_step on load listen i j = job_step on load (\<lambda>_. True) i j"
proof (cases i)
  case (Received ev)
  with assms show ?thesis by (cases ev) (auto simp: job_step_def start_server_def split: option.splits)
qed (simp_all add: job_step_def)

lemma taken_iff:
  "distinct (map fst js) \<Longrightarrow>
   taken job js n a \<longleftrightarrow> (\<exists>m x. m \<noteq> n \<and> map_of js m = Some x \<and> jb_server (job x) = Some a)"
  by (auto simp: taken_def list_ex_iff)

section \<open>No interference\<close>

lemma on_trackE:
  assumes "on_track loops s0 s k x0"
  obtains h x where "map_of (sy_jobs s) k = Some x" "sj_inbox x \<noteq> None \<longrightarrow> jb_alive (sj_job x)"
    "events_for k (sy_sends s0) = h @ (case sj_inbox x of None \<Rightarrow> [] | Some ev \<Rightarrow> [ev]) @ events_for k (sy_sends s)"
    "sj_job x = solo loops k (sj_job x0) h"
  using assms unfolding on_track_def by blast

lemma track_deliver:
  assumes track: "on_track loops s0 s k x0" and s: "sy_sends s = (n, ev) # rest"
    and js: "SendEvent n ev (sy_jobs s) = Some js"
  shows "on_track loops s0 \<lparr>sy_jobs = js, sy_sends = rest\<rparr> k x0"
proof -
  obtain h x where x: "map_of (sy_jobs s) k = Some x" "sj_inbox x \<noteq> None \<longrightarrow> jb_alive (sj_job x)"
    "events_for k (sy_sends s0) = h @ (case sj_inbox x of None \<Rightarrow> [] | Some ev \<Rightarrow> [ev]) @ events_for k (sy_sends s)"
    "sj_job x = solo loops k (sj_job x0) h"
    using track by (rule on_trackE)
  consider "k \<noteq> n" | "k = n" "\<not> jb_alive (sj_job x)" | "k = n" "jb_alive (sj_job x)" by blast
  then show ?thesis
  proof cases
    case 1
    then have "map_of js k = Some x" using js x(1) by (auto simp: SendEvent_def split: option.splits if_splits)
    then show ?thesis using 1 x s by (auto simp: on_track_def intro!: exI [of _ h])
  next
    case 2
    then have "js = sy_jobs s" "sj_inbox x = None" using js x(1,2) by (auto simp: SendEvent_def)
    then show ?thesis using 2 x s by (auto simp: on_track_def intro!: exI [of _ "h @ [ev]"])
  next
    case 3
    then have "sj_inbox x = None" "map_of js k = Some (x\<lparr>sj_inbox := Some ev\<rparr>)"
      using js x(1) by (auto simp: SendEvent_def split: if_splits)
    then show ?thesis using 3 x s by (auto simp: on_track_def intro!: exI [of _ h])
  qed
qed

lemma track_addrs:
  assumes "on_track loops s0 s m y0" "map_of (sy_jobs s) m = Some y" "jb_server (sj_job y) = Some a"
  shows "a \<in> solo_addrs loops m (sj_job y0) (events_for m (sy_sends s0))"
  using assms unfolding on_track_def solo_addrs_def by (auto simp: append_eq_append_conv2)

lemma keys_map_of: "map fst js = map fst js' \<Longrightarrow> map_of js k = Some x \<Longrightarrow> \<exists>x'. map_of js' k = Some x'"
  by (metis domI domIff dom_map_of_conv_image_fst list.set_map not_Some_eq)

lemma no_conflictD:
  assumes "no_conflict loops free s" "map_of (sy_jobs s) n = Some x"
    and "a \<in> solo_addrs loops n (sj_job x) (events_for n (sy_sends s))"
  shows "free a"
    and "m \<noteq> n \<Longrightarrow> map_of (sy_jobs s) m = Some y \<Longrightarrow> a \<notin> solo_addrs loops m (sj_job y) (events_for m (sy_sends s))"
  using assms unfolding no_conflict_def by blast+

lemma track_handle:
  assumes nc: "no_conflict loops free s0" and dist: "distinct (map fst (sy_jobs s0))"
    and all: "all_on_track loops s0 s" and x0: "map_of (sy_jobs s0) k = Some x0"
    and js: "handle_event loops free n (sy_jobs s) = Some js"
  shows "on_track loops s0 (s\<lparr>sy_jobs := js\<rparr>) k x0"
proof -
  have keys: "map fst (sy_jobs s) = map fst (sy_jobs s0)" using all by (simp add: all_on_track_def)
  have track: "\<And>k x0. map_of (sy_jobs s0) k = Some x0 \<Longrightarrow> on_track loops s0 s k x0"
    using all by (simp add: all_on_track_def)
  obtain h x where x: "map_of (sy_jobs s) k = Some x" "sj_inbox x \<noteq> None \<longrightarrow> jb_alive (sj_job x)"
    "events_for k (sy_sends s0) = h @ (case sj_inbox x of None \<Rightarrow> [] | Some ev \<Rightarrow> [ev]) @ events_for k (sy_sends s)"
    "sj_job x = solo loops k (sj_job x0) h"
    using track [OF x0] by (rule on_trackE)
  show ?thesis
  proof (cases "k = n")
    case False
    then have "map_of js k = Some x" using js x(1) by (auto simp: handle_event_def split: option.splits)
    then show ?thesis using x by (auto simp: on_track_def intro!: exI [of _ h])
  next
    case True
    then obtain ev where ev: "sj_inbox x = Some ev" using js x(1) by (auto simp: handle_event_def split: option.splits)
    let ?listen = "\<lambda>a. free a \<and> \<not> taken sj_job (sy_jobs s) n a"
    have js': "map_of js k = Some (x\<lparr>sj_inbox := None, sj_job :=
        job_step (fst (loops n)) (snd (loops n)) ?listen (Received ev) (sj_job x)\<rparr>)"
      using js x(1) ev True by (auto simp: handle_event_def)
    have "job_step (fst (loops n)) (snd (loops n)) ?listen (Received ev) (sj_job x) =
        job_step (fst (loops n)) (snd (loops n)) (\<lambda>_. True) (Received ev) (sj_job x)"
    proof (rule job_step_listen)
      fix a assume "jb_server (job_step (fst (loops n)) (snd (loops n)) (\<lambda>_. True) (Received ev) (sj_job x)) = Some a"
      then have a: "a \<in> solo_addrs loops k (sj_job x0) (events_for k (sy_sends s0))"
        using x(3,4) ev True unfolding solo_addrs_def
        by - (rule CollectI, rule exI [of _ "h @ [ev]"], rule exI [of _ "events_for n (sy_sends s)"], simp)
      have "\<not> taken sj_job (sy_jobs s) n a"
      proof
        assume "taken sj_job (sy_jobs s) n a"
        then obtain m y where y: "m \<noteq> n" "map_of (sy_jobs s) m = Some y" "jb_server (sj_job y) = Some a"
          using dist keys by (auto simp: taken_iff)
        then obtain y0 where y0: "map_of (sy_jobs s0) m = Some y0" using keys_map_of [OF keys] by blast
        show False
          using no_conflictD(2) [OF nc x0 a _ y0] track_addrs [OF track [OF y0] y(2,3)] y(1) True by blast
      qed
      with no_conflictD(1) [OF nc x0 a] show "?listen a" by blast
    qed
    then show ?thesis using x ev js' True by (auto simp: on_track_def intro!: exI [of _ "h @ [ev]"])
  qed
qed

lemma track_step:
  assumes "no_conflict loops free s0" "distinct (map fst (sy_jobs s0))" "all_on_track loops s0 s"
    and "sys_step loops free mv s = Some s'"
  shows "all_on_track loops s0 s'"
proof (cases mv)
  case Deliver
  then obtain n ev rest js where s: "sy_sends s = (n, ev) # rest" "SendEvent n ev (sy_jobs s) = Some js"
    "s' = \<lparr>sy_jobs = js, sy_sends = rest\<rparr>"
    using assms(4) by (auto split: list.splits)
  then have "map fst js = map fst (sy_jobs s)" by (auto simp: SendEvent_def split: option.splits if_splits)
  then show ?thesis using assms(3) s track_deliver [OF _ s(1,2)] by (auto simp: all_on_track_def)
next
  case (Handle n)
  then obtain js where js: "handle_event loops free n (sy_jobs s) = Some js" "s' = s\<lparr>sy_jobs := js\<rparr>"
    using assms(4) by auto
  then have "map fst js = map fst (sy_jobs s)" by (auto simp: handle_event_def split: option.splits)
  then show ?thesis using assms(3) js track_handle [OF assms(1-3) _ js(1)] by (auto simp: all_on_track_def)
qed

lemma track_run:
  assumes "no_conflict loops free s0" "distinct (map fst (sy_jobs s0))"
  shows "all_on_track loops s0 s \<Longrightarrow> sys_run loops free ms s = Some s' \<Longrightarrow> all_on_track loops s0 s'"
  by (induction ms arbitrary: s) (auto split: option.splits dest: track_step [OF assms])

definition idle :: "'o sys \<Rightarrow> bool" where
  "idle s \<longleftrightarrow> distinct (map fst (sy_jobs s)) \<and> list_all (\<lambda>(n, x). sj_inbox x = None) (sy_jobs s)"

lemma idle_track: "idle s \<Longrightarrow> all_on_track loops s s"
  by (auto simp: idle_def all_on_track_def on_track_def list_all_iff dest!: map_of_SomeD intro!: exI [of _ "[]"])

lemma no_interference_run:
  assumes "no_conflict loops free s0" "idle s0" "sys_run loops free ms s0 = Some s" "quiet s"
    and "map_of (sy_jobs s0) n = Some x0"
  shows "\<exists>x. map_of (sy_jobs s) n = Some x \<and> sj_job x = solo loops n (sj_job x0) (events_for n (sy_sends s0))"
proof -
  have "distinct (map fst (sy_jobs s0))" using assms(2) by (simp add: idle_def)
  from track_run [OF assms(1) this idle_track [OF assms(2)] assms(3)] assms(5)
  have "on_track loops s0 s n x0" by (simp add: all_on_track_def)
  then obtain h x where x: "map_of (sy_jobs s) n = Some x" "sj_job x = solo loops n (sj_job x0) h"
    "events_for n (sy_sends s0) = h @ (case sj_inbox x of None \<Rightarrow> [] | Some ev \<Rightarrow> [ev]) @ events_for n (sy_sends s)"
    by (rule on_trackE)
  have "sj_inbox x = None" "sy_sends s = []"
    using assms(4) map_of_SomeD [OF x(1)] by (auto simp: quiet_def list_all_iff)
  with x show ?thesis by simp
qed

section \<open>Progress\<close>

definition handling :: "(string \<times> 'o sys_job) list \<Rightarrow> nat" where
  "handling js = length (filter (\<lambda>(n, x). sj_inbox x \<noteq> None) js)"

definition sys_size :: "'o sys \<Rightarrow> nat" where
  "sys_size s = 2 * length (sy_sends s) + handling (sy_jobs s)"

lemma handling_upd:
  "distinct (map fst js) \<Longrightarrow> map_of js n = Some x \<Longrightarrow>
   handling (upd_job n f js) + (if sj_inbox x = None then 0 else 1) =
   handling js + (if sj_inbox (f x) = None then 0 else 1)"
  by (induction js)
    (auto simp: handling_def upd_job_def dom_map_of_conv_image_fst image_iff
      intro!: arg_cong [where f = length] filter_cong map_idI split: if_splits)

lemma step_size:
  assumes "distinct (map fst (sy_jobs s))" "sys_step loops free mv s = Some s'"
  shows "sys_size s' < sys_size s"
proof (cases mv)
  case Deliver
  then obtain n ev rest js where s: "sy_sends s = (n, ev) # rest" "SendEvent n ev (sy_jobs s) = Some js"
    "s' = \<lparr>sy_jobs = js, sy_sends = rest\<rparr>"
    using assms(2) by (auto split: list.splits)
  then have "handling js \<le> handling (sy_jobs s) + 1"
    using handling_upd [OF assms(1), of n _ "\<lambda>x. x\<lparr>sj_inbox := Some ev\<rparr>"]
    by (fastforce simp: SendEvent_def split: option.splits if_splits)
  then show ?thesis using s by (simp add: sys_size_def)
next
  case (Handle n)
  then obtain js where js: "handle_event loops free n (sy_jobs s) = Some js" "s' = s\<lparr>sy_jobs := js\<rparr>"
    using assms(2) by auto
  then obtain x ev where x: "map_of (sy_jobs s) n = Some x" "sj_inbox x = Some ev"
    by (auto simp: handle_event_def split: option.splits)
  then have "handling js + 1 = handling (sy_jobs s)"
    using handling_upd [OF assms(1) x(1), of "\<lambda>x. x\<lparr>sj_inbox := None, sj_job :=
        job_step (fst (loops n)) (snd (loops n)) (\<lambda>a. free a \<and> \<not> taken sj_job (sy_jobs s) n a)
          (Received ev) (sj_job x)\<rparr>"]
    x js(1) by (auto simp: handle_event_def split: option.splits)
  then show ?thesis using js by (simp add: sys_size_def)
qed

lemma step_keys: "sys_step loops free mv s = Some s' \<Longrightarrow> map fst (sy_jobs s') = map fst (sy_jobs s)"
  by (cases mv) (auto simp: SendEvent_def handle_event_def split: option.splits list.splits if_splits)

lemma run_bounded:
  "distinct (map fst (sy_jobs s)) \<Longrightarrow> sys_run loops free ms s = Some s' \<Longrightarrow> length ms + sys_size s' \<le> sys_size s"
proof (induction ms arbitrary: s)
  case (Cons mv ms)
  then obtain s1 where s1: "sys_step loops free mv s = Some s1" "sys_run loops free ms s1 = Some s'"
    by (auto split: option.splits)
  with Cons.IH [of s1] Cons.prems(1) step_keys [OF s1(1)] step_size [OF Cons.prems(1) s1(1)] show ?case by simp
qed simp

lemma not_quiet_steps:
  assumes "distinct (map fst (sy_jobs s))" "\<not> quiet s"
  shows "\<exists>mv. sys_step loops free mv s \<noteq> None"
proof (cases "\<exists>n x. map_of (sy_jobs s) n = Some x \<and> sj_inbox x \<noteq> None")
  case True
  then obtain n x ev where "map_of (sy_jobs s) n = Some x" "sj_inbox x = Some ev" by auto
  then have "sys_step loops free (Handle n) s \<noteq> None" by (simp add: handle_event_def)
  then show ?thesis by blast
next
  case False
  then have "list_all (\<lambda>(n, x). sj_inbox x = None) (sy_jobs s)"
    using assms(1) by (fastforce simp: list_all_iff)
  then obtain n ev rest where "sy_sends s = (n, ev) # rest"
    using assms(2) by (cases "sy_sends s") (auto simp: quiet_def)
  with False have "sys_step loops free Deliver s \<noteq> None"
    by (auto simp: SendEvent_def split: option.splits)
  then show ?thesis by blast
qed

section \<open>Handling one event at a time\<close>

text \<open>The manager as if each event were handled before the next is sent.\<close>

definition send_sync ::
  "'o loops \<Rightarrow> (string \<Rightarrow> bool) \<Rightarrow> (string \<times> 'o job) list \<Rightarrow> string \<times> 'o event \<Rightarrow> (string \<times> 'o job) list" where
  "send_sync loops free js s =
     (case s of (n, ev) \<Rightarrow> upd_job n (job_step (fst (loops n)) (snd (loops n))
        (\<lambda>a. free a \<and> \<not> taken id js n a) (Received ev)) js)"

definition sync_run ::
  "'o loops \<Rightarrow> (string \<Rightarrow> bool) \<Rightarrow> 'o sends \<Rightarrow> (string \<times> 'o job) list \<Rightarrow> (string \<times> 'o job) list" where
  "sync_run loops free ss js = foldl (send_sync loops free) js ss"

text \<open>New options \<open>new\<close> for every job, valid, and at different free addresses.\<close>

definition good_config ::
  "'o loops \<Rightarrow> (string \<Rightarrow> bool) \<Rightarrow> (string \<Rightarrow> 'o) \<Rightarrow> (string \<Rightarrow> 'o) \<Rightarrow> (string \<times> 'o job) list \<Rightarrow> bool" where
  "good_config loops free new new' js \<longleftrightarrow>
     distinct (map fst js) \<and> distinct (map (\<lambda>(n, j). fst (loops n) (new n)) js) \<and>
     (\<forall>(n, j) \<in> set js. service_loop (fst (loops n)) (snd (loops n)) \<and> jb_alive j \<and> job_inv (fst (loops n)) j \<and>
        SplitHostPort (fst (loops n) (new n)) \<noteq> None \<and> free (fst (loops n) (new n)) \<and>
        snd (loops n) (jb_opts j) (new n) = Some (new' n))"

definition loaded :: "'o loops \<Rightarrow> (string \<Rightarrow> 'o) \<Rightarrow> (string \<Rightarrow> 'o) \<Rightarrow> string \<Rightarrow> 'o job \<Rightarrow> bool" where
  "loaded loops new new' n j \<longleftrightarrow>
     jb_alive j \<and> jb_opts j = new' n \<and> jb_server j \<in> {None, Some (fst (loops n) (new n))}"

lemma load_one:
  assumes "service_loop on load" "jb_alive j" "job_inv on j" "SplitHostPort (on new) \<noteq> None"
    and "load (jb_opts j) new = Some new'"
  shows "job_step on load listen (Received (LoadEvent new)) j =
    \<lparr>jb_opts = new', jb_server = (if on new = on (jb_opts j) then jb_server j else None), jb_alive = True\<rparr>"
  using assms(2-5) by (auto simp: job_defs Let_def intro!: job.equality)

lemma upd_job_map: "upd_job n f js = map (\<lambda>(m, x). if m = n then (m, f x) else (m, x)) js"
  by (auto simp: upd_job_def)

lemma upd_job_absent [simp]: "n \<notin> fst ` set js \<Longrightarrow> upd_job n f js = js"
  by (force simp: upd_job_def intro!: map_idI)

lemma upd_job_append: "upd_job n f (js @ ks) = upd_job n f js @ upd_job n f ks"
  by (simp add: upd_job_def)

lemma upd_job_Cons: "upd_job n f ((m, x) # js) = (m, if m = n then f x else x) # upd_job n f js"
  by (simp add: upd_job_def)

text \<open>After the \<open>LoadEvent\<close>s every job has its options and at most a listener at its new address.\<close>

lemma sync_loads:
  assumes "good_config loops free new new' js" "js = done_js @ todo"
    and "length done_js' = length done_js" "map fst done_js' = map fst done_js"
    and "list_all (\<lambda>(n, j). loaded loops new new' n j) done_js'"
  shows "\<exists>js'. sync_run loops free (map (\<lambda>(n, j). (n, LoadEvent (new n))) todo) (done_js' @ todo) = js' \<and>
    map fst js' = map fst js \<and> list_all (\<lambda>(n, j). loaded loops new new' n j) js'"
  using assms(2-)
proof (induction todo arbitrary: done_js done_js')
  case Nil
  then show ?case by (simp add: sync_run_def)
next
  case (Cons x todo)
  obtain n j where x: "x = (n, j)" by (cases x)
  have good: "service_loop (fst (loops n)) (snd (loops n))" "jb_alive j" "job_inv (fst (loops n)) j"
    "SplitHostPort (fst (loops n) (new n)) \<noteq> None" "snd (loops n) (jb_opts j) (new n) = Some (new' n)"
    and fresh: "n \<notin> fst ` set done_js" "n \<notin> fst ` set todo"
    using assms(1) Cons.prems(1) x by (auto simp: good_config_def image_iff)
  have fresh': "n \<notin> fst ` set done_js'" using fresh(1) Cons.prems(3) by (metis list.set_map)
  let ?listen = "\<lambda>a. free a \<and> \<not> taken id (done_js' @ x # todo) n a"
  let ?j = "job_step (fst (loops n)) (snd (loops n)) ?listen (Received (LoadEvent (new n))) j"
  have "loaded loops new new' n ?j"
    using good(3) by (cases "jb_server j") (auto simp: load_one [OF good] loaded_def job_inv_def)
  moreover have "sync_run loops free (map (\<lambda>(n, j). (n, LoadEvent (new n))) (x # todo)) (done_js' @ x # todo) =
      sync_run loops free (map (\<lambda>(n, j). (n, LoadEvent (new n))) todo) ((done_js' @ [(n, ?j)]) @ todo)"
    using fresh(2) fresh' x by (simp add: sync_run_def send_sync_def upd_job_append upd_job_Cons)
  ultimately show ?case
    using Cons.IH [of "done_js @ [x]" "done_js' @ [(n, ?j)]"] Cons.prems x by simp
qed

definition listening :: "'o loops \<Rightarrow> (string \<Rightarrow> 'o) \<Rightarrow> (string \<Rightarrow> 'o) \<Rightarrow> string \<Rightarrow> 'o job \<Rightarrow> bool" where
  "listening loops new new' n j \<longleftrightarrow> jb_alive j \<and> jb_opts j = new' n \<and> jb_server j = Some (fst (loops n) (new n))"

lemma loaded_one:
  assumes "loaded loops new new' n j" "fst (loops n) (new' n) = fst (loops n) (new n)"
    and "listen (fst (loops n) (new n))"
  shows "listening loops new new' n (job_step (fst (loops n)) load listen (Received LoadedEvent) j)"
  using assms by (auto simp: loaded_def listening_def job_step_def start_server_def split: option.splits)

lemma distinct_addrs:
  assumes "distinct (map (\<lambda>(n, j). f n) js)" "(n, j) \<in> set js" "(m, j') \<in> set js" "f n = f m"
  shows "n = m"
  using inj_onD [of "\<lambda>(n, j). f n" "set js" "(n, j)" "(m, j')"] assms by (simp add: distinct_map)

text \<open>Then every \<open>LoadedEvent\<close> finds its address free.\<close>

lemma sync_loadeds:
  assumes keys: "distinct (map fst js)" and addrs: "distinct (map (\<lambda>(n, j). fst (loops n) (new n)) js)"
    and free: "\<forall>(n, j) \<in> set js. free (fst (loops n) (new n)) \<and> fst (loops n) (new' n) = fst (loops n) (new n)"
    and "map fst js = map fst ds @ map fst todo"
    and "list_all (\<lambda>(n, j). listening loops new new' n j) ds" "list_all (\<lambda>(n, j). loaded loops new new' n j) todo"
  shows "list_all (\<lambda>(n, j). listening loops new new' n j)
    (sync_run loops free (map (\<lambda>(n, j). (n, LoadedEvent)) todo) (ds @ todo))"
  using assms(4-)
proof (induction todo arbitrary: ds)
  case Nil
  then show ?case by (simp add: sync_run_def)
next
  case (Cons x todo)
  obtain n j where x: "x = (n, j)" by (cases x)
  have names: "n \<notin> fst ` set ds" "n \<notin> fst ` set todo"
    using keys Cons.prems(1) x by (metis distinct.simps(2) distinct_append fst_conv list.set_map list.simps(9) not_distinct_conv_prefix,
        metis distinct.simps(2) distinct_append fst_conv list.set_map list.simps(9))
  have in_js: "\<exists>i. (m, i) \<in> set js" if "m \<in> fst ` set (ds @ x # todo)" for m
    using that Cons.prems(1) by (metis (no_types, lifting) image_iff list.set_map map_append prod.collapse)
  obtain i where i: "(n, i) \<in> set js" using in_js [of n] x by auto
  have "\<not> taken id (ds @ x # todo) n (fst (loops n) (new n))"
  proof
    assume "taken id (ds @ x # todo) n (fst (loops n) (new n))"
    then obtain m y where y: "(m, y) \<in> set (ds @ x # todo)" "m \<noteq> n" "jb_server y = Some (fst (loops n) (new n))"
      by (auto simp: taken_def list_ex_iff)
    then have "jb_server y = Some (fst (loops m) (new m))"
      using Cons.prems(2,3) by (auto simp: list_all_iff listening_def loaded_def)
    moreover obtain k where "(m, k) \<in> set js" using in_js [of m] y(1) by force
    ultimately show False using distinct_addrs [OF addrs i] y by auto
  qed
  then have "listening loops new new' n (job_step (fst (loops n)) (snd (loops n))
      (\<lambda>a. free a \<and> \<not> taken id (ds @ x # todo) n a) (Received LoadedEvent) j)" (is "listening _ _ _ _ ?j")
    using Cons.prems(3) x free i by (intro loaded_one) auto
  moreover have "sync_run loops free (map (\<lambda>(n, j). (n, LoadedEvent)) (x # todo)) (ds @ x # todo) =
      sync_run loops free (map (\<lambda>(n, j). (n, LoadedEvent)) todo) ((ds @ [(n, ?j)]) @ todo)"
    using names x by (simp add: sync_run_def send_sync_def upd_job_append upd_job_Cons)
  ultimately show ?case
    using Cons.IH [of "ds @ [(n, ?j)]"] Cons.prems x by simp
qed

lemma sync_run_append: "sync_run loops free (ss @ ss') js = sync_run loops free ss' (sync_run loops free ss js)"
  by (simp add: sync_run_def)

lemma two_phases:
  assumes good: "good_config loops free new new' js"
  shows "list_all (\<lambda>(n, j). listening loops new new' n j)
    (sync_run loops free (map (\<lambda>(n, j). (n, LoadEvent (new n))) js @ map (\<lambda>(n, j). (n, LoadedEvent)) js) js)"
proof -
  define js' where "js' = sync_run loops free (map (\<lambda>(n, j). (n, LoadEvent (new n))) js) js"
  have js': "map fst js' = map fst js" "list_all (\<lambda>(n, j). loaded loops new new' n j) js'"
    using sync_loads [OF good, of "[]" js "[]"] by (auto simp: js'_def)
  have addr: "fst (loops n) (new' n) = fst (loops n) (new n)" if "(n, j) \<in> set js" for n j
    using good that service_loop.load_on by (fastforce simp: good_config_def)
  have "map (\<lambda>(n, j). f n) js' = map (\<lambda>(n, j). f n) js" for f :: "string \<Rightarrow> 'c"
    using arg_cong [OF js'(1), of "map f"] by (simp add: comp_def case_prod_unfold)
  note same = this
  have "list_all (\<lambda>(n, j). listening loops new new' n j)
    (sync_run loops free (map (\<lambda>(n, j). (n, LoadedEvent)) js') ([] @ js'))"
  proof (rule sync_loadeds)
    show "distinct (map fst js)" "distinct (map (\<lambda>(n, j). fst (loops n) (new n)) js)"
      using good by (simp_all add: good_config_def)
    show "\<forall>(n, j) \<in> set js. free (fst (loops n) (new n)) \<and> fst (loops n) (new' n) = fst (loops n) (new n)"
      using good addr by (auto simp: good_config_def)
  qed (use js' in simp_all)
  then show ?thesis by (simp add: sync_run_append js'_def [symmetric] same)
qed

section \<open>Properties\<close>

text \<open>
  C19. Jobs that never want the same address do not interfere: whatever the schedule, when all
  events have been handled every job is in the state that it reaches on its own.
\<close>
theorem no_interference:
  assumes "no_conflict loops free s0" and "idle s0" and "sys_run loops free ms s0 = Some s" and "quiet s"
    and "map_of (sy_jobs s0) n = Some x0"
  shows "\<exists>x. map_of (sy_jobs s) n = Some x \<and> sj_job x = solo loops n (sj_job x0) (events_for n (sy_sends s0))"
  using assms by (rule no_interference_run)

text \<open>
  C20. Loading ends: a schedule has at most two moves for each event, and while events are left,
  the manager or a job can move.
\<close>
theorem events_get_handled:
  assumes "idle s0" and "sys_run loops free ms s0 = Some s"
  shows "length ms \<le> 2 * length (sy_sends s0) \<and> (quiet s \<or> (\<exists>mv. sys_step loops free mv s \<noteq> None))"
proof -
  have dist: "distinct (map fst (sy_jobs s0))" and "handling (sy_jobs s0) = 0"
    using assms(1) by (auto simp: idle_def handling_def list_all_iff filter_empty_conv)
  moreover have "map fst (sy_jobs s) = map fst (sy_jobs s0)"
    using assms(2) by (induction ms arbitrary: s0) (auto split: option.splits dest: step_keys)
  ultimately show ?thesis
    using run_bounded [OF dist assms(2)] not_quiet_steps [of s] by (auto simp: sys_size_def)
qed

text \<open>
  C21. If each event is handled before the next one is sent, a configuration that gives every job
  valid options and the jobs different free addresses is always taken over, also one in which jobs
  swap their addresses: all listeners that must close do so before the first one opens.
\<close>
theorem two_phase_loading:
  assumes "good_config loops free new new' js"
  shows "list_all (\<lambda>(n, j). listening loops new new' n j)
    (sync_run loops free (map (\<lambda>(n, j). (n, LoadEvent (new n))) js @ map (\<lambda>(n, j). (n, LoadedEvent)) js) js)"
  using assms by (rule two_phases)

text \<open>Two jobs that swap their addresses; options are just addresses.\<close>

definition plain_loops :: "string loops" where
  "plain_loops = (\<lambda>n. (\<lambda>opts. opts, \<lambda>old new. Some new))"

definition swap_new :: "string \<Rightarrow> string" where
  "swap_new n = (if n = ''a'' then '':2'' else '':1'')"

definition swap_jobs :: "(string \<times> string job) list" where
  "swap_jobs = [(''a'', \<lparr>jb_opts = '':1'', jb_server = Some '':1'', jb_alive = True\<rparr>),
                (''b'', \<lparr>jb_opts = '':2'', jb_server = Some '':2'', jb_alive = True\<rparr>)]"

lemma split_ports: "SplitHostPort '':1'' = Some ([], ''1'')" "SplitHostPort '':2'' = Some ([], ''2'')"
  "SplitHostPort '':3'' = Some ([], ''3'')"
  by (simp_all add: SplitHostPort_def last_index_byte_def)

lemma swap_good: "good_config plain_loops (\<lambda>_. True) swap_new swap_new swap_jobs"
  by (auto simp: good_config_def swap_jobs_def plain_loops_def swap_new_def job_inv_def split_ports service_loop_def)

lemma two_phase_loading_witness:
  "\<exists>ja jb. sync_run plain_loops (\<lambda>_. True)
      [(''a'', LoadEvent '':2''), (''b'', LoadEvent '':1''), (''a'', LoadedEvent), (''b'', LoadedEvent)] swap_jobs =
      [(''a'', ja), (''b'', jb)] \<and> jb_server ja = Some '':2'' \<and> jb_server jb = Some '':1''"
proof -
  have "list_all (\<lambda>(n, j). listening plain_loops swap_new swap_new n j) (sync_run plain_loops (\<lambda>_. True)
      [(''a'', LoadEvent '':2''), (''b'', LoadEvent '':1''), (''a'', LoadedEvent), (''b'', LoadedEvent)] swap_jobs)"
    using two_phase_loading [OF swap_good] by (simp add: swap_jobs_def swap_new_def)
  then show ?thesis
    by (auto simp: swap_jobs_def sync_run_def send_sync_def upd_job_def listening_def plain_loops_def swap_new_def)
qed

text \<open>
  The manager does not wait for that: it goes on as soon as a job has taken an event. Here \<open>b\<close> takes
  \<open>LoadedEvent\<close> while \<open>a\<close> still handles its \<open>LoadEvent\<close> and holds the address; \<open>b\<close> fails to
  listen and ends, although the configuration is good.
\<close>

definition swap_start :: "string sys" where
  "swap_start = \<lparr>sy_jobs = map (\<lambda>(n, j). (n, \<lparr>sj_job = j, sj_inbox = None\<rparr>)) swap_jobs,
     sy_sends = [(''b'', LoadEvent '':1''), (''a'', LoadEvent '':2''), (''b'', LoadedEvent), (''a'', LoadedEvent),
                 (''b'', NilEvent), (''a'', NilEvent)]\<rparr>"

lemma swap_race:
  "\<exists>s x. sys_run plain_loops (\<lambda>_. True)
      [Deliver, Handle ''b'', Deliver, Deliver, Handle ''b'', Handle ''a'', Deliver, Handle ''a'', Deliver, Deliver, Handle ''a'']
      swap_start = Some s \<and> quiet s \<and> map_of (sy_jobs s) ''b'' = Some x \<and> \<not> jb_alive (sj_job x)"
  by (simp add: swap_start_def swap_jobs_def plain_loops_def SendEvent_def handle_event_def upd_job_def
      job_step_def on_load_def job_return_def stop_server_def start_server_def taken_def split_ports quiet_def)

text \<open>A configuration without conflict: \<open>a\<close> moves to a new address, \<open>b\<close> stays.\<close>

definition move_start :: "string sys" where
  "move_start = \<lparr>sy_jobs = map (\<lambda>(n, j). (n, \<lparr>sj_job = j, sj_inbox = None\<rparr>)) swap_jobs,
     sy_sends = [(''a'', LoadEvent '':3''), (''b'', LoadEvent '':2''), (''a'', LoadedEvent), (''b'', LoadedEvent)]\<rparr>"

lemma solo_addrs_step:
  "solo_addrs loops n j [] = {a. jb_server j = Some a}"
  "solo_addrs loops n j (ev # evs) = {a. jb_server j = Some a} \<union>
     solo_addrs loops n (job_step (fst (loops n)) (snd (loops n)) (\<lambda>_. True) (Received ev) j) evs"
proof -
  have split: "(\<exists>h t. ev # evs = h @ t \<and> P h) \<longleftrightarrow> P [] \<or> (\<exists>h t. evs = h @ t \<and> P (ev # h))" for P
    by (simp add: Cons_eq_append_conv) blast
  show "solo_addrs loops n j [] = {a. jb_server j = Some a}" by (simp add: solo_addrs_def)
  show "solo_addrs loops n j (ev # evs) = {a. jb_server j = Some a} \<union>
     solo_addrs loops n (job_step (fst (loops n)) (snd (loops n)) (\<lambda>_. True) (Received ev) j) evs"
    unfolding solo_addrs_def split by (auto simp: solo_def)
qed

lemma move_ok: "no_conflict plain_loops (\<lambda>_. True) move_start" "idle move_start"
  by (auto simp: no_conflict_def move_start_def swap_jobs_def idle_def solo_addrs_step plain_loops_def job_step_def
      on_load_def start_server_def stop_server_def split_ports split: if_splits)

definition move_schedule :: "move list" where
  "move_schedule = [Deliver, Deliver, Handle ''b'', Handle ''a'', Deliver, Deliver, Handle ''b'', Handle ''a'']"

lemma move_runs: "\<exists>s. sys_run plain_loops (\<lambda>_. True) move_schedule move_start = Some s \<and> quiet s"
  by (simp add: move_schedule_def move_start_def swap_jobs_def plain_loops_def SendEvent_def handle_event_def upd_job_def
      job_step_def on_load_def stop_server_def start_server_def taken_def split_ports quiet_def)

lemma no_interference_witness:
  "\<exists>s x. sys_run plain_loops (\<lambda>_. True) move_schedule move_start = Some s \<and>
     map_of (sy_jobs s) ''a'' = Some x \<and> jb_server (sj_job x) = Some '':3''"
proof -
  obtain s where s: "sys_run plain_loops (\<lambda>_. True) move_schedule move_start = Some s" "quiet s"
    using move_runs by blast
  have "map_of (sy_jobs move_start) ''a'' =
      Some \<lparr>sj_job = \<lparr>jb_opts = '':1'', jb_server = Some '':1'', jb_alive = True\<rparr>, sj_inbox = None\<rparr>"
    by (simp add: move_start_def swap_jobs_def)
  from no_interference [OF move_ok s this] s(1) show ?thesis
    by (auto simp: move_start_def solo_def plain_loops_def job_step_def on_load_def start_server_def stop_server_def split_ports)
qed

lemma events_get_handled_witness:
  "\<exists>s. sys_run plain_loops (\<lambda>_. True) [Deliver] move_start = Some s \<and>
     (quiet s \<or> (\<exists>mv. sys_step plain_loops (\<lambda>_. True) mv s \<noteq> None))"
proof -
  obtain s where "sys_run plain_loops (\<lambda>_. True) [Deliver] move_start = Some s"
    by (simp add: move_start_def swap_jobs_def SendEvent_def)
  with events_get_handled [OF move_ok(2) this] show ?thesis by blast
qed

end
