(* ===== verification/Runtime.thy ===== *)
theory Runtime
  imports Conn
begin

text \<open>
  What the manager offers to services besides \<open>NewConn\<close>: logging (\<open>logging.go\<close>), accepting
  connections (\<open>serving.go\<close>) and relaying (\<open>relay.go\<close>). Log handles and connections are
  names; the operating system's answers (does the file open, does a write fail, what does
  \<open>Accept\<close> return) are arguments.
\<close>

section \<open>Logging\<close>

record ('f, 'w) logging =
  lg_level :: int
  lg_file :: "'f option"
  lg_output :: "'w option"
  lg_opened :: "'f list"      \<comment> \<open>every file opened so far\<close>
  lg_closed :: "'f list"      \<comment> \<open>and every file closed\<close>

definition logging_start :: "('f, 'w) logging" where
  "logging_start = \<lparr>lg_level = 0, lg_file = None, lg_output = None, lg_opened = [], lg_closed = []\<rparr>"

definition SetLogLevel :: "int \<Rightarrow> ('f, 'w) logging \<Rightarrow> ('f, 'w) logging" where
  "SetLogLevel level m = m\<lparr>lg_level := level\<rparr>"

definition LogLevel :: "('f, 'w) logging \<Rightarrow> int" where
  "LogLevel m = lg_level m"

definition close_log :: "('f, 'w) logging \<Rightarrow> ('f, 'w) logging" where
  "close_log m =
     (case lg_file m of
        None \<Rightarrow> m
      | Some f \<Rightarrow> m\<lparr>lg_closed := lg_closed m @ [f], lg_file := None\<rparr>)"

text \<open>\<open>opened\<close> is the new file, or the error of \<open>os.OpenFile\<close>; the result tells an error.\<close>

definition SetLogFile :: "string \<Rightarrow> 'e + 'f \<Rightarrow> ('f, 'w) logging \<Rightarrow> 'e option \<times> ('f, 'w) logging" where
  "SetLogFile name opened m =
     (let m1 = close_log m
      in if name \<noteq> [] then
           (case opened of
              Inl err \<Rightarrow> (Some err, m1)
            | Inr f \<Rightarrow> (None, m1\<lparr>lg_file := Some f, lg_opened := lg_opened m1 @ [f]\<rparr>))
         else (None, m1))"

definition SetLogOutput :: "'w option \<Rightarrow> ('f, 'w) logging \<Rightarrow> ('f, 'w) logging" where
  "SetLogOutput w m = m\<lparr>lg_output := w\<rparr>"

text \<open>\<open>loggingWriter.Write\<close>, given whether each of the two writes fails; it never fails itself.\<close>

definition log_Write :: "nat \<Rightarrow> bool \<Rightarrow> bool \<Rightarrow> ('f, 'w) logging \<Rightarrow> nat \<times> ('f, 'w) logging" where
  "log_Write len file_err output_err m =
     (let m1 = (if lg_file m \<noteq> None \<and> file_err then close_log m else m);
          m2 = (if lg_output m1 \<noteq> None \<and> output_err then m1\<lparr>lg_output := None\<rparr> else m1)
      in (len, m2))"

datatype ('f, 'w) log_op = SetLevel int | SetFile string "unit + 'f" | SetOutput "'w option" | WriteLog nat bool bool

fun log_step :: "('f, 'w) log_op \<Rightarrow> ('f, 'w) logging \<Rightarrow> ('f, 'w) logging" where
  "log_step (SetLevel l) m = SetLogLevel l m"
| "log_step (SetFile name opened) m = snd (SetLogFile name opened m)"
| "log_step (SetOutput w) m = SetLogOutput w m"
| "log_step (WriteLog len e1 e2) m = snd (log_Write len e1 e2 m)"

definition log_inv :: "('f, 'w) logging \<Rightarrow> bool" where
  "log_inv m \<longleftrightarrow> lg_opened m = lg_closed m @ (case lg_file m of None \<Rightarrow> [] | Some f \<Rightarrow> [f])"

lemmas log_defs = SetLogLevel_def SetLogFile_def SetLogOutput_def log_Write_def close_log_def

lemma log_step_inv [inv_intros]: "log_inv m \<Longrightarrow> log_inv (log_step op m)"
  by (cases op) (auto simp: log_inv_def log_defs Let_def split: option.splits sum.splits)

lemma log_steps_inv: "log_inv m \<Longrightarrow> log_inv (fold log_step ops m)"
  by (induction ops arbitrary: m) (simp_all add: log_step_inv)

section \<open>Serving\<close>

abbreviation "millisecond \<equiv> (1000000 :: int)"

datatype 'c accepted = Accepted 'c | AcceptTemporary | AcceptFailed

record 'c serving =
  sg_tempDelay :: duration
  sg_connections :: "'c list"
  sg_slept :: "duration list"    \<comment> \<open>the pauses so far\<close>
  sg_running :: bool
  sg_closed :: "'c list"

definition serving_start :: "'c list \<Rightarrow> 'c serving" where
  "serving_start cs = \<lparr>sg_tempDelay = 0, sg_connections = cs, sg_slept = [], sg_running = True, sg_closed = []\<rparr>"

definition next_delay :: "duration \<Rightarrow> duration" where
  "next_delay d =
     (let d1 = (if d = 0 then 5 * millisecond else d * 2)
      in if d1 > 1 * second then 1 * second else d1)"

text \<open>One turn of the loop of \<open>Serve\<close>.\<close>

fun Serve_turn :: "'c accepted \<Rightarrow> 'c serving \<Rightarrow> 'c serving" where
  "Serve_turn AcceptTemporary s =
     s\<lparr>sg_tempDelay := next_delay (sg_tempDelay s), sg_slept := sg_slept s @ [next_delay (sg_tempDelay s)]\<rparr>"
| "Serve_turn AcceptFailed s = s\<lparr>sg_running := False\<rparr>"
| "Serve_turn (Accepted c) s = s\<lparr>sg_tempDelay := 0, sg_connections := sg_connections s @ [c]\<rparr>"

fun Serve :: "'c accepted list \<Rightarrow> 'c serving \<Rightarrow> 'c serving" where
  "Serve [] s = s"
| "Serve (a # as) s = (if sg_running s then Serve as (Serve_turn a s) else s)"

text \<open>\<open>fn\<close> returned (or panicked) for a connection.\<close>

definition fn_returns :: "'c \<Rightarrow> 'c serving \<Rightarrow> 'c serving" where
  "fn_returns c s = s\<lparr>sg_closed := sg_closed s @ [c], sg_connections := removeAll c (sg_connections s)\<rparr>"

definition CloseConnections :: "'c serving \<Rightarrow> 'c serving" where
  "CloseConnections s = s\<lparr>sg_closed := sg_closed s @ sg_connections s\<rparr>"

lemma Serve_append: "Serve (as @ bs) s = Serve bs (Serve as s)"
proof (induction as arbitrary: s)
  case Nil
  then show ?case by simp
next
  case (Cons a as)
  then show ?case by (cases bs) simp_all
qed

lemma iterate_delay: "(next_delay ^^ Suc n) 0 = min (5 * millisecond * 2 ^ n) (1 * second)"
proof (induction n)
  case 0
  then show ?case by (simp add: next_delay_def)
next
  case (Suc n)
  have "(0::int) < 2 ^ n" by simp
  with Suc show ?case by (simp add: next_delay_def min_def)
qed

lemma Serve_temporary:
  assumes "sg_running s"
  shows "Serve (replicate n AcceptTemporary) s =
    s\<lparr>sg_tempDelay := (next_delay ^^ n) (sg_tempDelay s),
      sg_slept := sg_slept s @ map (\<lambda>k. (next_delay ^^ Suc k) (sg_tempDelay s)) [0..<n]\<rparr>"
  using assms
proof (induction n)
  case (Suc n)
  have "replicate (Suc n) AcceptTemporary = replicate n AcceptTemporary @ [AcceptTemporary :: 'a accepted]"
    by (simp add: replicate_append_same)
  with Suc show ?case by (simp only: Serve_append) simp
qed simp

section \<open>Properties\<close>

text \<open>
  No log file leaks and none is closed twice: after any operations the files opened are those
  closed, in the same order, followed by the one in use. \<open>SetLogFile\<close> with an empty name, as
  \<open>Shutdown\<close> calls it, leaves every file closed.
\<close>
theorem log_files_closed:
  "lg_opened (fold log_step ops logging_start) =
     lg_closed (fold log_step ops logging_start) @
     (case lg_file (fold log_step ops logging_start) of None \<Rightarrow> [] | Some f \<Rightarrow> [f]) \<and>
   lg_closed (snd (SetLogFile [] r (fold log_step ops logging_start))) = lg_opened (fold log_step ops logging_start)"
proof -
  have "log_inv (fold log_step ops logging_start)"
    by (rule log_steps_inv) (simp add: log_inv_def logging_start_def)
  then show ?thesis by (auto simp: log_inv_def SetLogFile_def close_log_def split: option.splits)
qed

text \<open>
  C24. After temporary failures of \<open>Accept\<close> the pauses double from 5 ms up to one second; a
  connection resets them.
\<close>
theorem Serve_backoff:
  "sg_slept (Serve (replicate n AcceptTemporary) (serving_start cs)) =
     map (\<lambda>k. min (5 * millisecond * 2 ^ k) (1 * second)) [0..<n] \<and>
   sg_tempDelay (Serve (replicate n AcceptTemporary @ [Accepted c]) (serving_start cs)) = 0"
proof -
  have run: "sg_running (serving_start cs)" by (simp add: serving_start_def)
  have "map (\<lambda>k. (next_delay ^^ Suc k) 0) [0..<n] = map (\<lambda>k. min (5 * millisecond * 2 ^ k) (1 * second)) [0..<n]"
    by (rule map_cong [OF refl]) (simp only: iterate_delay)
  then show ?thesis by (simp add: Serve_append Serve_temporary [OF run]) (simp add: serving_start_def)
qed

end
