(* ===== verification/Relay.thy ===== *)
theory Relay
  imports Conn
begin

text \<open>
  \<open>relayService.Relay\<close> of \<open>relay.go\<close>: two goroutines copy, one per direction, and the caller
  waits on a timer and on the channel \<open>reset\<close>, which has room for one message. \<open>rl_step\<close> is one
  move of one of them; \<open>None\<close> means that it cannot move now.
\<close>

section \<open>Options\<close>

record RelayOptions =
  ro_ConnIdle :: duration
  ro_UplinkIdle :: duration
  ro_DownlinkIdle :: duration

definition "defaultRelayConnIdle = 300 * second"
definition "defaultRelayUplinkIdle = (0 :: duration)"
definition "defaultRelayDownlinkIdle = (0 :: duration)"

definition SetRelayOptions :: "RelayOptions \<Rightarrow> RelayOptions \<Rightarrow> RelayOptions" where
  "SetRelayOptions m opts = m\<lparr>ro_ConnIdle := ro_ConnIdle opts, ro_UplinkIdle := ro_UplinkIdle opts,
     ro_DownlinkIdle := ro_DownlinkIdle opts\<rparr>"

definition relay_options :: "RelayOptions \<Rightarrow> RelayOptions \<Rightarrow> RelayOptions" where
  "relay_options m opts = \<lparr>
     ro_ConnIdle = or_default (ro_ConnIdle opts) (ro_ConnIdle m) defaultRelayConnIdle,
     ro_UplinkIdle = or_default (ro_UplinkIdle opts) (ro_UplinkIdle m) defaultRelayUplinkIdle,
     ro_DownlinkIdle = or_default (ro_DownlinkIdle opts) (ro_DownlinkIdle m) defaultRelayDownlinkIdle\<rparr>"

section \<open>State and moves\<close>

datatype direction = ToLocal | ToRemote

datatype copy_pc = Copying | Offering | Finished   \<comment> \<open>\<open>Offering\<close>: at \<open>reset <- idle\<close>\<close>

record relay =
  rl_opts :: RelayOptions
  rl_td :: duration
  rl_expired :: bool
  rl_timer :: bool                    \<comment> \<open>the timer runs\<close>
  rl_reset :: "duration option"       \<comment> \<open>the buffer of \<open>reset\<close>\<close>
  rl_closed :: bool                   \<comment> \<open>\<open>reset\<close> is closed\<close>
  rl_n :: nat
  rl_pc :: "direction \<Rightarrow> copy_pc"
  rl_dead :: "direction \<Rightarrow> bool"      \<comment> \<open>the read deadline of the destination is in the past\<close>
  rl_returned :: bool
  rl_offered :: "duration list"       \<comment> \<open>what the copies sent, for the proofs\<close>

definition relay_start :: "RelayOptions \<Rightarrow> relay" where
  "relay_start opts = \<lparr>rl_opts = opts, rl_td = ro_ConnIdle opts, rl_expired = False, rl_timer = True,
     rl_reset = None, rl_closed = False, rl_n = 0, rl_pc = (\<lambda>_. Copying), rl_dead = (\<lambda>_. False),
     rl_returned = False, rl_offered = []\<rparr>"

fun copy_idle :: "direction \<Rightarrow> RelayOptions \<Rightarrow> duration" where
  "copy_idle ToLocal opts = ro_UplinkIdle opts"
| "copy_idle ToRemote opts = ro_DownlinkIdle opts"

text \<open>\<open>doOnReadConn.Read\<close> calls \<open>do\<close>, which sends without waiting.\<close>

definition on_read :: "direction \<Rightarrow> nat \<Rightarrow> relay \<Rightarrow> relay option" where
  "on_read dir n s =
     (if rl_pc s dir \<noteq> Copying then None
      else if n > 0 then Some (case rl_reset s of None \<Rightarrow> s\<lparr>rl_reset := Some (- 1)\<rparr> | Some _ \<Rightarrow> s)
      else Some s)"

definition copy_done :: "direction \<Rightarrow> relay \<Rightarrow> relay" where
  "copy_done dir s =
     (let s1 = s\<lparr>rl_pc := (rl_pc s)(dir := Finished), rl_n := rl_n s + 1\<rparr>
      in if rl_n s1 = 2 then s1\<lparr>rl_closed := True\<rparr> else s1)"

definition copy_ends :: "direction \<Rightarrow> bool \<Rightarrow> relay \<Rightarrow> relay option" where
  "copy_ends dir err s =
     (if rl_pc s dir \<noteq> Copying then None
      else if err then Some (copy_done dir (s\<lparr>rl_dead := (rl_dead s)(dir := True)\<rparr>))
      else Some (s\<lparr>rl_pc := (rl_pc s)(dir := Offering)\<rparr>))"

definition offer_idle :: "direction \<Rightarrow> relay \<Rightarrow> relay option" where
  "offer_idle dir s =
     (if rl_pc s dir \<noteq> Offering \<or> rl_reset s \<noteq> None then None
      else
        let idle = copy_idle dir (rl_opts s)
        in Some (copy_done dir (s\<lparr>rl_reset := Some idle, rl_offered := rl_offered s @ [idle]\<rparr>)))"

definition relay_expire :: "relay \<Rightarrow> relay option" where
  "relay_expire s =
     (if rl_returned s \<or> \<not> rl_timer s then None
      else Some (s\<lparr>rl_expired := True, rl_timer := False, rl_dead := (\<lambda>_. True)\<rparr>))"

definition relay_receive :: "relay \<Rightarrow> relay option" where
  "relay_receive s =
     (if rl_returned s then None
      else case rl_reset s of
        Some d \<Rightarrow>
          let s1 = s\<lparr>rl_reset := None\<rparr>;
              s2 = (if d \<ge> 0 then s1\<lparr>rl_td := d\<rparr> else s1)
          in Some (if \<not> rl_expired s2 then s2\<lparr>rl_timer := True\<rparr> else s2)
      | None \<Rightarrow>
          if rl_closed s then Some (s\<lparr>rl_dead := (\<lambda>_. False), rl_returned := True, rl_timer := False\<rparr>)
          else None)"

datatype relay_event = OnRead direction nat | CopyEnds direction bool | OfferIdle direction | Expire | Receive

fun rl_step :: "relay_event \<Rightarrow> relay \<Rightarrow> relay option" where
  "rl_step (OnRead dir n) = on_read dir n"
| "rl_step (CopyEnds dir err) = copy_ends dir err"
| "rl_step (OfferIdle dir) = offer_idle dir"
| "rl_step Expire = relay_expire"
| "rl_step Receive = relay_receive"

inductive relay_reachable :: "RelayOptions \<Rightarrow> relay \<Rightarrow> bool" for opts where
  start: "relay_reachable opts (relay_start opts)"
| step: "relay_reachable opts s \<Longrightarrow> rl_step e s = Some s' \<Longrightarrow> relay_reachable opts s'"

inductive_cases relay_reachableE: "relay_reachable opts s"

lemmas relay_defs = on_read_def copy_ends_def offer_idle_def relay_expire_def relay_receive_def copy_done_def

section \<open>Invariant\<close>

definition finished_count :: "relay \<Rightarrow> nat" where
  "finished_count s = (if rl_pc s ToLocal = Finished then 1 else 0) + (if rl_pc s ToRemote = Finished then 1 else 0)"

definition relay_opts_ok :: "RelayOptions \<Rightarrow> bool" where
  "relay_opts_ok opts \<longleftrightarrow> ro_ConnIdle opts > 0 \<and> ro_UplinkIdle opts \<ge> 0 \<and> ro_DownlinkIdle opts \<ge> 0"

text \<open>The idle time in force once the message in the buffer has been received.\<close>

definition idle_in_force :: "relay \<Rightarrow> duration" where
  "idle_in_force s =
     (case rl_reset s of Some d \<Rightarrow> if d \<ge> 0 then d else rl_td s | None \<Rightarrow> rl_td s)"

definition relay_inv :: "relay \<Rightarrow> bool" where
  "relay_inv s \<longleftrightarrow>
     rl_n s = finished_count s \<and> rl_closed s = (rl_n s = 2) \<and>
     (rl_returned s \<longrightarrow> rl_closed s \<and> rl_reset s = None \<and> rl_dead s = (\<lambda>_. False)) \<and>
     rl_timer s = (\<not> rl_expired s \<and> \<not> rl_returned s) \<and>
     idle_in_force s = last (ro_ConnIdle (rl_opts s) # rl_offered s)"

lemma relay_options_ok: "relay_opts_ok (relay_options m opts)"
  by (simp add: relay_opts_ok_def relay_options_def or_default_def defaultRelayConnIdle_def
      defaultRelayUplinkIdle_def defaultRelayDownlinkIdle_def)

lemma copy_idle_ok: "relay_opts_ok opts \<Longrightarrow> copy_idle dir opts \<ge> 0"
  by (cases dir) (simp_all add: relay_opts_ok_def)

lemma idle_in_force_simps [simp]:
  "idle_in_force (s\<lparr>rl_expired := b\<rparr>) = idle_in_force s"
  "idle_in_force (s\<lparr>rl_timer := b\<rparr>) = idle_in_force s"
  "idle_in_force (s\<lparr>rl_closed := b\<rparr>) = idle_in_force s"
  "idle_in_force (s\<lparr>rl_n := n\<rparr>) = idle_in_force s"
  "idle_in_force (s\<lparr>rl_pc := p\<rparr>) = idle_in_force s"
  "idle_in_force (s\<lparr>rl_dead := d\<rparr>) = idle_in_force s"
  "idle_in_force (s\<lparr>rl_returned := b\<rparr>) = idle_in_force s"
  "idle_in_force (s\<lparr>rl_offered := l\<rparr>) = idle_in_force s"
  by (simp_all add: idle_in_force_def split: option.split)

lemma finished_count_simps [simp]:
  "finished_count (s\<lparr>rl_td := a\<rparr>) = finished_count s"
  "finished_count (s\<lparr>rl_expired := b\<rparr>) = finished_count s"
  "finished_count (s\<lparr>rl_timer := b\<rparr>) = finished_count s"
  "finished_count (s\<lparr>rl_reset := r\<rparr>) = finished_count s"
  "finished_count (s\<lparr>rl_closed := b\<rparr>) = finished_count s"
  "finished_count (s\<lparr>rl_n := n\<rparr>) = finished_count s"
  "finished_count (s\<lparr>rl_dead := d\<rparr>) = finished_count s"
  "finished_count (s\<lparr>rl_returned := b\<rparr>) = finished_count s"
  "finished_count (s\<lparr>rl_offered := l\<rparr>) = finished_count s"
  by (simp_all add: finished_count_def)

lemma finished_count_pc [simp]:
  "rl_pc s d \<noteq> Finished \<Longrightarrow> finished_count (s\<lparr>rl_pc := (rl_pc s)(d := Finished)\<rparr>) = finished_count s + 1"
  "rl_pc s d \<noteq> Finished \<Longrightarrow> finished_count (s\<lparr>rl_pc := (rl_pc s)(d := Offering)\<rparr>) = finished_count s"
  by (cases d; simp add: finished_count_def)+

lemma live_copy:
  assumes "relay_inv s" "rl_pc s d \<noteq> Finished"
  shows "rl_n s < 2" "\<not> rl_closed s" "\<not> rl_returned s"
proof -
  have "finished_count s < 2" using assms(2) by (cases d) (auto simp: finished_count_def)
  then show "rl_n s < 2" "\<not> rl_closed s" "\<not> rl_returned s" using assms(1) by (auto simp: relay_inv_def)
qed

lemma copy_done_inv:
  assumes "relay_inv s" "rl_pc s d \<noteq> Finished"
  shows "relay_inv (copy_done d s)"
  using assms live_copy [OF assms]
  by (simp add: relay_inv_def copy_done_def Let_def)

lemma read_message_inv:
  assumes "relay_inv s" "rl_pc s d = Copying" "rl_reset s = None"
  shows "relay_inv (s\<lparr>rl_reset := Some (- 1)\<rparr>)"
proof -
  have "\<not> rl_returned s" using live_copy [OF assms(1), of d] assms(2) by simp
  then show ?thesis using assms(1,3) by (simp add: relay_inv_def idle_in_force_def)
qed

lemma copy_fails_inv:
  assumes "relay_inv s" "rl_pc s d = Copying"
  shows "relay_inv (s\<lparr>rl_dead := (rl_dead s)(d := True)\<rparr>)"
proof -
  have "\<not> rl_returned s" using live_copy [OF assms(1), of d] assms(2) by simp
  then show ?thesis using assms(1) by (simp add: relay_inv_def)
qed

lemma copy_offers_inv:
  assumes "relay_inv s" "rl_pc s d = Copying"
  shows "relay_inv (s\<lparr>rl_pc := (rl_pc s)(d := Offering)\<rparr>)"
proof -
  have "\<not> rl_returned s" "finished_count (s\<lparr>rl_pc := (rl_pc s)(d := Offering)\<rparr>) = finished_count s"
    using live_copy [OF assms(1), of d] assms(2) by simp_all
  then show ?thesis using assms(1) by (simp add: relay_inv_def)
qed

lemma offer_message_inv:
  assumes "relay_inv s" "relay_opts_ok (rl_opts s)" "rl_pc s d = Offering" "rl_reset s = None"
  shows "relay_inv (s\<lparr>rl_reset := Some (copy_idle d (rl_opts s)), rl_offered := rl_offered s @ [copy_idle d (rl_opts s)]\<rparr>)"
proof -
  have "\<not> rl_returned s" "copy_idle d (rl_opts s) \<ge> 0"
    using live_copy [OF assms(1), of d] assms(3) copy_idle_ok [OF assms(2)] by simp_all
  then show ?thesis using assms(1) by (simp add: relay_inv_def idle_in_force_def)
qed

lemma relay_step_inv [inv_intros]:
  assumes "relay_inv s" "relay_opts_ok (rl_opts s)" "rl_step e s = Some s'"
  shows "relay_inv s' \<and> rl_opts s' = rl_opts s"
proof (cases e)
  case (OnRead dir n)
  then have "rl_pc s dir = Copying" "s' = s \<or> rl_reset s = None \<and> s' = s\<lparr>rl_reset := Some (- 1)\<rparr>"
    using assms(3) by (auto simp: on_read_def split: if_splits option.splits)
  with read_message_inv [OF assms(1), of dir] assms(1) show ?thesis by auto
next
  case (CopyEnds dir err)
  then have pc: "rl_pc s dir = Copying" using assms(3) by (auto simp: copy_ends_def split: if_splits)
  note copy_fails_inv [OF assms(1) pc] copy_offers_inv [OF assms(1) pc]
  with copy_done_inv [of "s\<lparr>rl_dead := (rl_dead s)(dir := True)\<rparr>" dir] CopyEnds assms(3) pc show ?thesis
    by (auto simp: copy_ends_def copy_done_def Let_def split: if_splits)
next
  case (OfferIdle dir)
  then have pc: "rl_pc s dir = Offering" "rl_reset s = None" using assms(3) by (auto simp: offer_idle_def split: if_splits)
  let ?s1 = "s\<lparr>rl_reset := Some (copy_idle dir (rl_opts s)), rl_offered := rl_offered s @ [copy_idle dir (rl_opts s)]\<rparr>"
  have "relay_inv ?s1" using assms(1,2) pc by (rule offer_message_inv)
  with copy_done_inv [of ?s1 dir] OfferIdle assms(3) pc show ?thesis
    by (auto simp: offer_idle_def copy_done_def Let_def)
next
  case Expire
  then show ?thesis using assms by (auto simp: relay_expire_def relay_inv_def split: if_splits)
next
  case Receive
  have "\<not> rl_returned s" using Receive assms(3) by (auto simp: relay_receive_def)
  show ?thesis
  proof (cases "rl_reset s")
    case None
    then have "s' = s\<lparr>rl_dead := (\<lambda>_. False), rl_returned := True, rl_timer := False\<rparr>" "rl_closed s"
      using Receive assms(3) by (auto simp: relay_receive_def split: if_splits)
    then show ?thesis using assms(1) None by (simp add: relay_inv_def)
  next
    case (Some d)
    let ?s1 = "if d \<ge> 0 then s\<lparr>rl_reset := None, rl_td := d\<rparr> else s\<lparr>rl_reset := None\<rparr>"
    have "relay_inv ?s1"
      using assms(1) Some \<open>\<not> rl_returned s\<close> by (cases "d \<ge> 0") (simp_all add: relay_inv_def idle_in_force_def)
    moreover from this have "\<not> rl_expired s \<Longrightarrow> relay_inv (?s1\<lparr>rl_timer := True\<rparr>)"
      using \<open>\<not> rl_returned s\<close> by (simp add: relay_inv_def)
    moreover have "s' = (if rl_expired s then ?s1 else ?s1\<lparr>rl_timer := True\<rparr>)"
      using Receive assms(3) Some \<open>\<not> rl_returned s\<close>
      by (cases "d \<ge> 0"; cases "rl_expired s") (simp_all add: relay_receive_def Let_def)
    ultimately show ?thesis by simp
  qed
qed

lemma relay_reachable_inv:
  assumes "relay_reachable opts s" "relay_opts_ok opts"
  shows "relay_inv s \<and> rl_opts s = opts"
  using assms(1)
proof induction
  case start
  then show ?case by (simp add: relay_inv_def relay_start_def finished_count_def idle_in_force_def)
next
  case (step s e s')
  with relay_step_inv [of s e s'] assms(2) show ?case by simp
qed

section \<open>Properties\<close>

lemma all_directions: "(\<forall>dir. P dir) \<longleftrightarrow> P ToLocal \<and> P ToRemote"
  by (metis direction.exhaust)

text \<open>
  C22. In every state of a relay: \<open>reset\<close> is closed exactly when both directions have ended, so
  nothing is ever sent on the closed channel; the timer runs until it expires or the relay
  returns, and is never set again after it expired; the relay returns only when both
  directions have ended, with the deadlines cleared; and the idle time in force is that of the
  direction that ended last without an error, or \<open>ConnIdle\<close>.
\<close>
theorem relay_invariant:
  assumes "relay_reachable (relay_options m opts) s"
  shows "(rl_closed s \<longleftrightarrow> (\<forall>dir. rl_pc s dir = Finished)) \<and>
    (rl_timer s \<longleftrightarrow> \<not> rl_expired s \<and> \<not> rl_returned s) \<and>
    (rl_returned s \<longrightarrow> (\<forall>dir. rl_pc s dir = Finished \<and> \<not> rl_dead s dir)) \<and>
    idle_in_force s = last (ro_ConnIdle (relay_options m opts) # rl_offered s)"
proof -
  have inv: "relay_inv s" "rl_opts s = relay_options m opts"
    using relay_reachable_inv [OF assms relay_options_ok] by simp_all
  have "finished_count s = 2 \<longleftrightarrow> (\<forall>dir. rl_pc s dir = Finished)"
    by (simp add: all_directions finished_count_def)
  with inv show ?thesis unfolding relay_inv_def by auto
qed

definition example_relay :: "relay_event list" where
  "example_relay = [OnRead ToLocal 3, Receive, CopyEnds ToRemote False, OnRead ToLocal 9,
     Receive, OfferIdle ToRemote, Receive, CopyEnds ToLocal True, Receive]"

fun rl_run :: "relay_event list \<Rightarrow> relay \<Rightarrow> relay option" where
  "rl_run [] s = Some s"
| "rl_run (e # es) s = (case rl_step e s of None \<Rightarrow> None | Some s' \<Rightarrow> rl_run es s')"

lemma rl_run_reachable:
  "relay_reachable opts s \<Longrightarrow> rl_run es s = Some s' \<Longrightarrow> relay_reachable opts s'"
  by (induction es arbitrary: s) (auto split: option.splits intro: relay_reachable.step)

definition example_relay_opts :: RelayOptions where
  "example_relay_opts = \<lparr>ro_ConnIdle = 0, ro_UplinkIdle = 7, ro_DownlinkIdle = 5\<rparr>"

lemma example_relay_run:
  "\<exists>s. rl_run example_relay (relay_start (relay_options example_relay_opts example_relay_opts)) = Some s \<and>
     rl_returned s \<and> rl_offered s = [5] \<and> rl_td s = 5"
  by (simp add: example_relay_def relay_start_def relay_options_def or_default_def example_relay_opts_def
      relay_defs defaultRelayConnIdle_def Let_def)

lemma relay_invariant_witness:
  "\<exists>s. rl_run example_relay (relay_start (relay_options example_relay_opts example_relay_opts)) = Some s \<and>
     rl_returned s \<and> idle_in_force s = 5 \<and> \<not> rl_dead s ToLocal"
proof -
  obtain s where s: "rl_run example_relay (relay_start (relay_options example_relay_opts example_relay_opts)) = Some s"
    "rl_returned s" "rl_offered s = [5]"
    using example_relay_run by blast
  from relay_invariant [OF rl_run_reachable [OF relay_reachable.start s(1)]] s show ?thesis by simp
qed

text \<open>
  C23. A relay is never stuck: while it has not returned, and no direction is still copying, one of
  the offers or the receive can happen; and once both directions have ended, at most two
  receives are left before it returns.
\<close>
theorem relay_progress:
  assumes "relay_reachable (relay_options m opts) s" and "\<not> rl_returned s"
  shows "((\<forall>dir. rl_pc s dir \<noteq> Copying) \<longrightarrow> rl_step Receive s \<noteq> None \<or>
      (\<exists>dir. rl_step (OfferIdle dir) s \<noteq> None)) \<and>
    ((\<forall>dir. rl_pc s dir = Finished) \<longrightarrow>
      (\<exists>s'. rl_run (if rl_reset s = None then [Receive] else [Receive, Receive]) s = Some s' \<and> rl_returned s'))"
proof -
  have inv: "relay_inv s" using relay_reachable_inv [OF assms(1) relay_options_ok] by simp
  have fin: "rl_closed s" if "\<forall>dir. rl_pc s dir = Finished"
    using inv that by (simp add: relay_inv_def finished_count_def)
  have off: "rl_step (OfferIdle dir) s \<noteq> None" if "rl_pc s dir = Offering" "rl_reset s = None" for dir
    using that by (simp add: offer_idle_def Let_def)
  have rec: "rl_step Receive s \<noteq> None" if "rl_closed s \<or> rl_reset s \<noteq> None"
    using that assms(2) by (auto simp: relay_receive_def Let_def split: option.split)
  have "rl_step Receive s \<noteq> None \<or> (\<exists>dir. rl_step (OfferIdle dir) s \<noteq> None)"
    if "\<forall>dir. rl_pc s dir \<noteq> Copying"
    using that fin rec off by (metis copy_pc.exhaust)
  moreover have "\<exists>s'. rl_run (if rl_reset s = None then [Receive] else [Receive, Receive]) s = Some s' \<and> rl_returned s'"
    if "\<forall>dir. rl_pc s dir = Finished"
    using fin [OF that] assms(2) by (auto simp: relay_receive_def Let_def split: option.split)
  ultimately show ?thesis by blast
qed

lemma relay_progress_witness:
  "\<exists>s s'. rl_run [CopyEnds ToLocal True, OnRead ToRemote 1, CopyEnds ToRemote True]
      (relay_start (relay_options example_relay_opts example_relay_opts)) = Some s \<and>
    rl_run [Receive, Receive] s = Some s' \<and> rl_returned s'"
proof -
  obtain s where s: "rl_run [CopyEnds ToLocal True, OnRead ToRemote 1, CopyEnds ToRemote True]
      (relay_start (relay_options example_relay_opts example_relay_opts)) = Some s"
    "\<not> rl_returned s" "rl_pc s ToLocal = Finished" "rl_pc s ToRemote = Finished" "rl_reset s \<noteq> None"
    by (simp add: relay_start_def relay_defs Let_def)
  from s(3,4) have "\<forall>dir. rl_pc s dir = Finished" by (simp add: all_directions)
  with relay_progress [OF rl_run_reachable [OF relay_reachable.start s(1)] s(2)] s show ?thesis by auto
qed

end
