(* ===== verification/Manager.thy ===== *)
theory Manager
  imports Service_System Runtime Relay
begin

text \<open>
  The manager of \<open>service.go\<close>: the registry of services, the jobs of a configuration and
  \<open>loadConfig\<close>. YAML is a parameter: a configuration is given as it is after decoding, with the
  job entries in the order in which Go's \<open>range\<close> visits them, and each service has its decoder.
  Options of all services are of one type \<open>'o\<close>. The manager computes the jobs it starts and the
  events it sends; Service_System runs them.
\<close>

section \<open>Names and the registry\<close>

text \<open>\<open>strings.IndexFunc\<close>; \<open>uni\<close> tells the letters and digits beyond ASCII.\<close>

function index_func :: "(rune \<Rightarrow> bool) \<Rightarrow> bytes \<Rightarrow> nat \<Rightarrow> nat option" where
  "index_func f s i =
     (if i \<ge> length s then None
      else case decode_rune (drop i s) of
        (r, n) \<Rightarrow> if f r then Some i else if n = 0 then None else index_func f s (i + n))"
  by auto
termination by (relation "measure (\<lambda>(f, s, i). length s - i)") auto

declare index_func.simps [simp del]

definition letter_or_digit :: "(rune \<Rightarrow> bool) \<Rightarrow> rune \<Rightarrow> bool" where
  "letter_or_digit uni r \<longleftrightarrow>
     (if r < 128 then 65 \<le> r \<and> r \<le> 90 \<or> 97 \<le> r \<and> r \<le> 122 \<or> 48 \<le> r \<and> r \<le> 57 else uni r)"

definition findServiceName :: "(rune \<Rightarrow> bool) \<Rightarrow> string \<Rightarrow> string" where
  "findServiceName uni s =
     (case index_func (\<lambda>r. r \<noteq> 45 \<and> \<not> letter_or_digit uni r) (bytes_of s) 0 of
        Some i \<Rightarrow> if i > 0 then take i s else s
      | None \<Rightarrow> s)"

definition isDummyService :: "string \<Rightarrow> bool" where
  "isDummyService name \<longleftrightarrow> name = [] \<or> name = ''alias'' \<or> name = ''dummy''"

record ('y, 'o) service =
  sv_HasOptions :: bool                     \<comment> \<open>\<open>Options\<close> is not \<open>nil\<close>\<close>
  sv_Decode :: "'y \<Rightarrow> 'o option"
  sv_on :: "'o \<Rightarrow> string"
  sv_load :: "'o \<Rightarrow> 'o \<Rightarrow> 'o option"
  sv_zero :: 'o

datatype ('y, 'o) service_ref = NoService | Dummy | Registered "('y, 'o) service"

type_synonym ('y, 'o) registry = "string \<rightharpoonup> ('y, 'o) service"

definition Manager_Service :: "(rune \<Rightarrow> bool) \<Rightarrow> ('y, 'o) registry \<Rightarrow> string \<Rightarrow> ('y, 'o) service_ref" where
  "Manager_Service uni reg s =
     (let name = findServiceName uni s
      in if isDummyService name then Dummy
         else case reg name of Some sv \<Rightarrow> Registered sv | None \<Rightarrow> NoService)"

definition AddService :: "string \<Rightarrow> ('y, 'o) service \<Rightarrow> ('y, 'o) registry \<Rightarrow> ('y, 'o) registry" where
  "AddService name sv reg = reg(name \<mapsto> sv)"

definition StartService :: "('y, 'o) service_ref \<Rightarrow> 'o sys_job option" where
  "StartService r =
     (case r of
        Registered sv \<Rightarrow> Some \<lparr>sj_job = job_start (sv_zero sv), sj_inbox = None\<rparr>
      | _ \<Rightarrow> None)"

definition job_loops :: "(rune \<Rightarrow> bool) \<Rightarrow> ('y, 'o) registry \<Rightarrow> 'o loops" where
  "job_loops uni reg name =
     (case Manager_Service uni reg name of
        Registered sv \<Rightarrow> (sv_on sv, sv_load sv)
      | _ \<Rightarrow> (\<lambda>_. [], \<lambda>_ new. Some new))"

section \<open>Loading a configuration\<close>

datatype set_error = ServiceNotFound string | BadOptions string

type_synonym 'o job_list = "(string \<times> 'o sys_job) list"   \<comment> \<open>\<open>m.jobs\<close>\<close>

definition job_Err :: "'o sys_job \<Rightarrow> bool" where
  "job_Err x \<longleftrightarrow> \<not> jb_alive (sj_job x)"

definition setOptions ::
  "(rune \<Rightarrow> bool) \<Rightarrow> ('y, 'o) registry \<Rightarrow> string \<Rightarrow> 'y \<Rightarrow> 'o job_list \<times> 'o sends
     \<Rightarrow> set_error + 'o job_list \<times> 'o sends" where
  "setOptions uni reg name data js_sends =
     (case (Manager_Service uni reg name, js_sends) of
        (NoService, _) \<Rightarrow> Inl (ServiceNotFound name)
      | (Dummy, r) \<Rightarrow> Inr r
      | (Registered sv, js, sends) \<Rightarrow>
          if sv_HasOptions sv \<and> sv_Decode sv data = None then Inl (BadOptions name)
          else
            let new = \<lparr>sj_job = job_start (sv_zero sv), sj_inbox = None\<rparr>;
                js1 = (case map_of js name of
                         Some x \<Rightarrow> if job_Err x then upd_job name (\<lambda>_. new) js else js
                       | None \<Rightarrow> js @ [(name, new)])
            in Inr (js1, if sv_HasOptions sv then sends @ [(name, LoadEvent (the (sv_Decode sv data)))] else sends))"

fun set_all ::
  "(rune \<Rightarrow> bool) \<Rightarrow> ('y, 'o) registry \<Rightarrow> (string \<times> 'y) list \<Rightarrow> 'o job_list \<times> 'o sends \<Rightarrow> set_error list
     \<Rightarrow> ('o job_list \<times> 'o sends) \<times> set_error list" where
  "set_all uni reg [] r errs = (r, errs)"
| "set_all uni reg ((name, data) # cfg) r errs =
     (case setOptions uni reg name data r of
        Inl e \<Rightarrow> set_all uni reg cfg r (errs @ [e])
      | Inr r' \<Rightarrow> set_all uni reg cfg r' errs)"

text \<open>Jobs that the configuration no longer names are cancelled, awaited and deleted.\<close>

definition drop_jobs :: "(string \<times> 'y) list \<Rightarrow> 'o job_list \<Rightarrow> 'o job_list" where
  "drop_jobs cfg js = filter (\<lambda>(n, x). n \<in> fst ` set cfg) js"

definition load_jobs ::
  "(rune \<Rightarrow> bool) \<Rightarrow> ('y, 'o) registry \<Rightarrow> (string \<times> 'y) list \<Rightarrow> 'o job_list \<Rightarrow> 'o sys \<times> set_error list" where
  "load_jobs uni reg cfg js =
     (case set_all uni reg cfg (drop_jobs cfg js, []) [] of
        ((js', sends), errs) \<Rightarrow>
          (\<lparr>sy_jobs = js', sy_sends = sends @ map (\<lambda>(n, x). (n, LoadedEvent)) js' @ map (\<lambda>(n, x). (n, NilEvent)) js'\<rparr>,
           errs))"

text \<open>\<open>StopJobs\<close>: all jobs are cancelled, then awaited.\<close>

definition StopJobs :: "(string \<Rightarrow> ('o \<Rightarrow> string) \<times> ('o \<Rightarrow> 'o \<Rightarrow> 'o option)) \<Rightarrow> 'o job_list \<Rightarrow> 'o job_list" where
  "StopJobs loops js =
     map (\<lambda>(n, x). (n, x\<lparr>sj_inbox := None,
       sj_job := job_step (fst (loops n)) (snd (loops n)) (\<lambda>_. False) CtxDone (sj_job x)\<rparr>)) js"

section \<open>What loading sends\<close>

definition fresh_job :: "('y, 'o) service \<Rightarrow> 'o sys_job" where
  "fresh_job sv = \<lparr>sj_job = job_start (sv_zero sv), sj_inbox = None\<rparr>"

text \<open>The event and the job that one entry of the configuration gives.\<close>

definition entry_events :: "(rune \<Rightarrow> bool) \<Rightarrow> ('y, 'o) registry \<Rightarrow> string \<Rightarrow> 'y \<Rightarrow> 'o event list" where
  "entry_events uni reg n data =
     (case Manager_Service uni reg n of
        Registered sv \<Rightarrow>
          if sv_HasOptions sv then (case sv_Decode sv data of Some opts \<Rightarrow> [LoadEvent opts] | None \<Rightarrow> []) else []
      | _ \<Rightarrow> [])"

definition entry_job ::
  "(rune \<Rightarrow> bool) \<Rightarrow> ('y, 'o) registry \<Rightarrow> string \<Rightarrow> 'y \<Rightarrow> 'o sys_job option \<Rightarrow> 'o sys_job option" where
  "entry_job uni reg n data old =
     (case Manager_Service uni reg n of
        Registered sv \<Rightarrow>
          if sv_HasOptions sv \<and> sv_Decode sv data = None then old
          else (case old of Some x \<Rightarrow> if job_Err x then Some (fresh_job sv) else Some x | None \<Rightarrow> Some (fresh_job sv))
      | _ \<Rightarrow> old)"

lemma setOptions_spec:
  assumes "distinct (map fst js)"
  shows "case setOptions uni reg n data (js, ss) of
      Inl e \<Rightarrow> entry_events uni reg n data = [] \<and> (\<forall>old. entry_job uni reg n data old = old)
    | Inr (js', ss') \<Rightarrow> distinct (map fst js') \<and> set (map fst js') \<subseteq> insert n (set (map fst js)) \<and>
        (\<forall>m. events_for m ss' = events_for m ss @ (if m = n then entry_events uni reg n data else [])) \<and>
        (\<forall>m. map_of js' m = (if m = n then entry_job uni reg n data (map_of js n) else map_of js m))"
proof (cases "Manager_Service uni reg n")
  case (Registered sv)
  show ?thesis
  proof (cases "map_of js n")
    case None
    then have "n \<notin> fst ` set js" by (simp add: map_of_eq_None_iff)
    moreover from None have "map_of (js @ [(n, x)]) m = (if m = n then Some x else map_of js m)" for m x
      by (cases "map_of js m") (auto simp: map_add_def)
    ultimately show ?thesis using None Registered assms
      by (auto simp: setOptions_def entry_events_def entry_job_def fresh_job_def Let_def)
  qed (use Registered assms in \<open>auto simp: setOptions_def entry_events_def entry_job_def fresh_job_def Let_def
      dest: map_of_SomeD simp flip: set_map\<close>)
qed (auto simp: setOptions_def entry_events_def entry_job_def assms)

lemma set_all_spec:
  assumes "distinct (map fst cfg)" "distinct (map fst js)"
    and "set_all uni reg cfg (js, ss) errs = ((js', ss'), errs')"
  shows "distinct (map fst js') \<and> set (map fst js') \<subseteq> set (map fst cfg) \<union> set (map fst js) \<and>
    (\<forall>m. events_for m ss' = events_for m ss @
        (case map_of cfg m of None \<Rightarrow> [] | Some data \<Rightarrow> entry_events uni reg m data)) \<and>
    (\<forall>m. map_of js' m = (case map_of cfg m of None \<Rightarrow> map_of js m | Some data \<Rightarrow> entry_job uni reg m data (map_of js m)))"
  using assms
proof (induction cfg arbitrary: js ss errs)
  case Nil
  then show ?case by simp
next
  case (Cons x cfg)
  obtain n data where x: "x = (n, data)" by (cases x)
  then have n: "map_of cfg n = None" using Cons.prems(1) by (simp add: map_of_eq_None_iff)
  note spec = setOptions_spec [OF Cons.prems(2), of uni reg n data ss]
  show ?case
  proof (cases "setOptions uni reg n data (js, ss)")
    case (Inl e)
    then show ?thesis using Cons.IH [of js ss "errs @ [e]"] Cons.prems x spec n by auto
  next
    case (Inr r)
    obtain js1 ss1 where r: "r = (js1, ss1)" by (cases r)
    with Inr spec have step: "distinct (map fst js1)" "set (map fst js1) \<subseteq> insert n (set (map fst js))"
      "\<And>m. events_for m ss1 = events_for m ss @ (if m = n then entry_events uni reg n data else [])"
      "\<And>m. map_of js1 m = (if m = n then entry_job uni reg n data (map_of js n) else map_of js m)"
      by simp_all
    have rest: "set_all uni reg cfg (js1, ss1) errs = ((js', ss'), errs')" using Cons.prems(3) x Inr r by simp
    have d: "distinct (map fst cfg)" using Cons.prems(1) by simp
    note IH = Cons.IH [OF d step(1) rest]
    from IH have "set (map fst js') \<subseteq> set (map fst cfg) \<union> set (map fst js1)" by (elim conjE)
    moreover have "set (map fst (x # cfg)) = insert n (set (map fst cfg))" using x by simp
    ultimately have "set (map fst js') \<subseteq> set (map fst (x # cfg)) \<union> set (map fst js)" using step(2) by blast
    moreover have "map_of js' m = (case map_of (x # cfg) m of None \<Rightarrow> map_of js m
        | Some data \<Rightarrow> entry_job uni reg m data (map_of js m))" for m
    proof -
      from IH have "map_of js' m = (case map_of cfg m of None \<Rightarrow> map_of js1 m
        | Some data \<Rightarrow> entry_job uni reg m data (map_of js1 m))" by blast
      with x n show ?thesis by (cases "m = n") (simp_all add: step(4) split: option.split)
    qed
    moreover have "events_for m ss' = events_for m ss @
        (case map_of (x # cfg) m of None \<Rightarrow> [] | Some data \<Rightarrow> entry_events uni reg m data)" for m
    proof -
      from IH have "events_for m ss' = events_for m ss1 @
        (case map_of cfg m of None \<Rightarrow> [] | Some data \<Rightarrow> entry_events uni reg m data)" by blast
      with x n show ?thesis by (cases "m = n") (simp_all add: step(3))
    qed
    ultimately show ?thesis using IH by blast
  qed
qed

lemma events_for_all:
  "distinct (map fst js) \<Longrightarrow> events_for n (map (\<lambda>(n, x). (n, ev)) js) = (if n \<in> fst ` set js then [ev] else [])"
  by (induction js) (simp_all add: case_prod_unfold, blast)

lemma map_of_drop: "map_of (drop_jobs cfg js) n = (if n \<in> fst ` set cfg then map_of js n else None)"
  by (induction js) (simp_all add: drop_jobs_def case_prod_unfold, auto)

lemma load_jobs_spec:
  assumes cfg: "distinct (map fst cfg)" and js: "distinct (map fst js)" and r: "load_jobs uni reg cfg js = (s, errs)"
  shows "distinct (map fst (sy_jobs s))" and "fst ` set (sy_jobs s) \<subseteq> fst ` set cfg"
    and "map_of cfg n = Some data \<Longrightarrow> map_of (sy_jobs s) n = entry_job uni reg n data (map_of js n)"
    and "map_of cfg n = Some data \<Longrightarrow> map_of (sy_jobs s) n \<noteq> None \<Longrightarrow>
      events_for n (sy_sends s) = entry_events uni reg n data @ [LoadedEvent, NilEvent]"
proof -
  obtain js' ss where all: "set_all uni reg cfg (drop_jobs cfg js, []) [] = ((js', ss), errs)"
    and s: "sy_jobs s = js'"
      "sy_sends s = ss @ map (\<lambda>(n, x). (n, LoadedEvent)) js' @ map (\<lambda>(n, x). (n, NilEvent)) js'"
    using r by (auto simp: load_jobs_def split: prod.splits)
  have d: "distinct (map fst (drop_jobs cfg js))"
    using js by (simp add: drop_jobs_def distinct_map inj_on_def)
  note spec = set_all_spec [OF cfg d all]
  show "distinct (map fst (sy_jobs s))" using spec s by simp
  have "set (map fst (drop_jobs cfg js)) \<subseteq> set (map fst cfg)" by (force simp: drop_jobs_def)
  moreover from spec have "set (map fst js') \<subseteq> set (map fst cfg) \<union> set (map fst (drop_jobs cfg js))" by (elim conjE)
  ultimately have "set (map fst js') \<subseteq> set (map fst cfg)" by blast
  then show "fst ` set (sy_jobs s) \<subseteq> fst ` set cfg" using s by simp
  show job: "map_of (sy_jobs s) n = entry_job uni reg n data (map_of js n)" if n: "map_of cfg n = Some data"
  proof -
    have "n \<in> fst ` set cfg" using n by (metis map_of_eq_None_iff option.distinct(1))
    then show ?thesis using spec s n by (simp add: map_of_drop)
  qed
  show "events_for n (sy_sends s) = entry_events uni reg n data @ [LoadedEvent, NilEvent]"
    if n: "map_of cfg n = Some data" "map_of (sy_jobs s) n \<noteq> None"
  proof -
    have "n \<in> fst ` set js'" using n(2) s by (metis map_of_eq_None_iff)
    then show ?thesis using spec s n by (simp add: events_for_all)
  qed
qed

section \<open>The manager\<close>

record ('f, 'w, 'c, 'y, 'o) manager =
  mg_log :: "('f, 'w) logging"
  mg_conn :: ConnOptions
  mg_relay :: RelayOptions
  mg_serving :: "'c serving"
  mg_services :: "('y, 'o) registry"
  mg_jobs :: "'o job_list"

record 'y config =
  cf_LogFile :: string
  cf_LogLevel :: int
  cf_Conn :: ConnOptions
  cf_Relay :: RelayOptions
  cf_Jobs :: "(string \<times> 'y) list"

datatype log_entry = SetLogFileFailed string | SetOptionsFailed set_error

text \<open>
  \<open>loadConfig\<close>, up to the events: the error of the decoder, or the manager with its new jobs, the
  sends that follow and what is logged. \<open>opened\<close> is what opening the log file gives.
\<close>

definition loadConfig ::
  "(rune \<Rightarrow> bool) \<Rightarrow> ('e + 'y config) \<Rightarrow> (unit + 'f) \<Rightarrow> ('f, 'w, 'c, 'y, 'o) manager
     \<Rightarrow> 'e + ('f, 'w, 'c, 'y, 'o) manager \<times> 'o sends \<times> log_entry list" where
  "loadConfig uni decoded opened m =
     (case decoded of
        Inl err \<Rightarrow> Inl err
      | Inr cfg \<Rightarrow>
          (case SetLogFile (cf_LogFile cfg) opened (mg_log m) of
             (file_err, log1) \<Rightarrow>
               (case load_jobs uni (mg_services m) (cf_Jobs cfg) (mg_jobs m) of
                  (sys, errs) \<Rightarrow>
                    Inr (m\<lparr>mg_log := SetLogLevel (cf_LogLevel cfg) log1,
                           mg_conn := SetConnOptions (mg_conn m) (cf_Conn cfg),
                           mg_relay := SetRelayOptions (mg_relay m) (cf_Relay cfg),
                           mg_jobs := sy_jobs sys\<rparr>,
                         sy_sends sys,
                         (if file_err \<noteq> None then [SetLogFileFailed (cf_LogFile cfg)] else []) @
                         map SetOptionsFailed errs))))"

definition Manager_StopJobs :: "(rune \<Rightarrow> bool) \<Rightarrow> ('f, 'w, 'c, 'y, 'o) manager \<Rightarrow> ('f, 'w, 'c, 'y, 'o) manager" where
  "Manager_StopJobs uni m = m\<lparr>mg_jobs := StopJobs (job_loops uni (mg_services m)) (mg_jobs m)\<rparr>"

definition Shutdown :: "(rune \<Rightarrow> bool) \<Rightarrow> ('f, 'w, 'c, 'y, 'o) manager \<Rightarrow> ('f, 'w, 'c, 'y, 'o) manager" where
  "Shutdown uni m =
     (let m1 = Manager_StopJobs uni m
      in m1\<lparr>mg_log := SetLogOutput None (snd (SetLogFile [] (Inl ()) (mg_log m1))),
            mg_serving := CloseConnections (mg_serving m1)\<rparr>)"

section \<open>Properties\<close>

text \<open>An entry whose service is registered, and accepts the options.\<close>

definition entry_valid :: "(rune \<Rightarrow> bool) \<Rightarrow> ('y, 'o) registry \<Rightarrow> 'o job_list \<Rightarrow> string \<Rightarrow> 'y \<Rightarrow> string \<Rightarrow> 'o \<Rightarrow> bool" where
  "entry_valid uni reg js n data addr new' \<longleftrightarrow>
     (\<exists>sv new x. Manager_Service uni reg n = Registered sv \<and> service_loop (sv_on sv) (sv_load sv) \<and> sv_HasOptions sv \<and>
        sv_Decode sv data = Some new \<and> addr = sv_on sv new \<and> SplitHostPort addr \<noteq> None \<and>
        entry_job uni reg n data (map_of js n) = Some x \<and> job_inv (sv_on sv) (sj_job x) \<and>
        sv_load sv (jb_opts (sj_job x)) new = Some new')"

lemma entry_job_alive:
  assumes "entry_job uni reg n data old = Some x" "Manager_Service uni reg n = Registered sv"
    and "sv_Decode sv data = Some new"
  shows "jb_alive (sj_job x)"
  using assms by (auto simp: entry_job_def fresh_job_def job_Err_def job_start_def split: option.splits if_splits)

lemma loaded_alone:
  assumes v: "entry_valid uni reg js n data addr new'" and x: "entry_job uni reg n data (map_of js n) = Some x"
  shows "solo (job_loops uni reg) n (sj_job x) (entry_events uni reg n data @ [LoadedEvent, NilEvent]) =
    \<lparr>jb_opts = new', jb_server = Some addr, jb_alive = True\<rparr>"
proof -
  obtain sv new where sv: "Manager_Service uni reg n = Registered sv" "service_loop (sv_on sv) (sv_load sv)"
    "sv_HasOptions sv" "sv_Decode sv data = Some new" "addr = sv_on sv new" "SplitHostPort (sv_on sv new) \<noteq> None"
    "job_inv (sv_on sv) (sj_job x)" "sv_load sv (jb_opts (sj_job x)) new = Some new'"
    using v x by (auto simp: entry_valid_def)
  have "job_loops uni reg n = (sv_on sv, sv_load sv)" "entry_events uni reg n data = [LoadEvent new]"
    using sv by (simp_all add: job_loops_def entry_events_def)
  moreover have "job_step (sv_on sv) (sv_load sv) (\<lambda>_. True) (Received LoadedEvent)
      (job_step (sv_on sv) (sv_load sv) (\<lambda>_. True) (Received (LoadEvent new)) (sj_job x)) =
      \<lparr>jb_opts = new', jb_server = Some (sv_on sv new), jb_alive = True\<rparr>"
    by (rule service_loop.load_loaded [OF sv(2) entry_job_alive [OF x sv(1,4)] sv(6,8,7)]) simp
  ultimately show ?thesis using sv(5) by (simp add: solo_def job_step_def)
qed

lemma run_keys: "sys_run loops free ms s = Some s' \<Longrightarrow> map fst (sy_jobs s') = map fst (sy_jobs s)"
  by (induction ms arbitrary: s) (auto split: option.splits dest: step_keys)

lemma load_jobs_idle:
  assumes cfg: "distinct (map fst cfg)" and js: "idle \<lparr>sy_jobs = js, sy_sends = []\<rparr>"
    and r: "load_jobs uni reg cfg js = (s, errs)"
  shows "idle s"
proof -
  have d: "distinct (map fst js)" using js by (simp add: idle_def)
  note spec = load_jobs_spec [OF cfg d r]
  have "sj_inbox x = None" if "(n, x) \<in> set (sy_jobs s)" for n x
  proof -
    have x: "map_of (sy_jobs s) n = Some x" using that spec(1) by simp
    have "n \<in> fst ` set cfg" using that spec(2) by force
    then obtain data where "map_of cfg n = Some data" by (metis map_of_eq_None_iff not_None_eq)
    with x spec(3) have e: "entry_job uni reg n data (map_of js n) = Some x" by simp
    have "sj_inbox y = None" if "map_of js n = Some y" for y
      using js map_of_SomeD [OF that] by (auto simp: idle_def list_all_iff)
    with e show ?thesis by (auto simp: entry_job_def fresh_job_def split: service_ref.splits option.splits if_splits)
  qed
  with spec(1) show ?thesis by (auto simp: idle_def list_all_iff)
qed

lemma entry_valid_job:
  "entry_valid uni reg js n data a o' \<Longrightarrow> \<exists>x. entry_job uni reg n data (map_of js n) = Some x"
  by (auto simp: entry_valid_def)

text \<open>
  C18. A configuration whose entries are valid and in which no two jobs want the same address is
  taken over under every schedule: once all events are handled, exactly the jobs that it names
  are left, every one runs with its new options, and every one listens on its new address.
\<close>
theorem loadConfig_takes_over:
  assumes "loadConfig uni (Inr cfg) opened m = Inr (m', sends, logs)"
    and "distinct (map fst (cf_Jobs cfg))" and "idle \<lparr>sy_jobs = mg_jobs m, sy_sends = []\<rparr>"
    and "\<forall>(n, data) \<in> set (cf_Jobs cfg). entry_valid uni (mg_services m) (mg_jobs m) n data (addr n) (new n)"
    and "no_conflict (job_loops uni (mg_services m)) free \<lparr>sy_jobs = mg_jobs m', sy_sends = sends\<rparr>"
    and "sys_run (job_loops uni (mg_services m)) free ms \<lparr>sy_jobs = mg_jobs m', sy_sends = sends\<rparr> = Some s"
    and "quiet s"
  shows "fst ` set (sy_jobs s) = fst ` set (cf_Jobs cfg) \<and>
    (\<forall>(n, x) \<in> set (sy_jobs s). sj_job x = \<lparr>jb_opts = new n, jb_server = Some (addr n), jb_alive = True\<rparr>)"
proof -
  let ?cfg = "cf_Jobs cfg" and ?reg = "mg_services m"
  obtain sys errs where load: "load_jobs uni ?reg ?cfg (mg_jobs m) = (sys, errs)"
    and sys: "\<lparr>sy_jobs = mg_jobs m', sy_sends = sends\<rparr> = sys"
    using assms(1) by (auto simp: loadConfig_def split: prod.splits)
  have d: "distinct (map fst (mg_jobs m))" using assms(3) by (simp add: idle_def)
  note spec = load_jobs_spec [OF assms(2) d load]
  have keys: "map fst (sy_jobs s) = map fst (sy_jobs sys)" using run_keys [OF assms(6)] sys by auto
  have job: "\<exists>x. map_of (sy_jobs sys) n = Some x \<and> entry_job uni ?reg n data (map_of (mg_jobs m) n) = Some x"
    if "(n, data) \<in> set ?cfg" for n data
    using spec(3) [of n data] that assms(2,4) entry_valid_job by fastforce
  have "fst ` set ?cfg \<subseteq> fst ` set (sy_jobs sys)" using job by (force dest: map_of_SomeD)
  with spec(2) keys have "fst ` set (sy_jobs s) = fst ` set ?cfg" by (metis list.set_map subset_antisym)
  moreover have "sj_job x = \<lparr>jb_opts = new n, jb_server = Some (addr n), jb_alive = True\<rparr>"
    if "(n, x) \<in> set (sy_jobs s)" for n x
  proof -
    have x: "map_of (sy_jobs s) n = Some x" using that spec(1) keys by simp
    have "n \<in> fst ` set (sy_jobs s)" using that by (rule rev_image_eqI) simp
    then have "n \<in> fst ` set ?cfg" using calculation by simp
    then obtain data where data: "(n, data) \<in> set ?cfg" by auto
    then have n: "map_of ?cfg n = Some data" using assms(2) by simp
    obtain x0 where x0: "map_of (sy_jobs sys) n = Some x0" "entry_job uni ?reg n data (map_of (mg_jobs m) n) = Some x0"
      using job [OF data] by blast
    have "sj_job x = solo (job_loops uni ?reg) n (sj_job x0) (entry_events uni ?reg n data @ [LoadedEvent, NilEvent])"
    proof -
      have "idle \<lparr>sy_jobs = mg_jobs m', sy_sends = sends\<rparr>" using load_jobs_idle [OF assms(2,3) load] sys by simp
      from no_interference_run [OF assms(5) this assms(6,7), of n x0]
      have "sj_job x = solo (job_loops uni ?reg) n (sj_job x0) (events_for n (sy_sends sys))"
        using x0(1) x unfolding sys by simp
      with spec(4) [OF n] x0(1) show ?thesis by simp
    qed
    moreover have "entry_valid uni ?reg (mg_jobs m) n data (addr n) (new n)" using assms(4) data by auto
    ultimately show ?thesis using loaded_alone [OF _ x0(2)] by simp
  qed
  ultimately show ?thesis by blast
qed

text \<open>
  \<open>Shutdown\<close> stops every job (whose deferred \<open>stopServer\<close> closes its listener), closes the log
  file, and closes every connection that \<open>Serve\<close> accepted and that is still open.
\<close>
theorem Shutdown_closes:
  "map fst (mg_jobs (Shutdown uni m)) = map fst (mg_jobs m) \<and>
   list_all (\<lambda>(n, x). \<not> jb_alive (sj_job x)) (mg_jobs (Shutdown uni m)) \<and>
   lg_file (mg_log (Shutdown uni m)) = None \<and>
   set (sg_connections (mg_serving m)) \<subseteq> set (sg_closed (mg_serving (Shutdown uni m)))"
  by (auto simp: Shutdown_def Manager_StopJobs_def StopJobs_def Let_def list_all_iff job_cancelled
      SetLogOutput_def SetLogFile_def close_log_def CloseConnections_def split: option.splits if_splits)

text \<open>A manager with one service, \<open>t\<close>, whose options are an address.\<close>

definition example_service :: "(string, string) service" where
  "example_service = \<lparr>sv_HasOptions = True, sv_Decode = (\<lambda>y. if y = [] then None else Some y),
     sv_on = (\<lambda>a. a), sv_load = (\<lambda>old new. Some new), sv_zero = []\<rparr>"

definition example_manager :: "(string, string, string, string, string) manager" where
  "example_manager = \<lparr>mg_log = logging_start, mg_conn = \<lparr>co_Timeout = 0, co_Interval = 0, co_Parallel = 0, co_MaxAttempts = 0\<rparr>,
     mg_relay = \<lparr>ro_ConnIdle = 0, ro_UplinkIdle = 0, ro_DownlinkIdle = 0\<rparr>, mg_serving = serving_start [],
     mg_services = AddService ''t'' example_service Map.empty, mg_jobs = []\<rparr>"

definition example_config :: "string config" where
  "example_config = \<lparr>cf_LogFile = [], cf_LogLevel = 4, cf_Conn = mg_conn example_manager, cf_Relay = mg_relay example_manager,
     cf_Jobs = [(''t|1'', '':1''), (''t|2'', '':2'')]\<rparr>"

lemma example_names: "findServiceName (\<lambda>_. False) ''t|1'' = ''t''" "findServiceName (\<lambda>_. False) ''t|2'' = ''t''"
  by (simp_all add: findServiceName_def bytes_of_def index_func.simps decode_rune_def letter_or_digit_def)

lemma example_lookup:
  "Manager_Service (\<lambda>_. False) (mg_services example_manager) ''t|1'' = Registered example_service"
  "Manager_Service (\<lambda>_. False) (mg_services example_manager) ''t|2'' = Registered example_service"
  by (simp_all add: Manager_Service_def example_names isDummyService_def example_manager_def AddService_def)

lemma example_loops:
  "job_loops (\<lambda>_. False) (mg_services example_manager) ''t|1'' = (\<lambda>a. a, \<lambda>old new. Some new)"
  "job_loops (\<lambda>_. False) (mg_services example_manager) ''t|2'' = (\<lambda>a. a, \<lambda>old new. Some new)"
  by (simp_all add: job_loops_def example_lookup example_service_def)

definition example_loaded :: "string job_list \<times> string sends" where
  "example_loaded =
     (map (\<lambda>n. (n, \<lparr>sj_job = job_start [], sj_inbox = None\<rparr>)) [''t|1'', ''t|2''],
      [(''t|1'', LoadEvent '':1''), (''t|2'', LoadEvent '':2''), (''t|1'', LoadedEvent), (''t|2'', LoadedEvent),
       (''t|1'', NilEvent), (''t|2'', NilEvent)])"

lemma example_load:
  "\<exists>m' logs. loadConfig (\<lambda>_. False) (Inr example_config :: unit + string config) (Inl ()) example_manager = Inr (m', snd example_loaded, logs) \<and>
     mg_jobs m' = fst example_loaded"
proof -
  have "mg_jobs example_manager = []" by (simp add: example_manager_def)
  then have "load_jobs (\<lambda>_. False) (mg_services example_manager) (cf_Jobs example_config) (mg_jobs example_manager) =
      (\<lparr>sy_jobs = fst example_loaded, sy_sends = snd example_loaded\<rparr>, [])"
    by (simp add: load_jobs_def drop_jobs_def example_config_def setOptions_def example_lookup example_loaded_def)
      (simp add: example_service_def)
  then show ?thesis by (simp add: loadConfig_def split: prod.split)
qed

definition example_schedule :: "move list" where
  "example_schedule = [Deliver, Deliver, Handle ''t|2'', Handle ''t|1'', Deliver, Deliver, Handle ''t|1'', Deliver,
     Handle ''t|2'', Deliver, Handle ''t|2'', Handle ''t|1'']"

lemma example_job_step:
  "job_step (\<lambda>a. a) (\<lambda>old new. Some new) l (Received (LoadEvent (c # cs))) (job_start []) =
     (if SplitHostPort (c # cs) = None then job_return (job_start []) else \<lparr>jb_opts = c # cs, jb_server = None, jb_alive = True\<rparr>)"
  "job_step (\<lambda>a. a) (\<lambda>old new. Some new) l (Received LoadedEvent) \<lparr>jb_opts = a, jb_server = None, jb_alive = True\<rparr> =
     (if l a then \<lparr>jb_opts = a, jb_server = Some a, jb_alive = True\<rparr> else job_return \<lparr>jb_opts = a, jb_server = None, jb_alive = True\<rparr>)"
  "job_step (\<lambda>a. a) (\<lambda>old new. Some new) l (Received NilEvent) j = j"
  by (simp_all add: job_step_def on_load_def job_start_def stop_server_def start_server_def)

lemma example_runs:
  "\<exists>s. sys_run (job_loops (\<lambda>_. False) (mg_services example_manager)) (\<lambda>_. True) example_schedule
      \<lparr>sy_jobs = fst example_loaded, sy_sends = snd example_loaded\<rparr> = Some s \<and> quiet s"
  by (simp add: example_schedule_def example_loaded_def SendEvent_def handle_event_def upd_job_def example_loops
      example_job_step split_ports taken_def quiet_def) (simp add: job_start_def)

lemma example_no_conflict:
  "no_conflict (job_loops (\<lambda>_. False) (mg_services example_manager)) (\<lambda>_. True)
     \<lparr>sy_jobs = fst example_loaded, sy_sends = snd example_loaded\<rparr>"
  by (auto simp: no_conflict_def example_loaded_def solo_addrs_step example_loops example_job_step split_ports
      split: if_splits) (simp_all add: job_start_def)

definition example_addr :: "string \<Rightarrow> string" where
  "example_addr n = (if n = ''t|1'' then '':1'' else '':2'')"

lemma example_valid:
  "\<forall>(n, data) \<in> set (cf_Jobs example_config). entry_valid (\<lambda>_. False) (mg_services example_manager)
     (mg_jobs example_manager) n data (example_addr n) (example_addr n)"
  by (auto simp: entry_valid_def example_config_def example_lookup entry_job_def split_ports
      service_loop_def example_addr_def)
    (simp_all add: example_service_def example_manager_def fresh_job_def split_ports)

lemma loadConfig_takes_over_witness:
  "\<exists>m' sends logs s. loadConfig (\<lambda>_. False) (Inr example_config :: unit + string config) (Inl ()) example_manager = Inr (m', sends, logs) \<and>
     sys_run (job_loops (\<lambda>_. False) (mg_services example_manager)) (\<lambda>_. True) example_schedule
       \<lparr>sy_jobs = mg_jobs m', sy_sends = sends\<rparr> = Some s \<and>
     fst ` set (sy_jobs s) = {''t|1'', ''t|2''}"
proof -
  obtain m' logs where l: "loadConfig (\<lambda>_. False) (Inr example_config :: unit + string config) (Inl ()) example_manager = Inr (m', snd example_loaded, logs)"
    "mg_jobs m' = fst example_loaded"
    using example_load by blast
  obtain s where s: "sys_run (job_loops (\<lambda>_. False) (mg_services example_manager)) (\<lambda>_. True) example_schedule
      \<lparr>sy_jobs = mg_jobs m', sy_sends = snd example_loaded\<rparr> = Some s" "quiet s"
    using example_runs l(2) by auto
  have "distinct (map fst (cf_Jobs example_config))" "idle \<lparr>sy_jobs = mg_jobs example_manager, sy_sends = []\<rparr>"
    by (simp_all add: example_config_def idle_def example_manager_def)
  from loadConfig_takes_over [OF l(1) this example_valid _ s] example_no_conflict l(2)
  have "fst ` set (sy_jobs s) = fst ` set (cf_Jobs example_config)" by simp
  then have "fst ` set (sy_jobs s) = {''t|1'', ''t|2''}" by (simp add: example_config_def)
  with l(1) s(1) show ?thesis by (intro exI [of _ m'] exI [of _ "snd example_loaded"] exI [of _ logs] exI [of _ s] conjI)
qed

end
