(* ===== verification/Scan_Lines.thy ===== *)
theory Scan_Lines
  imports Go_Text
begin

text \<open>
  Reading the lines of rules: \<open>scanLines\<close>, which \<open>http.go\<close> and \<open>dnstun.go\<close> both contain, under a
  \<open>bufio.Scanner\<close>, whose buffer has 64 KiB: a longer line stops it with an error. The reader is
  given by all its data.
\<close>

abbreviation newline :: char where "newline \<equiv> CHR 0x0A"
abbreviation return_char :: char where "return_char \<equiv> CHR 0x0D"

definition drop_cr :: "string \<Rightarrow> string" where
  "drop_cr s = (if s \<noteq> [] \<and> last s = return_char then butlast s else s)"

text \<open>\<open>bufio.ScanLines\<close>: how far to advance, and a token.\<close>

definition ScanLines :: "string \<Rightarrow> bool \<Rightarrow> nat \<times> string option" where
  "ScanLines data atEOF =
     (if atEOF \<and> data = [] then (0, None)
      else case index_byte newline data of
        Some i \<Rightarrow> (i + 1, Some (drop_cr (take i data)))
      | None \<Rightarrow> if atEOF then (length data, Some (drop_cr data)) else (0, None))"

definition no_rule :: "string \<Rightarrow> bool" where
  "no_rule token \<longleftrightarrow> token = [] \<or> HasPrefix token ''#''"

lemma ScanLines_advance: "ScanLines data eof = (n, Some t) \<Longrightarrow> 0 < n \<and> n \<le> length data"
  by (auto simp: ScanLines_def split: if_splits option.splits dest: index_byte_Some)

function scan_from :: "string \<Rightarrow> bool \<Rightarrow> nat \<Rightarrow> nat \<times> string option" where
  "scan_from data atEOF start =
     (case ScanLines (drop start data) atEOF of
        (advance, None) \<Rightarrow> (start + advance, None)
      | (advance, Some token) \<Rightarrow>
          if no_rule (TrimSpace token) then scan_from data atEOF (start + advance)
          else (start + advance, Some (TrimSpace token)))"
  by auto
termination
  by (relation "measure (\<lambda>(data, _, start). length data - start)") (auto dest!: ScanLines_advance [OF sym])

declare scan_from.simps [simp del]

definition scanLines :: "string \<Rightarrow> bool \<Rightarrow> nat \<times> string option" where
  "scanLines data atEOF = scan_from data atEOF 0"

lemma scan_from_advance:
  "scan_from data eof start = (n, t) \<Longrightarrow> start \<le> n \<and> (t \<noteq> None \<longrightarrow> start < n)"
proof (induction data eof start rule: scan_from.induct)
  case (1 data eof start)
  obtain advance tok where scan: "ScanLines (drop start data) eof = (advance, tok)" by fastforce
  show ?case
  proof (cases tok)
    case None
    then show ?thesis using "1.prems" scan by (simp add: scan_from.simps)
  next
    case (Some token)
    then have "0 < advance" using scan ScanLines_advance by blast
    moreover have "start + advance \<le> n \<and> (t \<noteq> None \<longrightarrow> start + advance < n)" if "no_rule (TrimSpace token)"
      using "1.IH" [OF scan [symmetric] Some that] "1.prems" scan Some that by (simp add: scan_from.simps)
    ultimately show ?thesis using "1.prems" scan Some by (cases "no_rule (TrimSpace token)") (auto simp: scan_from.simps)
  qed
qed

lemma scanLines_empty [simp]: "scanLines [] eof = (0, None)"
  by (simp add: scanLines_def scan_from.simps ScanLines_def)

definition max_token :: nat where "max_token = 65536"

text \<open>The tokens of a \<open>Scanner\<close> with \<open>scanLines\<close>, and whether it ended with \<open>ErrTooLong\<close>.\<close>

function scan_tokens :: "string \<Rightarrow> string list \<times> bool" where
  "scan_tokens data =
     (let eof = length data < max_token
      in case scanLines (take max_token data) eof of
           (n, Some token) \<Rightarrow> (case scan_tokens (drop n data) of (ts, e) \<Rightarrow> (token # ts, e))
         | (n, None) \<Rightarrow>
             if eof then ([], False)
             else if n = 0 then ([], True)
             else scan_tokens (drop n data))"
  by auto
termination
proof (relation "measure length")
  fix data eof n z token
  assume "eof = (length data < max_token)" "(n, z) = scanLines (take max_token data) eof" "z = Some token"
  then have n: "0 < n" and "data \<noteq> []"
    using scan_from_advance [of "take max_token data" eof 0 n "Some token"]
    by (auto simp: scanLines_def [symmetric])
  then show "(drop n data, data) \<in> measure length" by simp
next
  fix data eof n z
  assume "eof = (length data < max_token)" "(n, z) = scanLines (take max_token data) eof" "z = None" "\<not> eof" "n \<noteq> 0"
  then have "data \<noteq> []" by (auto simp: max_token_def)
  with \<open>n \<noteq> 0\<close> show "(drop n data, data) \<in> measure length" by simp
qed simp

declare scan_tokens.simps [simp del]

section \<open>The lines of a text\<close>

fun text_lines :: "string \<Rightarrow> string list" where
  "text_lines [] = []"
| "text_lines (c # cs) =
     (if c = newline then [] # text_lines cs
      else case text_lines cs of [] \<Rightarrow> [[c]] | l # ls \<Rightarrow> (c # l) # ls)"

text \<open>Unlike \<open>lines\<close> of other languages, a newline ends a line; nothing follows the last one.\<close>

lemma text_lines_line:
  "newline \<notin> set l \<Longrightarrow> text_lines (l @ newline # rest) = l # text_lines rest"
  by (induction l) auto

lemma text_lines_last: "newline \<notin> set l \<Longrightarrow> l \<noteq> [] \<Longrightarrow> text_lines l = [l]"
proof (induction l)
  case (Cons a l)
  then show ?case by (cases l) auto
qed simp

definition rule_lines :: "string \<Rightarrow> string list" where
  "rule_lines data = filter (\<lambda>t. \<not> no_rule t) (map (TrimSpace \<circ> drop_cr) (text_lines data))"

lemma split_line: "newline \<in> set d \<Longrightarrow> \<exists>l rest. d = l @ newline # rest \<and> newline \<notin> set l"
  by (meson split_list_first)

lemma ScanLines_newline:
  "newline \<notin> set l \<Longrightarrow> ScanLines (l @ newline # rest) eof = (length l + 1, Some (drop_cr l))"
  by (simp add: ScanLines_def)

lemma ScanLines_none: "newline \<notin> set d \<Longrightarrow> ScanLines d eof = (if eof \<and> d \<noteq> [] then (length d, Some (drop_cr d)) else (0, None))"
proof -
  assume "newline \<notin> set d"
  then have "index_byte newline d = None" by simp
  then show ?thesis by (auto simp: ScanLines_def simp del: index_byte_None)
qed

lemma rule_lines_newline:
  "newline \<notin> set l \<Longrightarrow> rule_lines (l @ newline # rest) =
     (if no_rule (TrimSpace (drop_cr l)) then [] else [TrimSpace (drop_cr l)]) @ rule_lines rest"
  by (simp add: rule_lines_def text_lines_line)

lemma rule_lines_last:
  "newline \<notin> set d \<Longrightarrow> d \<noteq> [] \<Longrightarrow> rule_lines d =
     (if no_rule (TrimSpace (drop_cr d)) then [] else [TrimSpace (drop_cr d)])"
  by (simp add: rule_lines_def text_lines_last)

lemma rule_lines_Nil [simp]: "rule_lines [] = []"
  by (simp add: rule_lines_def)

text \<open>What a call of \<open>scanLines\<close> on a window of the data returns.\<close>

definition scan_result :: "string \<Rightarrow> bool \<Rightarrow> nat \<Rightarrow> nat \<times> string option \<Rightarrow> bool" where
  "scan_result data eof start r \<longleftrightarrow>
     (case r of (n, t) \<Rightarrow>
        rule_lines (drop start data) = (case t of Some tok \<Rightarrow> [tok] | None \<Rightarrow> []) @ rule_lines (drop n data) \<and>
        set (text_lines (drop n data)) \<subseteq> set (text_lines (drop start data)) \<and>
        (eof \<and> t = None \<longrightarrow> rule_lines (drop n data) = []))"

lemma scan_window:
  assumes "eof = (length data < M)" "w = take M data" "start \<le> length w"
  shows "scan_result data eof start (scan_from w eof start)"
  using assms(3)
proof (induction "length w - start" arbitrary: start rule: less_induct)
  case less
  let ?d = "drop start data"
  have win: "drop start w = take (M - start) ?d" using assms(2) by (simp add: drop_take)
  have all: "eof \<Longrightarrow> drop start w = ?d" using assms by simp
  show ?case
  proof (cases "newline \<in> set (drop start w)")
    case True
    then obtain l r where l: "drop start w = l @ newline # r" "newline \<notin> set l" using split_line by blast
    define rest where "rest = drop (start + length l + 1) data"
    obtain tail where "?d = drop start w @ tail" using append_take_drop_id [of "M - start" ?d] win by metis
    then have d0: "?d = l @ newline # (r @ tail)" using l(1) by simp
    moreover have "rest = drop (length l + 1) ?d" by (simp add: rest_def add.commute add.left_commute)
    ultimately have d: "?d = l @ newline # rest" by simp
    have bound: "start + length l + 1 \<le> length w" using arg_cong [OF l(1), of length] less.prems by simp
    have step: "scan_from w eof start = (if no_rule (TrimSpace (drop_cr l)) then scan_from w eof (start + length l + 1)
        else (start + length l + 1, Some (TrimSpace (drop_cr l))))"
      by (subst scan_from.simps) (simp add: l ScanLines_newline)
    have sub: "set (text_lines rest) \<subseteq> set (text_lines ?d)" using d l(2) by (auto simp: text_lines_line)
    show ?thesis
    proof (cases "no_rule (TrimSpace (drop_cr l))")
      case skip: True
      have "scan_result data eof (start + length l + 1) (scan_from w eof (start + length l + 1))"
        using bound by (intro less.hyps) simp_all
      then show ?thesis using step skip sub d rule_lines_newline [OF l(2), of rest]
        by (auto simp: scan_result_def rest_def)
    next
      case False
      then show ?thesis using step sub d rule_lines_newline [OF l(2), of rest]
        by (simp add: scan_result_def rest_def)
    qed
  next
    case False
    have step: "scan_from w eof start =
      (case if eof \<and> drop start w \<noteq> [] then (length w - start, Some (drop_cr (drop start w))) else (0, None) of
         (advance, None) \<Rightarrow> (start + advance, None)
       | (advance, Some token) \<Rightarrow> if no_rule (TrimSpace token) then scan_from w eof (start + advance)
           else (start + advance, Some (TrimSpace token)))"
      by (subst scan_from.simps) (simp add: ScanLines_none [OF False])
    show ?thesis
    proof (cases "eof \<and> ?d \<noteq> []")
      case True
      then have d: "drop start w = ?d" "newline \<notin> set ?d" "w = data" using all False assms by auto
      have "scan_from data eof (length data) = (length data, None)"
        by (subst scan_from.simps) (simp add: ScanLines_def)
      then show ?thesis using step d True less.prems rule_lines_last [OF d(2)]
        by (auto simp: scan_result_def)
    next
      case stop: False
      then have "scan_from w eof start = (start, None)" using step all by auto
      then show ?thesis using stop by (auto simp: scan_result_def)
    qed
  qed
qed

lemma scan_progress:
  assumes "list_all (\<lambda>l. length l < max_token) (text_lines data)" "max_token \<le> length data"
  shows "0 < fst (scanLines (take max_token data) False)"
proof -
  have "newline \<in> set (take max_token data)"
  proof (rule ccontr)
    assume no: "newline \<notin> set (take max_token data)"
    show False
    proof (cases "newline \<in> set data")
      case True
      then obtain l r where d: "data = l @ newline # r" "newline \<notin> set l" using split_line by blast
      then have "length l < max_token" using assms(1) by (simp add: text_lines_line)
      then show False using no d by (simp add: take_Cons')
    next
      case False
      then have "text_lines data = [data]" using assms(2) by (intro text_lines_last) (auto simp: max_token_def)
      then show False using assms by simp
    qed
  qed
  then obtain l r where l: "take max_token data = l @ newline # r" "newline \<notin> set l" using split_line by blast
  obtain n t where "scanLines (take max_token data) False = (n, t)" by fastforce
  moreover have "scan_from (take max_token data) False 0 = (n, t) \<Longrightarrow> 0 < n"
    using scan_from_advance [of "take max_token data" False "length l + 1" n t]
    by (subst (asm) scan_from.simps) (auto simp: l ScanLines_newline split: if_splits)
  ultimately show ?thesis by (simp add: scanLines_def)
qed

lemma scan_tokens_short:
  "list_all (\<lambda>l. length l < max_token) (text_lines data) \<Longrightarrow> scan_tokens data = (rule_lines data, False)"
proof (induction data rule: scan_tokens.induct)
  case (1 data)
  let ?eof = "length data < max_token" and ?w = "take max_token data"
  obtain n t where scan: "scanLines ?w ?eof = (n, t)" by fastforce
  have "scan_result data ?eof 0 (n, t)"
    using scan_window [where data = data and M = max_token and start = 0, OF refl refl] scan by (simp add: scanLines_def)
  then have r: "rule_lines data = (case t of Some tok \<Rightarrow> [tok] | None \<Rightarrow> []) @ rule_lines (drop n data)"
    "set (text_lines (drop n data)) \<subseteq> set (text_lines data)" "?eof \<and> t = None \<longrightarrow> rule_lines (drop n data) = []"
    by (simp_all add: scan_result_def)
  have short: "list_all (\<lambda>l. length l < max_token) (text_lines (drop n data))"
    using "1.prems" r(2) by (auto simp: list_all_iff)
  show ?case
  proof (cases t)
    case (Some tok)
    have "scan_tokens (drop n data) = (rule_lines (drop n data), False)"
      using "1.IH"(2) [OF refl scan [symmetric] Some short] .
    then show ?thesis using scan Some r(1) by (subst scan_tokens.simps) simp
  next
    case None
    show ?thesis
    proof (cases ?eof)
      case True
      then show ?thesis using scan None r by (subst scan_tokens.simps) simp
    next
      case False
      then have "0 < n" using scan_progress [OF "1.prems"] scan by simp
      then have "scan_tokens (drop n data) = (rule_lines (drop n data), False)"
        using "1.IH"(1) [OF refl scan [symmetric] None] False short by simp
      then show ?thesis using scan None False \<open>0 < n\<close> r(1) by (subst scan_tokens.simps) simp
    qed
  qed
qed

lemma scan_tokens_rules: "t \<in> set (fst (scan_tokens data)) \<Longrightarrow> t \<noteq> [] \<and> \<not> HasPrefix t ''#''"
proof (induction data rule: scan_tokens.induct)
  case (1 data)
  let ?eof = "length data < max_token" and ?w = "take max_token data"
  obtain n r where scan: "scanLines ?w ?eof = (n, r)" by fastforce
  have tok: "\<not> no_rule tok" if "scan_from w e k = (m, Some tok)" for w e k m tok
    using that
  proof (induction w e k rule: scan_from.induct)
    case (1 w e k)
    then show ?case by (auto simp: scan_from.simps [of w e k] split: prod.splits option.splits if_splits)
  qed
  show ?case
  proof (cases r)
    case (Some x)
    have "\<not> no_rule x" using tok [of ?w ?eof 0 n x] scan Some by (simp add: scanLines_def)
    moreover have "t = x \<or> t \<in> set (fst (scan_tokens (drop n data)))"
      using "1.prems" scan Some by (subst (asm) scan_tokens.simps) (auto split: prod.splits)
    ultimately show ?thesis using "1.IH"(2) [OF refl scan [symmetric] Some] by (auto simp: no_rule_def)
  next
    case None
    then have "\<not> ?eof \<and> n \<noteq> 0 \<and> t \<in> set (fst (scan_tokens (drop n data)))"
      using "1.prems" scan by (subst (asm) scan_tokens.simps) (auto split: if_splits)
    then show ?thesis using "1.IH"(1) [OF refl scan [symmetric] None] by blast
  qed
qed

text \<open>
  C27. Reading through \<open>scanLines\<close> gives the lines of a text, trimmed, without the empty ones and
  the comments, as long as no line reaches the 64 KiB of the scanner's buffer.
\<close>
theorem scan_tokens_lines:
  assumes "list_all (\<lambda>l. length l < max_token) (text_lines data)"
  shows "scan_tokens data = (filter (\<lambda>t. t \<noteq> [] \<and> \<not> HasPrefix t ''#'') (map (TrimSpace \<circ> drop_cr) (text_lines data)), False)"
  using scan_tokens_short [OF assms] by (simp add: rule_lines_def no_rule_def)

definition example_rules :: string where
  "example_rules = ''*.a'' @ [return_char, newline, newline] @ ''# x'' @ [newline] @ '' !b '' @ [newline] @ ''c''"

lemma scan_tokens_lines_witness: "scan_tokens example_rules = ([''*.a'', ''!b'', ''c''], False)"
  by (subst scan_tokens_lines)
    (simp_all add: example_rules_def max_token_def drop_cr_def TrimSpace_def is_space_def HasPrefix_def)

end
