(* ===== verification/Allow_List.thy ===== *)
theory Allow_List
  imports Scan_Lines Addr_Range Match_Pattern "HOL-Library.AList"
begin

text \<open>
  The allow lists of \<open>service/http/http.go\<close>: rules, one per line, with \<open>@file\<close> to include a
  file, \<open>!\<close> to exclude, prefixes of addresses, and patterns with an optional port. The files
  are a map from names to contents; reading one fails or gives all of it. \<open>netip.ParsePrefix\<close>
  and \<open>Addr.String\<close> are in an environment. Files may include each other, so the parser has
  fuel: the nesting of files it follows; \<open>None\<close> is fuel that ran out, or an \<open>Add\<close> that does not
  return.
\<close>

section \<open>Paths\<close>

fun join_with :: "string \<Rightarrow> string list \<Rightarrow> string" where
  "join_with sep [] = []"
| "join_with sep [s] = s"
| "join_with sep (s # t # ss) = s @ sep @ join_with sep (t # ss)"

text \<open>\<open>path.Clean\<close>: the elements that stay, innermost first.\<close>

fun clean_elems :: "bool \<Rightarrow> string list \<Rightarrow> string list \<Rightarrow> string list" where
  "clean_elems rooted [] stack = stack"
| "clean_elems rooted (e # es) stack =
     (if e = [] \<or> e = ''.'' then clean_elems rooted es stack
      else if e = ''..'' then
        (case stack of
           seg # rest \<Rightarrow> if seg = ''..'' then clean_elems rooted es (e # stack) else clean_elems rooted es rest
         | [] \<Rightarrow> if rooted then clean_elems rooted es [] else clean_elems rooted es [e])
      else clean_elems rooted es (e # stack))"

definition path_Clean :: "string \<Rightarrow> string" where
  "path_Clean p =
     (if p = [] then ''.''
      else
        let rooted = HasPrefix p ''/'';
            out = join_with ''/'' (rev (clean_elems rooted (split_on (CHR ''/'') p) []))
        in if rooted then ''/'' @ out else if out = [] then ''.'' else out)"

definition path_Dir :: "string \<Rightarrow> string" where
  "path_Dir p =
     path_Clean (case last_index_byte (CHR ''/'') p of None \<Rightarrow> [] | Some i \<Rightarrow> take (i + 1) p)"

definition path_Join :: "string \<Rightarrow> string \<Rightarrow> string" where
  "path_Join a b =
     (if a = [] \<and> b = [] then [] else path_Clean (join_with ''/'' (filter (\<lambda>s. s \<noteq> []) [a, b])))"

section \<open>Rules\<close>

record environment =
  env_files :: "string \<rightharpoonup> string"
  env_ParsePrefix :: "string \<Rightarrow> (addr \<times> nat) option"
  env_String :: "addr \<Rightarrow> string"

text \<open>\<open>None\<close> as a configuration is \<open>nil\<close>: every port.\<close>

type_synonym patterns = "(string \<times> string list option) list"

record settings =
  st_patterns :: patterns
  st_ipranges :: "addr AddrRangeSet"

record parser =
  ap_includes :: settings
  ap_excludes :: settings

definition parser_start :: parser where
  "parser_start = \<lparr>ap_includes = \<lparr>st_patterns = [], st_ipranges = []\<rparr>, ap_excludes = \<lparr>st_patterns = [], st_ipranges = []\<rparr>\<rparr>"

datatype rule_error = OpenFailed string | LineTooLong string | BadPrefix parse_error

text \<open>\<open>rePortSuffix\<close>, \<open>:\d+$\<close>: the match, or the empty string.\<close>

definition port_suffix :: "string \<Rightarrow> string" where
  "port_suffix line =
     (case last_index_byte (CHR '':'') line of
        None \<Rightarrow> []
      | Some i \<Rightarrow>
          let digits = drop (i + 1) line
          in if digits \<noteq> [] \<and> list_all is_digit digits then drop i line else [])"

definition split_rule :: "string \<Rightarrow> string \<times> string" where
  "split_rule line =
     (let portSuffix = port_suffix line;
          pattern = take (length line - length portSuffix) line
      in if HasPrefix pattern ''['' \<and> HasSuffix pattern '']''
         then (drop 1 (take (length pattern - 1) pattern), portSuffix)
         else if portSuffix \<noteq> [] \<and> CHR '':'' \<in> set pattern then (line, [])
         else (pattern, portSuffix))"

text \<open>The end of \<open>parseLine\<close>: record a pattern, for a port or for all.\<close>

definition add_pattern :: "string \<times> string \<Rightarrow> patterns \<Rightarrow> patterns" where
  "add_pattern rule ps =
     (case rule of (pattern, portSuffix) \<Rightarrow>
        if portSuffix = [] then AList.update pattern None ps
        else
          let port = drop 1 portSuffix
          in case map_of ps pattern of
               Some None \<Rightarrow> ps
             | None \<Rightarrow> AList.update pattern (Some [port]) ps
             | Some (Some ports) \<Rightarrow>
                 if port \<in> set ports then ps else AList.update pattern (Some (ports @ [port])) ps)"

definition add_rule :: "environment \<Rightarrow> string \<Rightarrow> settings \<Rightarrow> rule_error + settings" where
  "add_rule env line st =
     (if CHR ''/'' \<in> set line then
        (case ParsePrefix (env_ParsePrefix env) line of
           Inl err \<Rightarrow> Inl (BadPrefix err)
         | Inr (r, closed) \<Rightarrow>
             let st1 = st\<lparr>st_ipranges := Add (st_ipranges st) r\<rparr>
             in if \<not> closed then Inr st1
                else Inr (st1\<lparr>st_patterns := add_pattern (split_rule (env_String env (High r))) (st_patterns st1)\<rparr>))
      else Inr (st\<lparr>st_patterns := add_pattern (split_rule line) (st_patterns st)\<rparr>))"

text \<open>\<open>parseLine\<close> for a line that does not include a file.\<close>

definition parse_rule :: "environment \<Rightarrow> string \<Rightarrow> parser \<Rightarrow> rule_error + parser" where
  "parse_rule env line p =
     (if HasPrefix line ''!''
      then map_sum id (\<lambda>st. p\<lparr>ap_excludes := st\<rparr>) (add_rule env (drop 1 line) (ap_excludes p))
      else map_sum id (\<lambda>st. p\<lparr>ap_includes := st\<rparr>) (add_rule env line (ap_includes p)))"

text \<open>
  \<open>parseLine\<close> and \<open>parseFile\<close>, given what is done with a line that does not include a file: \<open>http.go\<close>
  and \<open>dnstun.go\<close> differ in that. First the name of the file that a line includes, seen from file
  \<open>name\<close>.\<close>

definition included_path :: "string \<Rightarrow> string \<Rightarrow> string" where
  "included_path name line =
     (let filepath = drop 1 line
      in if HasPrefix filepath ''./'' \<or> HasPrefix filepath ''../'' then path_Join (path_Dir name) filepath
         else filepath)"

function parse_lines :: "(string \<Rightarrow> 'a \<Rightarrow> rule_error + 'a) \<Rightarrow> nat \<Rightarrow> environment \<Rightarrow> string \<Rightarrow> string list \<Rightarrow> 'a \<Rightarrow> (rule_error + 'a) option"
  and parse_file :: "(string \<Rightarrow> 'a \<Rightarrow> rule_error + 'a) \<Rightarrow> nat \<Rightarrow> environment \<Rightarrow> string \<Rightarrow> 'a \<Rightarrow> (rule_error + 'a) option" where
  "parse_lines rule k env name [] p = Some (Inr p)"
| "parse_lines rule k env name (line # ls) p =
     (case (if HasPrefix line ''@''
            then (case k of 0 \<Rightarrow> None | Suc k' \<Rightarrow> parse_file rule k' env (included_path name line) p)
            else Some (rule line p)) of
        None \<Rightarrow> None
      | Some (Inl err) \<Rightarrow> Some (Inl err)
      | Some (Inr p') \<Rightarrow> parse_lines rule k env name ls p')"
| "parse_file rule k env name p =
     (case env_files env name of
        None \<Rightarrow> Some (Inl (OpenFailed name))
      | Some content \<Rightarrow>
          (case scan_tokens content of
             (tokens, too_long) \<Rightarrow>
               (case parse_lines rule k env name tokens p of
                  Some (Inr p') \<Rightarrow> if too_long then Some (Inl (LineTooLong name)) else Some (Inr p')
                | r \<Rightarrow> r)))"
  by pat_completeness auto
termination
  by (relation "inv_image (less_than <*lex*> less_than)
    (\<lambda>x. case x of Inl (rule, k, env, name, ls, p) \<Rightarrow> (2 * k, length ls) | Inr (rule, k, env, name, p) \<Rightarrow> (2 * k + 1, 0))") auto

declare parse_file.simps [simp del]

section \<open>Checksums\<close>

text \<open>What \<open>checksum\<close> feeds to SHA-1.\<close>

function digest_lines :: "nat \<Rightarrow> environment \<Rightarrow> string \<Rightarrow> string list \<Rightarrow> string \<Rightarrow> (rule_error + string) option"
  and digest_file :: "nat \<Rightarrow> environment \<Rightarrow> string \<Rightarrow> string \<Rightarrow> (rule_error + string) option" where
  "digest_lines k env name [] h = Some (Inr h)"
| "digest_lines k env name (line # ls) h =
     (case (if HasPrefix line ''@''
            then (case k of 0 \<Rightarrow> None | Suc k' \<Rightarrow> digest_file k' env (included_path name line) h)
            else Some (Inr (h @ line @ [newline]))) of
        None \<Rightarrow> None
      | Some (Inl err) \<Rightarrow> Some (Inl err)
      | Some (Inr h') \<Rightarrow> digest_lines k env name ls h')"
| "digest_file k env name h =
     (case env_files env name of
        None \<Rightarrow> Some (Inl (OpenFailed name))
      | Some content \<Rightarrow>
          (case scan_tokens content of
             (tokens, too_long) \<Rightarrow>
               (case digest_lines k env name tokens h of
                  Some (Inr h') \<Rightarrow> if too_long then Some (Inl (LineTooLong name)) else Some (Inr h')
                | r \<Rightarrow> r)))"
  by pat_completeness auto
termination
  by (relation "inv_image (less_than <*lex*> less_than)
    (\<lambda>x. case x of Inl (k, env, name, ls, h) \<Rightarrow> (2 * k, length ls) | Inr (k, env, name, h) \<Rightarrow> (2 * k + 1, 0))") auto

declare digest_file.simps [simp del]

definition checksum :: "nat \<Rightarrow> environment \<Rightarrow> string \<Rightarrow> (rule_error + string) option" where
  "checksum k env what = digest_lines k env ''.'' (fst (scan_tokens what)) []"

section \<open>Matching\<close>

record allow_list =
  al_includes :: "string list option MatchSet \<times> addr AddrRangeSet"
  al_excludes :: "string list option MatchSet \<times> addr AddrRangeSet"

text \<open>The patterns are added in some order; \<open>add_all\<close> is \<open>None\<close> where \<open>Add\<close> does not return.\<close>

definition allow_Init :: "nat \<Rightarrow> environment \<Rightarrow> string \<Rightarrow> (rule_error + allow_list) option" where
  "allow_Init k env what =
     (case parse_lines (parse_rule env) k env ''.'' (fst (scan_tokens what)) parser_start of
        None \<Rightarrow> None
      | Some (Inl err) \<Rightarrow> Some (Inl err)
      | Some (Inr p) \<Rightarrow>
          (case (add_all ms_empty (st_patterns (ap_includes p)), add_all ms_empty (st_patterns (ap_excludes p))) of
             (Some inc, Some exc) \<Rightarrow>
               Some (Inr \<lparr>al_includes = (inc, st_ipranges (ap_includes p)), al_excludes = (exc, st_ipranges (ap_excludes p))\<rparr>)
           | _ \<Rightarrow> None))"

definition allow_match :: "string list option MatchSet \<Rightarrow> addr AddrRangeSet \<Rightarrow> string \<Rightarrow> string \<Rightarrow> addr \<Rightarrow> bool" where
  "allow_match patterns ipranges host port a \<longleftrightarrow>
     addr_IsValid a \<and> Contains ipranges a \<or>
     list_ex (\<lambda>config. case config of None \<Rightarrow> True | Some ports \<Rightarrow> port \<in> set ports) (ms_MatchAll patterns host)"

definition Allow :: "allow_list \<Rightarrow> string \<Rightarrow> string \<Rightarrow> addr \<Rightarrow> bool" where
  "Allow l host port a \<longleftrightarrow>
     allow_match (fst (al_includes l)) (snd (al_includes l)) host port a \<and>
     \<not> allow_match (fst (al_excludes l)) (snd (al_excludes l)) host port a"

section \<open>The rules that are in force\<close>

text \<open>The rules of a text, with those of the files it includes in their place.\<close>

function flat_lines :: "nat \<Rightarrow> environment \<Rightarrow> string \<Rightarrow> string list \<Rightarrow> (rule_error + string list) option"
  and flat_file :: "nat \<Rightarrow> environment \<Rightarrow> string \<Rightarrow> (rule_error + string list) option" where
  "flat_lines k env name [] = Some (Inr [])"
| "flat_lines k env name (line # ls) =
     (case (if HasPrefix line ''@''
            then (case k of 0 \<Rightarrow> None | Suc k' \<Rightarrow> flat_file k' env (included_path name line))
            else Some (Inr [line])) of
        None \<Rightarrow> None
      | Some (Inl err) \<Rightarrow> Some (Inl err)
      | Some (Inr xs) \<Rightarrow> map_option (map_sum id ((@) xs)) (flat_lines k env name ls))"
| "flat_file k env name =
     (case env_files env name of
        None \<Rightarrow> Some (Inl (OpenFailed name))
      | Some content \<Rightarrow>
          (case flat_lines k env name (fst (scan_tokens content)) of
             Some (Inr xs) \<Rightarrow> if snd (scan_tokens content) then Some (Inl (LineTooLong name)) else Some (Inr xs)
           | r \<Rightarrow> r))"
  by pat_completeness auto
termination
  by (relation "inv_image (less_than <*lex*> less_than)
    (\<lambda>x. case x of Inl (k, env, name, ls) \<Rightarrow> (2 * k, length ls) | Inr (k, env, name) \<Rightarrow> (2 * k + 1, 0))") auto

declare flat_file.simps [simp del]

fun parse_rules :: "(string \<Rightarrow> 'a \<Rightarrow> rule_error + 'a) \<Rightarrow> string list \<Rightarrow> 'a \<Rightarrow> rule_error + 'a" where
  "parse_rules rule [] p = Inr p"
| "parse_rules rule (l # ls) p = (case rule l p of Inl e \<Rightarrow> Inl e | Inr p' \<Rightarrow> parse_rules rule ls p')"

lemma parse_rules_append:
  "parse_rules rule (xs @ ys) p = (case parse_rules rule xs p of Inl e \<Rightarrow> Inl e | Inr p' \<Rightarrow> parse_rules rule ys p')"
  by (induction xs arbitrary: p) (auto split: sum.splits)

text \<open>The text that a checksum is taken of.\<close>

definition digest_of :: "string list \<Rightarrow> string" where
  "digest_of xs = concat (map (\<lambda>l. l @ [newline]) xs)"

lemma digest_of_simps [simp]:
  "digest_of [] = []" "digest_of (x # xs) = x @ newline # digest_of xs" "digest_of (xs @ ys) = digest_of xs @ digest_of ys"
  by (simp_all add: digest_of_def)

text \<open>\<open>checksum\<close> digests the flattened rules.\<close>

lemma digest_flat:
  "digest_lines k env name ls h = map_option (map_sum id (\<lambda>xs. h @ digest_of xs)) (flat_lines k env name ls)"
  "digest_file k env name h = map_option (map_sum id (\<lambda>xs. h @ digest_of xs)) (flat_file k env name)"
proof (induction k env name ls and k env name arbitrary: h and h rule: flat_lines_flat_file.induct)
  case (2 k env name line ls)
  show ?case
  proof (cases "HasPrefix line ''@''")
    case True
    show ?thesis
    proof (cases k)
      case (Suc k')
      note sub = "2.IH"(1) [OF True Suc]
      show ?thesis
      proof (cases "flat_file k' env (included_path name line)")
        case (Some r)
        show ?thesis
        proof (cases r)
          case (Inr xs)
          have "digest_lines k env name ls h' = map_option (map_sum id (\<lambda>xs. h' @ digest_of xs)) (flat_lines k env name ls)" for h'
            using "2.IH"(2) [of r xs] True Suc Some Inr by (simp add: id_def)
          with True Suc Some Inr sub show ?thesis by (simp add: option.map_comp sum.map_comp comp_def id_def)
        qed (use True Suc Some sub in simp)
      qed (use True Suc sub in simp)
    qed (simp add: True)
  next
    case False
    with "2.IH"(2) [of "Inr [line]" "[line]"] show ?thesis by (simp add: option.map_comp sum.map_comp comp_def)
  qed
next
  case (3 k env name)
  show ?case
  proof (cases "env_files env name")
    case (Some content)
    obtain toks e where "scan_tokens content = (toks, e)" by fastforce
    with 3 [OF Some, of h] Some show ?thesis
      by (auto simp: digest_file.simps flat_file.simps split: option.splits sum.splits)
  qed (simp add: digest_file.simps flat_file.simps)
qed simp_all


text \<open>The parser goes through the same rules.\<close>

lemma parse_flat:
  "parse_lines rule k env name ls p = Some (Inr p') \<longleftrightarrow>
     (\<exists>xs. flat_lines k env name ls = Some (Inr xs) \<and> parse_rules rule xs p = Inr p')"
  "parse_file rule k env name p = Some (Inr p') \<longleftrightarrow>
     (\<exists>xs. flat_file k env name = Some (Inr xs) \<and> parse_rules rule xs p = Inr p')"
proof (induction k env name ls and k env name arbitrary: p p' and p p' rule: flat_lines_flat_file.induct)
  case (2 k env name line ls)
  show ?case
  proof (cases "HasPrefix line ''@''")
    case True
    show ?thesis
    proof (cases k)
      case (Suc k')
      note sub = "2.IH"(1) [OF True Suc]
      show ?thesis
      proof (cases "\<exists>xs. flat_file k' env (included_path name line) = Some (Inr xs)")
        case False
        with True Suc sub show ?thesis by (auto split: option.splits sum.splits)
      next
        case flat: True
        then obtain xs where xs: "flat_file k' env (included_path name line) = Some (Inr xs)" by blast
        have rest: "parse_lines rule k env name ls q = Some (Inr q') \<longleftrightarrow>
            (\<exists>xs. flat_lines k env name ls = Some (Inr xs) \<and> parse_rules rule xs q = Inr q')" for q q'
          using "2.IH"(2) [of "Inr xs" xs] True Suc xs by simp
        have iff: "parse_file rule k' env (included_path name line) p = Some (Inr q) \<longleftrightarrow> parse_rules rule xs p = Inr q" for q
          using sub xs by simp
        show ?thesis
        proof (cases "parse_rules rule xs p")
          case (Inl e)
          with iff have "parse_file rule k' env (included_path name line) p \<noteq> Some (Inr q)" for q by simp
          with Inl True Suc xs show ?thesis
            by (auto simp: parse_rules_append map_option_case map_sum_def split: option.splits sum.splits)
        next
          case (Inr q)
          with iff have "parse_file rule k' env (included_path name line) p = Some (Inr q)" by simp
          with Inr True Suc xs rest show ?thesis
            by (auto simp: parse_rules_append map_option_case map_sum_def split: option.splits sum.splits)
        qed
      qed
    qed (simp add: True)
  next
    case False
    have rest: "parse_lines rule k env name ls q = Some (Inr q') \<longleftrightarrow>
        (\<exists>xs. flat_lines k env name ls = Some (Inr xs) \<and> parse_rules rule xs q = Inr q')" for q q'
      using "2.IH"(2) [of "Inr [line]" "[line]"] False by simp
    show ?thesis
    proof (cases "rule line p")
      case (Inr q)
      with False rest [of q p'] show ?thesis
        by (auto simp: map_option_case map_sum_def split: option.splits sum.splits)
    qed (use False in \<open>auto simp: map_option_case map_sum_def split: option.splits sum.splits\<close>)
  qed
next
  case (3 k env name)
  show ?case
  proof (cases "env_files env name")
    case (Some content)
    obtain toks e where "scan_tokens content = (toks, e)" by fastforce
    with 3 [OF Some, of p p'] Some show ?thesis
      by (auto simp: parse_file.simps flat_file.simps split: option.splits sum.splits)
  qed (simp add: parse_file.simps flat_file.simps)
qed auto

section \<open>Equal checksums, equal lists\<close>

lemma set_TrimSpace: "set (TrimSpace s) \<subseteq> set s"
  by (auto simp: TrimSpace_def dest!: set_dropWhileD)

lemma set_drop_cr: "set (drop_cr s) \<subseteq> set s"
  by (auto simp: drop_cr_def dest: in_set_butlastD)

lemma ScanLines_no_newline: "ScanLines d e = (n, Some t) \<Longrightarrow> newline \<notin> set t"
  using set_drop_cr by (fastforce simp: ScanLines_def split: if_splits option.splits dest: index_byte_Some)

lemma scan_from_no_newline: "scan_from w e k = (n, Some t) \<Longrightarrow> newline \<notin> set t"
proof (induction w e k rule: scan_from.induct)
  case (1 w e k)
  then show ?case using set_TrimSpace ScanLines_no_newline
    by (fastforce simp: scan_from.simps [of w e k] split: prod.splits option.splits if_splits)
qed

lemma scan_tokens_no_newline: "t \<in> set (fst (scan_tokens data)) \<Longrightarrow> newline \<notin> set t"
proof (induction data rule: scan_tokens.induct)
  case (1 data)
  let ?eof = "length data < max_token" and ?w = "take max_token data"
  obtain n r where scan: "scanLines ?w ?eof = (n, r)" by fastforce
  show ?case
  proof (cases r)
    case (Some x)
    then have "newline \<notin> set x" using scan scan_from_no_newline by (simp add: scanLines_def)
    moreover have "t = x \<or> t \<in> set (fst (scan_tokens (drop n data)))"
      using "1.prems" scan Some by (subst (asm) scan_tokens.simps) (auto split: prod.splits)
    ultimately show ?thesis using "1.IH"(2) [OF refl scan [symmetric] Some] by auto
  next
    case None
    then have "\<not> ?eof \<and> n \<noteq> 0 \<and> t \<in> set (fst (scan_tokens (drop n data)))"
      using "1.prems" scan by (subst (asm) scan_tokens.simps) (auto split: if_splits)
    then show ?thesis using "1.IH"(1) [OF refl scan [symmetric] None] by blast
  qed
qed

lemma flat_no_newline:
  "flat_lines k env name ls = Some (Inr xs) \<Longrightarrow> list_all (\<lambda>l. newline \<notin> set l) ls \<Longrightarrow> list_all (\<lambda>l. newline \<notin> set l) xs"
  "flat_file k env name = Some (Inr xs) \<Longrightarrow> list_all (\<lambda>l. newline \<notin> set l) xs"
proof (induction k env name ls and k env name arbitrary: xs and xs rule: flat_lines_flat_file.induct)
  case (2 k env name line ls)
  obtain ys zs where r: "(if HasPrefix line ''@'' then (case k of 0 \<Rightarrow> None | Suc k' \<Rightarrow> flat_file k' env (included_path name line))
        else Some (Inr [line])) = Some (Inr ys)" "flat_lines k env name ls = Some (Inr zs)" "xs = ys @ zs"
    using "2.prems"(1) by (auto simp: map_option_case map_sum_def split: option.splits sum.splits)
  have "list_all (\<lambda>l. newline \<notin> set l) zs" using "2.IH"(2) [OF r(1) refl r(2)] "2.prems"(2) by simp
  moreover have "list_all (\<lambda>l. newline \<notin> set l) ys"
    using r(1) "2.IH"(1) "2.prems"(2) by (auto split: if_splits nat.splits)
  ultimately show ?case using r(3) by simp
next
  case (3 k env name)
  then obtain content where content: "env_files env name = Some content" by (auto simp: flat_file.simps split: option.splits)
  have "list_all (\<lambda>l. newline \<notin> set l) (fst (scan_tokens content))"
    using scan_tokens_no_newline by (auto simp: list_all_iff)
  with "3.IH" [OF content] "3.prems" content show ?case by (auto simp: flat_file.simps split: option.splits sum.splits if_splits)
qed simp

lemma text_lines_digest: "list_all (\<lambda>l. newline \<notin> set l) xs \<Longrightarrow> text_lines (digest_of xs) = xs"
  by (induction xs) (simp_all add: text_lines_line)

lemma parse_rule_files: "parse_rule (env\<lparr>env_files := fs\<rparr>) l p = parse_rule env l p"
proof -
  have "add_rule (env\<lparr>env_files := fs\<rparr>) l st = add_rule env l st" for l st
    by (auto simp: add_rule_def Let_def split: sum.split)
  then show ?thesis by (simp add: parse_rule_def)
qed

lemma parse_rules_files: "parse_rules (parse_rule (env\<lparr>env_files := fs\<rparr>)) xs p = parse_rules (parse_rule env) xs p"
  by (induction xs arbitrary: p) (simp_all add: parse_rule_files split: sum.split)

lemma checksum_flat:
  "checksum k env what = Some (Inr h) \<longleftrightarrow>
     (\<exists>xs. flat_lines k env ''.'' (fst (scan_tokens what)) = Some (Inr xs) \<and> h = digest_of xs)"
  by (auto simp: checksum_def digest_flat map_option_case map_sum_def split: option.splits sum.splits)

lemma allow_Init_flat:
  "allow_Init k env what = Some (Inr l) \<longleftrightarrow>
     (\<exists>xs p inc exc. flat_lines k env ''.'' (fst (scan_tokens what)) = Some (Inr xs) \<and> parse_rules (parse_rule env) xs parser_start = Inr p \<and>
        add_all ms_empty (st_patterns (ap_includes p)) = Some inc \<and> add_all ms_empty (st_patterns (ap_excludes p)) = Some exc \<and>
        l = \<lparr>al_includes = (inc, st_ipranges (ap_includes p)), al_excludes = (exc, st_ipranges (ap_excludes p))\<rparr>)"
proof -
  have "allow_Init k env what = Some (Inr l) \<longleftrightarrow>
    (\<exists>p inc exc. parse_lines (parse_rule env) k env ''.'' (fst (scan_tokens what)) parser_start = Some (Inr p) \<and>
        add_all ms_empty (st_patterns (ap_includes p)) = Some inc \<and> add_all ms_empty (st_patterns (ap_excludes p)) = Some exc \<and>
        l = \<lparr>al_includes = (inc, st_ipranges (ap_includes p)), al_excludes = (exc, st_ipranges (ap_excludes p))\<rparr>)"
    by (auto simp: allow_Init_def split: option.splits sum.splits)
  then show ?thesis unfolding parse_flat by blast
qed

text \<open>
  C26. The text that a checksum is taken of determines the allow list: when two texts, with the
  files they include at the time, give \<open>checksum\<close> the same bytes, \<open>Init\<close> builds the same list from
  both. So keeping the old list for an equal checksum is right, up to collisions of SHA-1.
\<close>
theorem checksum_determines_list:
  assumes "checksum k1 env what1 = Some (Inr h)" and "checksum k2 (env\<lparr>env_files := fs\<rparr>) what2 = Some (Inr h)"
  shows "allow_Init k1 env what1 = Some (Inr l) \<longleftrightarrow> allow_Init k2 (env\<lparr>env_files := fs\<rparr>) what2 = Some (Inr l)"
proof -
  obtain xs ys where xs: "flat_lines k1 env ''.'' (fst (scan_tokens what1)) = Some (Inr xs)" "h = digest_of xs"
    and ys: "flat_lines k2 (env\<lparr>env_files := fs\<rparr>) ''.'' (fst (scan_tokens what2)) = Some (Inr ys)" "h = digest_of ys"
    using assms by (auto simp: checksum_flat)
  have "list_all (\<lambda>l. newline \<notin> set l) xs" "list_all (\<lambda>l. newline \<notin> set l) ys"
    using flat_no_newline(1) [OF xs(1)] flat_no_newline(1) [OF ys(1)] scan_tokens_no_newline by (auto simp: list_all_iff)
  then have "xs = ys" using text_lines_digest xs(2) ys(2) by metis
  with xs(1) ys(1) show ?thesis by (simp add: allow_Init_flat parse_rules_files)
qed

definition example_env :: environment where
  "example_env = \<lparr>env_files = [''a.txt'' \<mapsto> ''!b''], env_ParsePrefix = (\<lambda>_. None), env_String = (\<lambda>_. [])\<rparr>"

lemma scan_short_lines:
  "list_all (\<lambda>l. length l < max_token) (text_lines data) \<Longrightarrow> rule_lines data = ts \<Longrightarrow> scan_tokens data = (ts, False)"
  by (simp add: scan_tokens_short)

lemma example_scans:
  "scan_tokens (''*.c'' @ [newline] @ ''@a.txt'') = ([''*.c'', ''@a.txt''], False)"
  "scan_tokens (''*.c'' @ [newline] @ ''# old'' @ [newline] @ ''!b'') = ([''*.c'', ''!b''], False)"
  "scan_tokens ''!b'' = ([''!b''], False)"
  by (rule scan_short_lines; simp add: max_token_def rule_lines_def no_rule_def drop_cr_def TrimSpace_def is_space_def HasPrefix_def)+

lemma example_checksums:
  "checksum 1 example_env (''*.c'' @ [newline] @ ''@a.txt'') = Some (Inr (''*.c'' @ newline # ''!b'' @ [newline]))"
  "checksum 0 (example_env\<lparr>env_files := Map.empty\<rparr>) (''*.c'' @ [newline] @ ''# old'' @ [newline] @ ''!b'') =
     Some (Inr (''*.c'' @ newline # ''!b'' @ [newline]))"
  unfolding checksum_def example_scans
  by (simp_all add: HasPrefix_def digest_file.simps included_path_def Let_def example_env_def example_scans)

lemma checksum_determines_list_witness:
  "\<forall>l. (allow_Init 1 example_env (''*.c'' @ [newline] @ ''@a.txt'') = Some (Inr l)) =
   (allow_Init 0 (example_env\<lparr>env_files := Map.empty\<rparr>) (''*.c'' @ [newline] @ ''# old'' @ [newline] @ ''!b'') = Some (Inr l))"
  by (intro allI) (rule checksum_determines_list [OF example_checksums])

text \<open>A file that includes itself: the parser never returns, whatever the nesting it may use.\<close>

definition self_files :: "string \<rightharpoonup> string" where
  "self_files = [''a'' \<mapsto> ''@a'']"

lemma self_inclusion: "parse_file rule k (env\<lparr>env_files := self_files\<rparr>) ''a'' p = None"
proof (induction k arbitrary: p)
  case 0
  have "scan_tokens ''@a'' = ([''@a''], False)"
    by (rule scan_short_lines; simp add: max_token_def rule_lines_def no_rule_def drop_cr_def TrimSpace_def is_space_def HasPrefix_def)
  then show ?case by (simp add: parse_file.simps HasPrefix_def self_files_def)
next
  case (Suc k)
  have "scan_tokens ''@a'' = ([''@a''], False)"
    by (rule scan_short_lines; simp add: max_token_def rule_lines_def no_rule_def drop_cr_def TrimSpace_def is_space_def HasPrefix_def)
  moreover have "parse_lines rule (Suc k) (env\<lparr>env_files := self_files\<rparr>) ''a'' [''@a''] p = None"
    using Suc [of p] by (simp add: HasPrefix_def included_path_def)
  moreover have "self_files ''a'' = Some ''@a''" by (simp add: self_files_def)
  ultimately show ?case by (subst parse_file.simps) simp
qed

section \<open>What a list allows\<close>

definition config_allows :: "string list option \<Rightarrow> string \<Rightarrow> bool" where
  "config_allows config port \<longleftrightarrow> (case config of None \<Rightarrow> True | Some ports \<Rightarrow> port \<in> set ports)"

text \<open>A pattern with its port suffix, and a rule without \<open>!\<close>, on a host, port and address.\<close>

definition pattern_hits :: "string \<times> string \<Rightarrow> string \<Rightarrow> string \<Rightarrow> bool" where
  "pattern_hits rule host port \<longleftrightarrow>
     in_lang (spec_pattern (bytes_of (fst rule))) (bytes_of host) \<and> (snd rule = [] \<or> port = drop 1 (snd rule))"

definition rule_hits :: "environment \<Rightarrow> string \<Rightarrow> string \<Rightarrow> string \<Rightarrow> addr \<Rightarrow> bool" where
  "rule_hits env line host port a \<longleftrightarrow>
     (if CHR ''/'' \<in> set line then
        (case ParsePrefix (env_ParsePrefix env) line of
           Inl _ \<Rightarrow> False
         | Inr (r, closed) \<Rightarrow> addr_IsValid a \<and> range_covers r a \<or>
             closed \<and> pattern_hits (split_rule (env_String env (High r))) host port)
      else pattern_hits (split_rule line) host port)"

text \<open>The patterns and ranges that rules add.\<close>

definition rule_pattern :: "environment \<Rightarrow> string \<Rightarrow> (string \<times> string) list" where
  "rule_pattern env line =
     (if CHR ''/'' \<in> set line then
        (case ParsePrefix (env_ParsePrefix env) line of
           Inr (r, True) \<Rightarrow> [split_rule (env_String env (High r))] | _ \<Rightarrow> [])
      else [split_rule line])"

definition rule_range :: "environment \<Rightarrow> string \<Rightarrow> addr AddrRange list" where
  "rule_range env line =
     (if CHR ''/'' \<in> set line then
        (case ParsePrefix (env_ParsePrefix env) line of Inr (r, closed) \<Rightarrow> [r] | _ \<Rightarrow> []) else [])"

definition patterns_mean :: "patterns \<Rightarrow> (string \<times> string) set \<Rightarrow> bool" where
  "patterns_mean ps R \<longleftrightarrow> distinct (map fst ps) \<and>
     (\<forall>P port. (\<exists>c. map_of ps P = Some c \<and> config_allows c port) \<longleftrightarrow>
        (\<exists>s. (P, s) \<in> R \<and> (s = [] \<or> port = drop 1 s)))"

lemma patterns_meanD:
  assumes "patterns_mean ps R"
  shows "distinct (map fst ps)"
    and "(\<exists>c. map_of ps P = Some c \<and> config_allows c port) \<longleftrightarrow> (\<exists>s. (P, s) \<in> R \<and> (s = [] \<or> port = drop 1 s))"
proof -
  note m = assms [unfolded patterns_mean_def]
  show "distinct (map fst ps)" by (rule m [THEN conjunct1])
  show "(\<exists>c. map_of ps P = Some c \<and> config_allows c port) \<longleftrightarrow> (\<exists>s. (P, s) \<in> R \<and> (s = [] \<or> port = drop 1 s))"
    by (rule m [THEN conjunct2, rule_format])
qed

lemma patterns_mean_add:
  assumes "patterns_mean ps R"
  shows "patterns_mean (add_pattern (P, s) ps) (insert (P, s) R)"
proof -
  note dist = patterns_meanD(1) [OF assms] and iff = patterns_meanD(2) [OF assms]
  have other: "map_of (add_pattern (P, s) ps) Q = map_of ps Q" if "Q \<noteq> P" for Q
    using that by (auto simp: add_pattern_def update_conv' Let_def split: option.split)
  have this_one: "(\<exists>c. map_of (add_pattern (P, s) ps) P = Some c \<and> config_allows c port) \<longleftrightarrow>
      (\<exists>c. map_of ps P = Some c \<and> config_allows c port) \<or> s = [] \<or> port = drop 1 s" for port
    by (auto simp: add_pattern_def update_conv' Let_def config_allows_def split: option.splits)
  have "(\<exists>c. map_of (add_pattern (P, s) ps) Q = Some c \<and> config_allows c port) \<longleftrightarrow>
        (\<exists>s'. (Q, s') \<in> insert (P, s) R \<and> (s' = [] \<or> port = drop 1 s'))" for Q port
    using this_one [of port] other [of Q] iff [of Q port] by (cases "Q = P") auto
  moreover have "distinct (map fst (add_pattern (P, s) ps))"
    using dist by (auto simp: add_pattern_def Let_def distinct_update split: option.split)
  ultimately show ?thesis by (simp add: patterns_mean_def)
qed

definition settings_mean :: "environment \<Rightarrow> settings \<Rightarrow> string list \<Rightarrow> bool" where
  "settings_mean env st ls \<longleftrightarrow>
     patterns_mean (st_patterns st) (set (concat (map (rule_pattern env) ls))) \<and>
     st_ipranges st = foldl Add [] (concat (map (rule_range env) ls))"

lemma settings_mean_add:
  assumes "settings_mean env st ls" "add_rule env l st = Inr st'"
  shows "settings_mean env st' (ls @ [l])"
proof (cases "CHR ''/'' \<in> set l")
  case True
  then obtain r closed where r: "ParsePrefix (env_ParsePrefix env) l = Inr (r, closed)"
    using assms(2) by (auto simp: add_rule_def split: sum.splits)
  obtain P s where "split_rule (env_String env (High r)) = (P, s)" by fastforce
  with assms True r patterns_mean_add show ?thesis
    by (cases closed) (auto simp: settings_mean_def add_rule_def Let_def Un_commute rule_pattern_def rule_range_def)
next
  case False
  obtain P s where "split_rule l = (P, s)" by fastforce
  with assms False patterns_mean_add show ?thesis by (auto simp: settings_mean_def add_rule_def rule_pattern_def rule_range_def)
qed

lemma settings_mean_start: "settings_mean env \<lparr>st_patterns = [], st_ipranges = []\<rparr> []"
  by (simp add: settings_mean_def patterns_mean_def)

definition included :: "string list \<Rightarrow> string list" where
  "included xs = filter (\<lambda>l. \<not> HasPrefix l ''!'') xs"

definition excluded :: "string list \<Rightarrow> string list" where
  "excluded xs = map (drop 1) (filter (\<lambda>l. HasPrefix l ''!'') xs)"

lemma parse_rules_mean:
  "parse_rules (parse_rule env) xs p = Inr p' \<Longrightarrow> settings_mean env (ap_includes p) is \<Longrightarrow> settings_mean env (ap_excludes p) es \<Longrightarrow>
   settings_mean env (ap_includes p') (is @ included xs) \<and> settings_mean env (ap_excludes p') (es @ excluded xs)"
proof (induction xs arbitrary: p "is" es)
  case Nil
  then show ?case by (simp add: included_def excluded_def)
next
  case (Cons x xs)
  show ?case
  proof (cases "HasPrefix x ''!''")
    case True
    then obtain st where st: "add_rule env (drop 1 x) (ap_excludes p) = Inr st"
      "parse_rules (parse_rule env) xs (p\<lparr>ap_excludes := st\<rparr>) = Inr p'"
      using Cons.prems(1) by (auto simp: parse_rule_def [of env x p] map_sum_def split: sum.splits)
    from Cons.IH [OF st(2), of "is" "es @ [drop 1 x]"] Cons.prems(2) settings_mean_add [OF Cons.prems(3) st(1)] True
    show ?thesis by (simp add: included_def excluded_def)
  next
    case False
    then obtain st where st: "add_rule env x (ap_includes p) = Inr st"
      "parse_rules (parse_rule env) xs (p\<lparr>ap_includes := st\<rparr>) = Inr p'"
      using Cons.prems(1) by (auto simp: parse_rule_def [of env x p] map_sum_def split: sum.splits)
    from Cons.IH [OF st(2), of "is @ [x]" es] Cons.prems(3) settings_mean_add [OF Cons.prems(2) st(1)] False
    show ?thesis by (simp add: included_def excluded_def)
  qed
qed


lemma rule_hits_parts:
  "rule_hits env l host port a \<longleftrightarrow> addr_IsValid a \<and> (\<exists>r \<in> set (rule_range env l). range_covers r a) \<or>
     (\<exists>x \<in> set (rule_pattern env l). pattern_hits x host port)"
proof (cases "CHR ''/'' \<in> set l")
  case True
  show ?thesis
  proof (cases "ParsePrefix (env_ParsePrefix env) l")
    case (Inr rc)
    obtain r closed where "rc = (r, closed)" by fastforce
    with Inr True show ?thesis by (cases closed) (simp_all add: rule_hits_def rule_pattern_def rule_range_def)
  qed (use True in \<open>simp add: rule_hits_def rule_pattern_def rule_range_def\<close>)
qed (simp add: rule_hits_def rule_pattern_def rule_range_def)

lemma match_mean:
  assumes st: "settings_mean env st ls" and ok: "entries_ok (st_patterns st)" "exact_on ms_empty (st_patterns st) host"
    and ms: "add_all ms_empty (st_patterns st) = Some ms" and host: "host \<noteq> []"
    and good: "\<forall>l \<in> set ls. list_all range_good (rule_range env l)"
  shows "allow_match ms (st_ipranges st) host port a \<longleftrightarrow> (\<exists>l \<in> set ls. rule_hits env l host port a)"
proof -
  let ?R = "set (concat (map (rule_pattern env) ls))"
  have ranges: "Contains (st_ipranges st) a \<longleftrightarrow> (\<exists>l \<in> set ls. \<exists>r \<in> set (rule_range env l). range_covers r a)"
    using st good rset.contains_built [of "concat (map (rule_range env) ls)" a]
    by (auto simp: settings_mean_def list_all_iff)
  have pm: "patterns_mean (st_patterns st) ?R" using st by (simp add: settings_mean_def)
  note mean = patterns_meanD [OF pm]
  have "set (ms_MatchAll ms host) =
      {d. \<exists>patt. (patt, d) \<in> set (st_patterns st) \<and> in_lang (spec_pattern (bytes_of patt)) (bytes_of host)}"
    by (rule MatchAll_add_all [OF ok ms host])
  then have "list_ex (\<lambda>c. config_allows c port) (ms_MatchAll ms host) \<longleftrightarrow>
      (\<exists>P c. map_of (st_patterns st) P = Some c \<and> config_allows c port \<and> in_lang (spec_pattern (bytes_of P)) (bytes_of host))"
    using mean(1) by (auto simp: list_ex_iff)
  also have "\<dots> \<longleftrightarrow> (\<exists>P. (\<exists>c. map_of (st_patterns st) P = Some c \<and> config_allows c port) \<and> in_lang (spec_pattern (bytes_of P)) (bytes_of host))"
    by blast
  also have "\<dots> \<longleftrightarrow> (\<exists>x \<in> ?R. pattern_hits x host port)"
    by (simp only: mean(2)) (force simp: pattern_hits_def)
  finally have patterns: "list_ex (\<lambda>c. config_allows c port) (ms_MatchAll ms host) \<longleftrightarrow>
      (\<exists>l \<in> set ls. \<exists>x \<in> set (rule_pattern env l). pattern_hits x host port)" by auto
  show ?thesis
    unfolding allow_match_def config_allows_def [symmetric] ranges patterns rule_hits_parts by blast
qed

definition list_exact :: "environment \<Rightarrow> string list \<Rightarrow> string \<Rightarrow> bool" where
  "list_exact env xs host \<longleftrightarrow>
     (case parse_rules (parse_rule env) xs parser_start of
        Inl _ \<Rightarrow> False
      | Inr p \<Rightarrow>
          list_all (\<lambda>ps. entries_ok ps \<and> exact_on ms_empty ps host) [st_patterns (ap_includes p), st_patterns (ap_excludes p)])"

definition prefixes_ok :: "environment \<Rightarrow> bool" where
  "prefixes_ok env \<longleftrightarrow> (\<forall>s p bits. env_ParsePrefix env s = Some (p, bits) \<longrightarrow> bits \<le> addr_BitLen p \<and> p \<noteq> AddrZero)"

lemma prefixes_good: "prefixes_ok env \<Longrightarrow> list_all range_good (rule_range env l)"
  using prefix_range_meets
  by (auto simp: prefixes_ok_def ParsePrefix_def rule_range_def split: sum.split option.split)

text \<open>
  C25. An allow list built from rules allows a host, port and address exactly when some rule without
  \<open>!\<close> hits it and no rule with \<open>!\<close> does: a prefix hits the addresses of its range, a pattern
  the hosts of its language, on its port or, without one, on every port. Neither the order of
  the rules nor repetition matters. \<open>list_exact\<close> leaves out the patterns on which the matcher departs
  from its language (theory Match_Pattern).
\<close>
theorem Allow_meaning:
  assumes "flat_lines k env ''.'' (fst (scan_tokens what)) = Some (Inr xs)" and "allow_Init k env what = Some (Inr l)"
    and "list_exact env xs host" and "host \<noteq> []" and "prefixes_ok env"
  shows "Allow l host port a \<longleftrightarrow>
    (\<exists>x \<in> set xs. \<not> HasPrefix x ''!'' \<and> rule_hits env x host port a) \<and>
    \<not> (\<exists>x \<in> set xs. HasPrefix x ''!'' \<and> rule_hits env (drop 1 x) host port a)"
proof -
  obtain p inc exc where p: "parse_rules (parse_rule env) xs parser_start = Inr p"
    and adds: "add_all ms_empty (st_patterns (ap_includes p)) = Some inc" "add_all ms_empty (st_patterns (ap_excludes p)) = Some exc"
    and l: "l = \<lparr>al_includes = (inc, st_ipranges (ap_includes p)), al_excludes = (exc, st_ipranges (ap_excludes p))\<rparr>"
    using assms(1,2) by (auto simp: allow_Init_flat)
  have mean: "settings_mean env (ap_includes p) (included xs)" "settings_mean env (ap_excludes p) (excluded xs)"
    using parse_rules_mean [OF p, of "[]" "[]"] settings_mean_start by (simp_all add: parser_start_def)
  have ok: "entries_ok (st_patterns (ap_includes p))" "exact_on ms_empty (st_patterns (ap_includes p)) host"
    "entries_ok (st_patterns (ap_excludes p))" "exact_on ms_empty (st_patterns (ap_excludes p)) host"
    using assms(3) p by (auto simp: list_exact_def)
  have good: "\<forall>l \<in> set ls. list_all range_good (rule_range env l)" for ls using prefixes_good [OF assms(5)] by blast
  have "Allow l host port a \<longleftrightarrow> (\<exists>x \<in> set (included xs). rule_hits env x host port a) \<and>
      \<not> (\<exists>x \<in> set (excluded xs). rule_hits env x host port a)"
    unfolding Allow_def l
    using match_mean [OF mean(1) ok(1,2) adds(1) assms(4) good] match_mean [OF mean(2) ok(3,4) adds(2) assms(4) good] by simp
  then show ?thesis by (auto simp: included_def excluded_def)
qed

text \<open>Two rules: \<open>.uk:80\<close> and \<open>!*\<close>.\<close>

definition uk_rules :: string where "uk_rules = ''.uk:80'' @ [newline] @ ''!*''"

lemma uk_scan: "scan_tokens uk_rules = ([''.uk:80'', ''!*''], False)"
  unfolding uk_rules_def
  by (rule scan_short_lines; simp add: max_token_def rule_lines_def no_rule_def drop_cr_def TrimSpace_def is_space_def HasPrefix_def)

lemma uk_flat: "flat_lines 0 example_env ''.'' (fst (scan_tokens uk_rules)) = Some (Inr [''.uk:80'', ''!*''])"
  by (simp add: uk_scan HasPrefix_def)

lemma uk_split: "split_rule ''.uk:80'' = (''.uk'', '':80'')" "split_rule ''*'' = (''*'', [])"
  by (simp_all add: split_rule_def port_suffix_def last_index_byte_def is_digit_def HasPrefix_def HasSuffix_def)

lemma uk_parsed:
  "parse_rules (parse_rule example_env) [''.uk:80'', ''!*''] parser_start =
     Inr \<lparr>ap_includes = \<lparr>st_patterns = [(''.uk'', Some [''80''])], st_ipranges = []\<rparr>,
          ap_excludes = \<lparr>st_patterns = [(''*'', None)], st_ipranges = []\<rparr>\<rparr>"
  by (simp add: parse_rule_def add_rule_def uk_split add_pattern_def parser_start_def HasPrefix_def)

lemma uk_patterns:
  "exact_on ms_empty [(''.uk'', Some [''80''])] ''co.uk''" "exact_on ms_empty [(''*'', None :: string list option)] ''co.uk''"
  "\<exists>ms. add_all ms_empty [(''.uk'', Some [''80''])] = Some ms" "\<exists>ms. add_all ms_empty [(''*'', None :: string list option)] = Some ms"
  by (simp_all add: example_parse example_compile ms_Add_def wf_atoms_def src_ok_def
      is_star_def ends_star_dot_def suffix_to_prefix del: encode_runes_simps One_nat_def)

lemma uk_exact: "list_exact example_env [''.uk:80'', ''!*''] ''co.uk''"
proof -
  have "entries_ok [(''.uk'', Some [''80''])]" "entries_ok [(''*'', None :: string list option)]"
    by (simp_all add: entries_ok_def bytes_of_def)
  with uk_patterns(1,2) show ?thesis unfolding list_exact_def uk_parsed by (simp del: exact_on.simps)
qed

lemma uk_hits: "rule_hits example_env ''.uk:80'' ''co.uk'' ''80'' AddrZero" "\<not> rule_hits example_env ''*'' ''co.uk'' ''80'' AddrZero"
  by (simp_all add: rule_hits_def uk_split pattern_hits_def example_spec example_src example_lang
      del: in_lang.simps(2) seg_ok.simps)

lemma Allow_meaning_witness:
  "\<exists>l. allow_Init 0 example_env uk_rules = Some (Inr l) \<and> Allow l ''co.uk'' ''80'' AddrZero"
proof -
  obtain inc where "add_all ms_empty [(''.uk'', Some [''80''])] = Some inc" using uk_patterns(3) by blast
  moreover obtain exc where "add_all ms_empty [(''*'', None :: string list option)] = Some exc" using uk_patterns(4) by blast
  ultimately have l: "allow_Init 0 example_env uk_rules = Some (Inr \<lparr>al_includes = (inc, []), al_excludes = (exc, [])\<rparr>)"
    unfolding allow_Init_flat using uk_flat uk_parsed by simp
  have "prefixes_ok example_env" by (simp add: prefixes_ok_def example_env_def)
  from Allow_meaning [OF uk_flat l uk_exact _ this, of "''80''" AddrZero] uk_hits l show ?thesis
    by (auto simp: HasPrefix_def)
qed

end
