(* ===== verification/Failover.thy ===== *)
theory Failover
  imports Prelude "HOL-Library.Multiset" "HOL-Library.Signed_Division"
begin

text \<open>
  \<open>service/socks/balancer/failover/failover.go\<close>: the queue of candidates that successes and
  failures move up and down. A candidate is an \<open>elem\<close>; the code passes pointers to elements,
  which the model names by their \<open>Index\<close> (given by \<open>newElem\<close>, never changed, all distinct).
  Every operation of the queue runs under its mutex, so it is one step here. Theory
  Balancers holds the connections that report to the queue and the other two balancers.
\<close>

section \<open>Elements\<close>

abbreviation "maxScore \<equiv> (64 :: int)"
abbreviation "midScore \<equiv> (32 :: int)"   \<comment> \<open>\<open>maxScore/2\<close>\<close>
abbreviation "maxN \<equiv> (9 :: int)"

record elem =
  e_Index :: nat
  e_Score :: int
  e_N :: int       \<comment> \<open>number of consecutive successes or failures\<close>

definition newElem :: "nat \<Rightarrow> elem" where
  "newElem i = \<lparr>e_Index = i, e_Score = midScore, e_N = 0\<rparr>"

definition elem_Less :: "elem \<Rightarrow> elem \<Rightarrow> bool" where
  "elem_Less e other =
     (let d = e_Score e - e_Score other
      in if d \<noteq> 0 then d > 0 else e_Index e < e_Index other)"

text \<open>\<open>for i, j := 0, 1; ; i, j, n = j, i+j, n-1 { if n < 1 { return i } }\<close>\<close>

function fib_loop :: "int \<Rightarrow> int \<Rightarrow> int \<Rightarrow> int" where
  "fib_loop i j n = (if n < 1 then i else fib_loop j (i + j) (n - 1))"
  by pat_completeness auto
termination
  by (relation "measure (\<lambda>(i, j, n). nat n)") auto

declare fib_loop.simps [simp del]

definition fib :: "int \<Rightarrow> int" where
  "fib n = fib_loop 0 1 n"

definition elem_succ :: "elem \<Rightarrow> elem" where
  "elem_succ e =
     (if e_Score e = maxScore then e
      else
        let n = (if e_N e < 0 then 0 else e_N e);
            n = (if n < maxN then n + 1 else n);
            score = e_Score e + fib n
        in e\<lparr>e_N := n, e_Score := if score > maxScore then maxScore else score\<rparr>)"

definition elem_fail :: "elem \<Rightarrow> elem" where
  "elem_fail e =
     (if e_Score e = 0 then e
      else
        let n = (if e_N e > 0 then 0 else e_N e);
            n = (if n > - maxN then n - 1 else n);
            score = e_Score e - fib (- n)
        in e\<lparr>e_N := n, e_Score := if score < 0 then 0 else score\<rparr>)"

section \<open>The queue\<close>

record queue =
  q_elems :: "elem list"
  q_recent :: "nat option"
  q_nLowScore :: int
  q_nHighScore :: int

definition newQueue :: "nat \<Rightarrow> queue" where
  "newQueue n = \<lparr>q_elems = map newElem [0..<n], q_recent = None, q_nLowScore = 0, q_nHighScore = 0\<rparr>"

text \<open>\<open>rand.IntN\<close> is the argument \<open>IntN\<close>; the code relies on \<open>IntN n < n\<close>.\<close>

definition q_pick :: "(nat \<Rightarrow> nat) \<Rightarrow> queue \<Rightarrow> nat \<times> bool \<times> queue" where
  "q_pick IntN q =
     (let s = q_elems q;
          e = s ! 0;
          n = sort_Search (length (tl s)) (\<lambda>i. e_Score (s ! (i + 1)) < e_Score e) + 1;
          e = s ! IntN n
      in (e_Index e, q_recent q = Some (e_Index e), q\<lparr>q_recent := Some (e_Index e)\<rparr>))"

definition scoreChanged :: "int \<Rightarrow> int \<Rightarrow> queue \<Rightarrow> queue" where
  "scoreChanged oldScore newScore q =
     (if oldScore < midScore
      then (if newScore > midScore
            then q\<lparr>q_nLowScore := q_nLowScore q - 1, q_nHighScore := q_nHighScore q + 1\<rparr>
            else if newScore = midScore then q\<lparr>q_nLowScore := q_nLowScore q - 1\<rparr> else q)
      else if oldScore > midScore
      then (if newScore < midScore
            then q\<lparr>q_nLowScore := q_nLowScore q + 1, q_nHighScore := q_nHighScore q - 1\<rparr>
            else if newScore = midScore then q\<lparr>q_nHighScore := q_nHighScore q - 1\<rparr> else q)
      else (if newScore < midScore then q\<lparr>q_nLowScore := q_nLowScore q + 1\<rparr>
            else if newScore > midScore then q\<lparr>q_nHighScore := q_nHighScore q + 1\<rparr> else q))"

text \<open>The two loops of \<open>fix\<close> that move the element at \<open>i\<close> to its place.\<close>

function move_right :: "elem list \<Rightarrow> nat \<Rightarrow> elem list" where
  "move_right s j =
     (if j + 1 < length s
      then if e_Score (s ! j) \<ge> e_Score (s ! (j + 1)) then s
           else move_right (s[j := s ! (j + 1), j + 1 := s ! j]) (j + 1)
      else s)"
  by pat_completeness auto
termination
  by (relation "measure (\<lambda>(s, j). length s - j)") auto

declare move_right.simps [simp del]

fun move_left :: "elem list \<Rightarrow> nat \<Rightarrow> elem list" where
  "move_left s 0 = s"
| "move_left s (Suc j) =
     (if e_Score (s ! Suc j) \<le> e_Score (s ! j) then s
      else move_left (s[Suc j := s ! j, j := s ! Suc j]) j)"

text \<open>\<open>slices.Index\<close>\<close>

fun elem_position :: "elem list \<Rightarrow> nat \<Rightarrow> nat" where
  "elem_position [] idx = 0"
| "elem_position (e # es) idx = (if e_Index e = idx then 0 else Suc (elem_position es idx))"

text \<open>The last loop of \<open>fix\<close>, which pulls all scores back around the middle.\<close>

fun shift_scores :: "int \<Rightarrow> elem list \<Rightarrow> queue \<Rightarrow> elem list \<times> queue" where
  "shift_scores offset [] q = ([], q)"
| "shift_scores offset (e # es) q =
     (let e' = e\<lparr>e_Score := e_Score e + offset\<rparr>;
          (es', q') = shift_scores offset es (scoreChanged (e_Score e) (e_Score e') q)
      in (e' # es', q'))"

definition q_fix :: "queue \<Rightarrow> nat \<Rightarrow> bool \<Rightarrow> queue" where
  "q_fix q idx success =
     (let s = q_elems q;
          i = elem_position s idx;
          oldScore = e_Score (s ! i);
          e = (if success then elem_succ (s ! i) else elem_fail (s ! i));
          s = s[i := e]
      in if e_Score e = oldScore then q\<lparr>q_elems := s\<rparr>
         else
           let s = move_left (move_right s i) i;
               q = scoreChanged oldScore (e_Score e) (q\<lparr>q_elems := s\<rparr>)
           in if q_nLowScore q < int (length s) \<and> q_nHighScore q < int (length s) then q
              else
                let totalScore = sum_list (map e_Score s);
                    offset = midScore - totalScore sdiv int (length s);
                    (s, q) = shift_scores offset s q
                in q\<lparr>q_elems := s\<rparr>)"

definition q_succ :: "queue \<Rightarrow> nat \<Rightarrow> queue" where
  "q_succ q idx = q_fix q idx True"

definition q_fail :: "queue \<Rightarrow> nat \<Rightarrow> queue" where
  "q_fail q idx = q_fix q idx False"

section \<open>Invariant\<close>

definition desc :: "elem list \<Rightarrow> bool" where
  "desc s \<longleftrightarrow> sorted_wrt (\<lambda>a b. e_Score b \<le> e_Score a) s"

definition elem_ok :: "elem \<Rightarrow> bool" where
  "elem_ok e \<longleftrightarrow> 0 \<le> e_Score e \<and> e_Score e \<le> maxScore \<and> - maxN \<le> e_N e \<and> e_N e \<le> maxN"

definition n_low :: "elem list \<Rightarrow> int" where
  "n_low s = int (length (filter (\<lambda>e. e_Score e < midScore) s))"

definition n_high :: "elem list \<Rightarrow> int" where
  "n_high s = int (length (filter (\<lambda>e. e_Score e > midScore) s))"

definition counted :: "queue \<Rightarrow> elem list \<Rightarrow> bool" where
  "counted q s \<longleftrightarrow> q_nLowScore q = n_low s \<and> q_nHighScore q = n_high s"

text \<open>
  The candidates \<open>0, \<dots>, n - 1\<close> once each, best scores first, scores between 0 and \<open>maxScore\<close>,
  the counters right, and never all of them below or all above the middle.
\<close>

definition queue_inv :: "nat \<Rightarrow> queue \<Rightarrow> bool" where
  "queue_inv n q \<longleftrightarrow>
     mset (map e_Index (q_elems q)) = mset [0..<n] \<and> desc (q_elems q) \<and>
     list_all elem_ok (q_elems q) \<and> counted q (q_elems q) \<and>
     (0 < n \<longrightarrow> n_low (q_elems q) < int n \<and> n_high (q_elems q) < int n)"

section \<open>Elements stay in bounds\<close>

lemma fib_values: "fib 0 = 0" "fib 1 = 1" "fib 2 = 1" "fib 3 = 2" "fib 4 = 3" "fib 5 = 5" "fib 6 = 8"
  "fib 7 = 13" "fib 8 = 21" "fib 9 = 34"
  by (simp_all add: fib_def fib_loop.simps)

lemma fib_pos: "1 \<le> n \<Longrightarrow> n \<le> maxN \<Longrightarrow> 1 \<le> fib n"
proof -
  assume "1 \<le> n" "n \<le> maxN"
  then have "n \<in> {1, 2, 3, 4, 5, 6, 7, 8, 9}" by auto
  then show ?thesis by (auto simp: fib_values)
qed

lemma elem_succ_ok: "elem_ok e \<Longrightarrow> elem_ok (elem_succ e)"
  using fib_pos [of "(if e_N e < 0 then 0 else e_N e) + 1"] fib_pos [of maxN]
  by (auto simp: elem_ok_def elem_succ_def Let_def)

lemma elem_fail_ok: "elem_ok e \<Longrightarrow> elem_ok (elem_fail e)"
  using fib_pos [of "- ((if e_N e > 0 then 0 else e_N e) - 1)"] fib_pos [of maxN]
  by (auto simp: elem_ok_def elem_fail_def Let_def)

lemma elem_succ_Index [simp]: "e_Index (elem_succ e) = e_Index e"
  by (simp add: elem_succ_def Let_def)

lemma elem_fail_Index [simp]: "e_Index (elem_fail e) = e_Index e"
  by (simp add: elem_fail_def Let_def)

section \<open>Moving one element to its place\<close>

lemma desc_simps [simp]: "desc []" "desc (e # s) \<longleftrightarrow> (\<forall>x \<in> set s. e_Score x \<le> e_Score e) \<and> desc s"
  "desc (s @ t) \<longleftrightarrow> desc s \<and> desc t \<and> (\<forall>x \<in> set s. \<forall>y \<in> set t. e_Score y \<le> e_Score x)"
  by (simp_all add: desc_def sorted_wrt_append)

lemma move_right_eq:
  "move_right (P @ e # Q) (length P) =
     P @ takeWhile (\<lambda>x. e_Score e < e_Score x) Q @ e # dropWhile (\<lambda>x. e_Score e < e_Score x) Q"
proof (induction Q arbitrary: P)
  case Nil
  then show ?case by (simp add: move_right.simps)
next
  case (Cons x Q)
  have "(P @ e # x # Q)[length P := x, Suc (length P) := e] = (P @ [x]) @ e # Q"
    by (simp add: list_update_append)
  then show ?case using Cons.IH [of "P @ [x]"]
    by (subst move_right.simps) (simp add: nth_append not_le)
qed

lemma move_left_eq:
  "move_left (P @ e # Q) (length P) =
     rev (dropWhile (\<lambda>x. e_Score x < e_Score e) (rev P)) @ e #
     rev (takeWhile (\<lambda>x. e_Score x < e_Score e) (rev P)) @ Q"
proof (induction P arbitrary: Q rule: rev_induct)
  case Nil
  then show ?case by simp
next
  case (snoc x P)
  have "(P @ x # e # Q)[Suc (length P) := x, length P := e] = P @ e # x # Q"
    by (simp add: list_update_append)
  then show ?case using snoc.IH [of "x # Q"] by (simp add: nth_append not_less)
qed

text \<open>In a list that was sorted apart from one element, the two loops sort it.\<close>

lemma move_sorts:
  assumes "desc (P @ Q)"
  shows "desc (move_left (move_right (P @ e # Q) (length P)) (length P)) \<and>
    mset (move_left (move_right (P @ e # Q) (length P)) (length P)) = mset (P @ e # Q)"
proof -
  define R S where "R = takeWhile (\<lambda>x. e_Score e < e_Score x) Q"
    and "S = dropWhile (\<lambda>x. e_Score e < e_Score x) Q"
  have Q: "Q = R @ S" by (simp add: R_def S_def)
  have R: "\<forall>x \<in> set R. e_Score e < e_Score x" using set_takeWhileD unfolding R_def by metis
  have S: "\<forall>x \<in> set S. e_Score x \<le> e_Score e"
  proof (cases S)
    case (Cons a t)
    have "\<not> e_Score e < e_Score a" using hd_dropWhile [of "\<lambda>x. e_Score e < e_Score x" Q] Cons
      unfolding S_def by (metis list.sel(1) list.distinct(1))
    then show ?thesis using assms Cons by (auto simp: Q)
  qed simp
  have right: "move_right (P @ e # Q) (length P) = P @ R @ e # S"
    by (simp add: move_right_eq R_def S_def)
  show ?thesis
  proof (cases R)
    case (Cons a t)
    have "move_left (P @ a # (t @ e # S)) (length P) = P @ a # (t @ e # S)"
    proof (cases P rule: rev_cases)
      case (snoc p z)
      then have "e_Score a \<le> e_Score z" using assms Cons Q by simp
      then show ?thesis using snoc by (simp add: nth_append)
    qed simp
    then have m: "move_left (move_right (P @ e # Q) (length P)) (length P) = P @ R @ e # S"
      using right Cons by simp
    have "\<forall>x \<in> set P. e_Score e \<le> e_Score x"
      using assms R Cons Q by (auto intro: order_trans less_imp_le)
    with R S assms show ?thesis unfolding m by (auto simp: Q intro: less_imp_le)
  next
    case Nil
    define A B where "A = rev (dropWhile (\<lambda>x. e_Score x < e_Score e) (rev P))"
      and "B = rev (takeWhile (\<lambda>x. e_Score x < e_Score e) (rev P))"
    have P: "P = A @ B" unfolding A_def B_def by (metis rev_append rev_rev_ident takeWhile_dropWhile_id)
    have B: "\<forall>x \<in> set B. e_Score x < e_Score e" using set_takeWhileD unfolding B_def by fastforce
    have A: "\<forall>x \<in> set A. e_Score e \<le> e_Score x"
    proof (cases A rule: rev_cases)
      case (snoc t a)
      then have d: "dropWhile (\<lambda>x. e_Score x < e_Score e) (rev P) = a # rev t"
        by (simp add: A_def rev_swap)
      then have "\<not> e_Score a < e_Score e"
        using hd_dropWhile [of "\<lambda>x. e_Score x < e_Score e" "rev P"] by simp
      then show ?thesis using assms snoc by (auto simp: P)
    qed simp
    have m: "move_left (move_right (P @ e # Q) (length P)) (length P) = A @ e # B @ S"
      using right Nil by (simp add: move_left_eq A_def B_def)
    show ?thesis unfolding m using A B S assms Nil by (auto simp: P Q intro: less_imp_le order_trans)
  qed
qed

lemma elem_position_split:
  assumes "idx \<in> e_Index ` set s"
  obtains P e Q where "s = P @ e # Q" "length P = elem_position s idx" "e_Index e = idx"
proof -
  from assms have "\<exists>P e Q. s = P @ e # Q \<and> length P = elem_position s idx \<and> e_Index e = idx"
  proof (induction s)
    case Nil
    then show ?case by simp
  next
    case (Cons a s)
    show ?case
    proof (cases "e_Index a = idx")
      case True
      then show ?thesis by (intro exI [of _ "[]"]) simp
    next
      case False
      with Cons obtain P e Q where "s = P @ e # Q" "length P = elem_position s idx" "e_Index e = idx" by auto
      then show ?thesis using False by (intro exI [of _ "a # P"]) simp
    qed
  qed
  then show ?thesis using that by blast
qed

section \<open>Counters and the pull to the middle\<close>

lemma count_simps [simp]:
  "n_low [] = 0" "n_high [] = 0"
  "n_low (e # s) = (if e_Score e < midScore then 1 else 0) + n_low s"
  "n_high (e # s) = (if e_Score e > midScore then 1 else 0) + n_high s"
  by (simp_all add: n_low_def n_high_def)

lemma count_mset: "mset s = mset t \<Longrightarrow> n_low s = n_low t \<and> n_high s = n_high t"
  unfolding n_low_def n_high_def by (metis mset_filter size_mset)

lemma scoreChanged_counts:
  "q_nLowScore (scoreChanged a b q) = q_nLowScore q - (if a < midScore then 1 else 0) + (if b < midScore then 1 else 0)"
  "q_nHighScore (scoreChanged a b q) = q_nHighScore q - (if a > midScore then 1 else 0) + (if b > midScore then 1 else 0)"
  "q_elems (scoreChanged a b q) = q_elems q" "q_recent (scoreChanged a b q) = q_recent q"
  by (auto simp: scoreChanged_def)

abbreviation "shifted offset \<equiv> map (\<lambda>e. e\<lparr>e_Score := e_Score e + offset\<rparr>)"

lemma shift_scores_result:
  "shift_scores offset s q = (s', q') \<Longrightarrow> s' = shifted offset s \<and>
     q_nLowScore q' = q_nLowScore q - n_low s + n_low s' \<and>
     q_nHighScore q' = q_nHighScore q - n_high s + n_high s' \<and> q_recent q' = q_recent q"
proof (induction s arbitrary: q s' q')
  case Nil
  then show ?case by simp
next
  case (Cons e s)
  obtain t r where t: "shift_scores offset s (scoreChanged (e_Score e) (e_Score e + offset) q) = (t, r)"
    by fastforce
  from Cons.IH [OF t] Cons.prems t show ?case by (auto simp: Let_def scoreChanged_counts)
qed

lemma desc_shifted: "desc (shifted offset s) \<longleftrightarrow> desc s"
  by (simp add: desc_def sorted_wrt_map)

lemma sum_scores_bounds:
  assumes "\<forall>e \<in> set s. a \<le> e_Score e \<and> e_Score e \<le> b"
  shows "a * int (length s) \<le> sum_list (map e_Score s) \<and> sum_list (map e_Score s) \<le> b * int (length s)"
  using assms by (induction s) (auto simp: algebra_simps)

lemma filter_all_iff: "length s \<le> length (filter P s) \<longleftrightarrow> (\<forall>e \<in> set s. P e)"
proof
  assume "length s \<le> length (filter P s)"
  then show "\<forall>e \<in> set s. P e" using length_filter_less [of _ s P] by (meson not_less)
qed simp

lemma n_low_all: "n_low s < int (length s) \<longleftrightarrow> (\<exists>e \<in> set s. midScore \<le> e_Score e)"
  using filter_all_iff [of s "\<lambda>e. e_Score e < midScore"] unfolding n_low_def by (auto simp: not_less)

lemma n_high_all: "n_high s < int (length s) \<longleftrightarrow> (\<exists>e \<in> set s. e_Score e \<le> midScore)"
  using filter_all_iff [of s "\<lambda>e. midScore < e_Score e"] unfolding n_high_def by (auto simp: not_less)

text \<open>
  The offset: when every score is on one side of the middle, adding \<open>maxScore/2\<close> minus the
  (truncated) mean keeps all scores between 0 and \<open>maxScore\<close> and puts some on either side.
\<close>

lemma mean_bounds:
  assumes "s \<noteq> []" "\<forall>e \<in> set s. 0 \<le> e_Score e"
    and m: "m = sum_list (map e_Score s) sdiv int (length s)"
  shows "(\<forall>a. (\<forall>e \<in> set s. a \<le> e_Score e) \<longrightarrow> a \<le> m) \<and> (\<forall>b. (\<forall>e \<in> set s. e_Score e \<le> b) \<longrightarrow> m \<le> b) \<and>
    (\<exists>e \<in> set s. e_Score e \<le> m) \<and> (\<exists>e \<in> set s. m \<le> e_Score e)"
proof -
  let ?t = "sum_list (map e_Score s)" and ?n = "int (length s)"
  have n: "0 < ?n" using assms(1) by simp
  have "0 \<le> ?t" using assms(2) by (intro sum_list_nonneg) auto
  then have m': "m = ?t div ?n" using n by (simp add: m signed_divide_int_def sgn_if)
  have low: "a \<le> m" if "\<forall>e \<in> set s. a \<le> e_Score e" for a
  proof -
    have "a * ?n \<le> ?t" using that by (induction s) (auto simp: algebra_simps)
    then have "a * ?n div ?n \<le> ?t div ?n" using n by (intro zdiv_mono1)
    then show ?thesis using n m' by simp
  qed
  have high: "m \<le> b" if "\<forall>e \<in> set s. e_Score e \<le> b" for b
  proof -
    have "?t \<le> b * ?n" using that by (induction s) (auto simp: algebra_simps)
    then have "?t div ?n \<le> b * ?n div ?n" using n by (intro zdiv_mono1)
    then show ?thesis using n m' by simp
  qed
  have "\<exists>e \<in> set s. e_Score e \<le> m"
  proof (rule ccontr)
    assume "\<not> ?thesis"
    then show False using low [of "m + 1"] by force
  qed
  moreover have "\<exists>e \<in> set s. m \<le> e_Score e"
  proof (rule ccontr)
    assume "\<not> ?thesis"
    then show False using high [of "m - 1"] by force
  qed
  ultimately show ?thesis using low high by blast
qed

section \<open>The queue keeps its invariant\<close>

lemma newQueue_inv: "queue_inv n (newQueue n)"
proof -
  have "n_low (map newElem [0..<n]) = 0" "n_high (map newElem [0..<n]) = 0"
    by (simp_all add: n_low_def n_high_def newElem_def filter_empty_conv)
  moreover have "desc (map newElem [0..<n])" 
    unfolding desc_def by (rule sorted_wrt_iff_nth_less [THEN iffD2]) (simp add: newElem_def)
  ultimately show ?thesis
    by (simp add: queue_inv_def newQueue_def counted_def comp_def newElem_def list_all_iff elem_ok_def)
qed

lemma queue_inv_length: "queue_inv n q \<Longrightarrow> length (q_elems q) = n"
  unfolding queue_inv_def by (metis length_map length_upt minus_nat.diff_0 size_mset)

lemma queue_inv_indices: "queue_inv n q \<Longrightarrow> e_Index ` set (q_elems q) = {0..<n}"
  unfolding queue_inv_def by (metis set_map set_mset_mset set_upt)

text \<open>The state of \<open>fix\<close> when the element has moved to its place.\<close>

definition fix_moved :: "queue \<Rightarrow> nat \<Rightarrow> elem \<Rightarrow> elem list" where
  "fix_moved q i e = move_left (move_right ((q_elems q)[i := e]) i) i"

lemma fix_moved_ok:
  assumes inv: "queue_inv n q" and idx: "idx < n" and i: "i = elem_position (q_elems q) idx"
    and e: "e_Index e = idx" "elem_ok e"
  shows "mset (map e_Index (fix_moved q i e)) = mset [0..<n] \<and> desc (fix_moved q i e) \<and>
    list_all elem_ok (fix_moved q i e) \<and>
    counted (scoreChanged (e_Score (q_elems q ! i)) (e_Score e) (q\<lparr>q_elems := s\<rparr>)) (fix_moved q i e)"
proof -
  have "idx \<in> e_Index ` set (q_elems q)" using queue_inv_indices [OF inv] idx by simp
  then obtain P e0 Q where s: "q_elems q = P @ e0 # Q" "length P = i" "e_Index e0 = idx"
    using i by (rule_tac elem_position_split) auto
  have upd: "(q_elems q)[i := e] = P @ e # Q" using s by (simp add: list_update_append)
  have d: "desc (P @ Q)" using inv by (auto simp: queue_inv_def s)
  from move_sorts [OF d, of e] have m: "desc (fix_moved q i e)" "mset (fix_moved q i e) = mset (P @ e # Q)"
    unfolding fix_moved_def upd s(2) by simp_all
  have "mset (map e_Index (fix_moved q i e)) = mset (map e_Index (q_elems q))"
    unfolding mset_map m(2) s(1) using s(3) e(1) by simp
  moreover have "list_all elem_ok (fix_moved q i e)"
    using inv e(2) m(2) unfolding list_all_iff set_mset_mset [symmetric] m(2)
    by (auto simp: queue_inv_def s list_all_iff)
  moreover have "counted (scoreChanged (e_Score (q_elems q ! i)) (e_Score e) (q\<lparr>q_elems := s\<rparr>)) (fix_moved q i e)"
  proof -
    have "n_low (fix_moved q i e) = n_low (P @ e # Q)" "n_high (fix_moved q i e) = n_high (P @ e # Q)"
      using count_mset [OF m(2)] by simp_all
    moreover have "n_low (P @ x # Q) = n_low (x # P @ Q)" "n_high (P @ x # Q) = n_high (x # P @ Q)" for x
      using count_mset [of "P @ x # Q" "x # P @ Q"] by simp_all
    moreover have "q_elems q ! i = e0" using s by auto
    ultimately show ?thesis using inv by (simp add: counted_def scoreChanged_counts queue_inv_def s)
  qed
  ultimately show ?thesis using inv m(1) by (simp add: queue_inv_def)
qed

section \<open>\<open>fix\<close> against the scores alone\<close>

text \<open>
  The abstract state: the score of every candidate. A report changes one score, then the
  scores are pulled back by their mean when all are on one side of the middle.
\<close>

definition candidate :: "elem list \<Rightarrow> nat \<Rightarrow> elem" where
  "candidate s idx = s ! elem_position s idx"

definition q_score :: "queue \<Rightarrow> nat \<Rightarrow> int" where
  "q_score q idx = e_Score (candidate (q_elems q) idx)"

definition recentre :: "nat \<Rightarrow> (nat \<Rightarrow> int) \<Rightarrow> nat \<Rightarrow> int" where
  "recentre n sc =
     (if list_all (\<lambda>j. sc j < midScore) [0..<n] \<or> list_all (\<lambda>j. sc j > midScore) [0..<n]
      then (\<lambda>j. sc j + (midScore - sum_list (map sc [0..<n]) sdiv int n)) else sc)"

definition report_elem :: "bool \<Rightarrow> elem \<Rightarrow> elem" where
  "report_elem success e = (if success then elem_succ e else elem_fail e)"

definition spec_fix :: "nat \<Rightarrow> (nat \<Rightarrow> int) \<Rightarrow> nat \<Rightarrow> int \<Rightarrow> nat \<Rightarrow> int" where
  "spec_fix n sc idx new = (if new = sc idx then sc else recentre n (sc(idx := new)))"

lemma report_elem_simps [simp]:
  "e_Index (report_elem b e) = e_Index e" "elem_ok e \<Longrightarrow> elem_ok (report_elem b e)"
  by (simp_all add: report_elem_def elem_succ_ok elem_fail_ok)

lemma candidate_eq: "distinct (map e_Index s) \<Longrightarrow> e \<in> set s \<Longrightarrow> candidate s (e_Index e) = e"
proof -
  assume d: "distinct (map e_Index s)" and e: "e \<in> set s"
  obtain P e' Q where s: "s = P @ e' # Q" "length P = elem_position s (e_Index e)" "e_Index e' = e_Index e"
    using e by (rule_tac elem_position_split [of "e_Index e" s]) auto
  have "inj_on e_Index (set s)" using d by (simp add: distinct_map)
  then have "e' = e" using s e by (auto dest: inj_onD)
  then show ?thesis using s by (metis candidate_def nth_append_length)
qed

lemma queue_inv_distinct: "mset (map e_Index s) = mset [0..<n] \<Longrightarrow> distinct (map e_Index s)"
  by (metis distinct_upt mset_eq_imp_distinct_iff)

lemma candidate_mset:
  assumes "mset (map e_Index s) = mset [0..<n]" "j < n"
  shows "candidate s j \<in> set s \<and> e_Index (candidate s j) = j"
proof -
  have "j \<in> e_Index ` set s" using assms by (metis atLeastLessThan_iff le0 set_map set_mset_mset set_upt)
  then obtain e where "e \<in> set s" "e_Index e = j" by blast
  then show ?thesis using candidate_eq [OF queue_inv_distinct [OF assms(1)]] by metis
qed

lemma scores_of_list:
  assumes "mset (map e_Index s) = mset [0..<n]"
  shows "sum_list (map e_Score s) = sum_list (map (\<lambda>j. e_Score (candidate s j)) [0..<n])"
    and "(\<exists>e \<in> set s. P (e_Score e)) \<longleftrightarrow> (\<exists>j < n. P (e_Score (candidate s j)))"
proof -
  have d: "distinct (map e_Index s)" by (rule queue_inv_distinct [OF assms])
  have "map e_Score s = map (\<lambda>j. e_Score (candidate s j)) (map e_Index s)"
    using candidate_eq [OF d] by simp
  then have "mset (map e_Score s) = mset (map (\<lambda>j. e_Score (candidate s j)) [0..<n])"
    using assms by (metis mset_map)
  then show "sum_list (map e_Score s) = sum_list (map (\<lambda>j. e_Score (candidate s j)) [0..<n])"
    by (metis sum_mset_sum_list)
  have ix: "e_Index e < n" if "e \<in> set s" for e
    using that assms by (metis atLeastLessThan_iff imageI set_map set_mset_mset set_upt)
  show "(\<exists>e \<in> set s. P (e_Score e)) \<longleftrightarrow> (\<exists>j < n. P (e_Score (candidate s j)))"
    using candidate_mset [OF assms] candidate_eq [OF d] ix by metis
qed

lemma candidate_perm:
  assumes "mset (map e_Index s) = mset [0..<n]" "mset t = mset s" "j < n"
  shows "candidate t j = candidate s j"
proof -
  have t: "mset (map e_Index t) = mset [0..<n]" using assms by simp
  have "candidate t j \<in> set s" using candidate_mset [OF t assms(3)] assms(2) by (metis set_mset_mset)
  then show ?thesis using candidate_eq [OF queue_inv_distinct [OF assms(1)]] candidate_mset [OF t assms(3)] by metis
qed

lemma elem_position_cong: "map e_Index s = map e_Index t \<Longrightarrow> elem_position s j = elem_position t j"
proof (induction s arbitrary: t)
  case (Cons a s)
  then obtain b t' where "t = b # t'" "e_Index b = e_Index a" "map e_Index s = map e_Index t'"
    by (cases t) auto
  then show ?case using Cons.IH [of t'] by simp
qed simp

lemma elem_position_less: "idx \<in> e_Index ` set s \<Longrightarrow> elem_position s idx < length s"
  by (induction s) auto

lemma candidate_map:
  assumes "mset (map e_Index s) = mset [0..<n]" "j < n" "\<And>e. e_Index (f e) = e_Index e"
  shows "candidate (map f s) j = f (candidate s j)"
proof -
  have "elem_position (map f s) j = elem_position s j" by (rule elem_position_cong) (simp add: assms(3))
  moreover have "elem_position s j < length s"
  proof -
    have "j \<in> e_Index ` set s" using candidate_mset [OF assms(1,2)] by force
    then show ?thesis by (rule elem_position_less)
  qed
  ultimately show ?thesis by (simp add: candidate_def)
qed

lemma candidate_update:
  assumes m: "mset (map e_Index s) = mset [0..<n]" and j: "j < n" "idx < n" and e: "e_Index e = idx"
  shows "candidate (s[elem_position s idx := e]) j = (if j = idx then e else candidate s j)"
    and "mset (map e_Index (s[elem_position s idx := e])) = mset [0..<n]"
proof -
  have "idx \<in> e_Index ` set s" using candidate_mset [OF m j(2)] by force
  then obtain P e0 Q where s: "s = P @ e0 # Q" "length P = elem_position s idx" "e_Index e0 = idx"
    by (rule elem_position_split)
  have u: "s[elem_position s idx := e] = P @ e # Q" 
    unfolding s(2) [symmetric] by (subst s(1)) (rule list_update_length)
  show m': "mset (map e_Index (s[elem_position s idx := e])) = mset [0..<n]"
    unfolding u using m s(1,3) e by simp
  have d: "distinct (map e_Index s)" "distinct (map e_Index (s[elem_position s idx := e]))"
    using queue_inv_distinct m m' by blast+
  show "candidate (s[elem_position s idx := e]) j = (if j = idx then e else candidate s j)"
  proof (cases "j = idx")
    case True
    then show ?thesis using candidate_eq [OF d(2), of e] e u by simp
  next
    case False
    have "candidate s j \<in> set s" "e_Index (candidate s j) = j" using candidate_mset [OF m j(1)] by auto
    moreover from this have "candidate s j \<noteq> e0" using False s by auto
    ultimately have "candidate s j \<in> set (s[elem_position s idx := e])" unfolding u using s(1) by auto
    then show ?thesis using candidate_eq [OF d(2)] \<open>e_Index (candidate s j) = j\<close> False by metis
  qed
qed

lemma q_fix_cases:
  fixes q :: queue and idx :: nat and b :: bool
  defines "i \<equiv> elem_position (q_elems q) idx"
  defines "e \<equiv> report_elem b (q_elems q ! i)"
  defines "s \<equiv> fix_moved q i e"
  defines "q1 \<equiv> scoreChanged (e_Score (q_elems q ! i)) (e_Score e) (q\<lparr>q_elems := s\<rparr>)"
  shows "q_fix q idx b =
    (if e_Score e = e_Score (q_elems q ! i) then q\<lparr>q_elems := (q_elems q)[i := e]\<rparr>
     else if q_nLowScore q1 < int (length s) \<and> q_nHighScore q1 < int (length s) then q1
     else (case shift_scores (midScore - sum_list (map e_Score s) sdiv int (length s)) s q1 of
             (s', q') \<Rightarrow> q'\<lparr>q_elems := s'\<rparr>))"
  by (simp add: q_fix_def i_def e_def s_def q1_def fix_moved_def report_elem_def Let_def)

lemma elem_unchanged: "elem_ok e \<Longrightarrow> e_Score (report_elem b e) = e_Score e \<Longrightarrow> report_elem b e = e"
proof (rule ccontr)
  assume ok: "elem_ok e" and same: "e_Score (report_elem b e) = e_Score e" and ne: "report_elem b e \<noteq> e"
  show False
  proof (cases b)
    case True
    define k where "k = (if e_N e < 0 then 0 else e_N e)"
    define n where "n = (if k < maxN then k + 1 else k)"
    have "1 \<le> n" "n \<le> maxN" using ok by (auto simp: n_def k_def elem_ok_def)
    then have f: "1 \<le> fib n" by (rule fib_pos)
    have s: "e_Score e \<noteq> maxScore" using ne True by (auto simp: report_elem_def elem_succ_def)
    then have "e_Score (report_elem b e) = min maxScore (e_Score e + fib n)"
      unfolding report_elem_def elem_succ_def Let_def k_def [symmetric] n_def [symmetric] using True by simp
    then show False using same s f ok by (simp add: elem_ok_def)
  next
    case False
    define k where "k = (if e_N e > 0 then 0 else e_N e)"
    define n where "n = (if k > - maxN then k - 1 else k)"
    have "1 \<le> - n" "- n \<le> maxN" using ok by (auto simp: n_def k_def elem_ok_def)
    then have f: "1 \<le> fib (- n)" by (rule fib_pos)
    have s: "e_Score e \<noteq> 0" using ne False by (auto simp: report_elem_def elem_fail_def)
    then have "e_Score (report_elem b e) = max 0 (e_Score e - fib (- n))"
      unfolding report_elem_def elem_fail_def Let_def k_def [symmetric] n_def [symmetric] using False by simp
    then show False using same s f ok by (simp add: elem_ok_def)
  qed
qed

text \<open>The state after \<open>fix\<close>: its invariant, and its scores.\<close>

lemma q_fix_meets:
  assumes inv: "queue_inv n q" and idx: "idx < n"
  shows "queue_inv n (q_fix q idx b) \<and>
    (\<forall>j < n. q_score (q_fix q idx b) j =
       spec_fix n (q_score q) idx (e_Score (report_elem b (candidate (q_elems q) idx))) j)"
proof -
  define i where "i = elem_position (q_elems q) idx"
  define e where "e = report_elem b (q_elems q ! i)"
  define s where "s = fix_moved q i e"
  define q1 where "q1 = scoreChanged (e_Score (q_elems q ! i)) (e_Score e) (q\<lparr>q_elems := s\<rparr>)"
  have m0: "mset (map e_Index (q_elems q)) = mset [0..<n]" using inv by (simp add: queue_inv_def)
  have cand: "candidate (q_elems q) idx = q_elems q ! i" by (simp add: candidate_def i_def)
  note c0 = candidate_mset [OF m0 idx, unfolded cand]
  have n: "0 < n" using idx by simp
  have e: "e_Index e = idx" "elem_ok e"
    using c0 inv by (auto simp: e_def queue_inv_def list_all_iff)
  have ns: "e_Score (report_elem b (candidate (q_elems q) idx)) = e_Score e" by (simp add: e_def cand)
  have sc: "q_score q idx = e_Score (q_elems q ! i)" by (simp add: q_score_def cand)
  show ?thesis
  proof (cases "e_Score e = e_Score (q_elems q ! i)")
    case True
    have "elem_ok (q_elems q ! i)" using c0 inv by (auto simp: queue_inv_def list_all_iff)
    then have "e = q_elems q ! i" using True elem_unchanged by (simp add: e_def)
    then have "q_fix q idx b = q"
      using q_fix_cases [of q idx b, folded i_def, folded e_def] True by simp
    then show ?thesis using inv True by (simp add: spec_fix_def ns sc)
  next
    case False
    from fix_moved_ok [OF inv idx i_def e, of s, folded s_def, folded q1_def]
    have ok: "mset (map e_Index s) = mset [0..<n]" "desc s" "list_all elem_ok s" "counted q1 s" by auto
    have ls: "length s = n" using ok(1) by (metis length_map length_upt minus_nat.diff_0 size_mset)
    have el: "q_elems q1 = s" by (simp add: q1_def scoreChanged_counts)
    have csc: "e_Score (candidate s j) = ((q_score q)(idx := e_Score e)) j" if j: "j < n" for j
    proof -
      note u = candidate_update [OF m0 j idx e(1), folded i_def]
      have "mset s = mset ((q_elems q)[i := e])"
      proof -
        have "idx \<in> e_Index ` set (q_elems q)" using c0 by force
        then obtain P e0 Q where s: "q_elems q = P @ e0 # Q" "length P = i"
          unfolding i_def by (rule elem_position_split)
        have d: "desc (P @ Q)" using inv by (auto simp: queue_inv_def s(1))
        have u: "(q_elems q)[i := e] = P @ e # Q"
          unfolding s(2) [symmetric] by (subst s(1)) (rule list_update_length)
        show ?thesis using move_sorts [OF d, of e] unfolding s_def fix_moved_def u s(2) by blast
      qed
      from candidate_perm [OF u(2) this j] u(1) show ?thesis by (simp add: q_score_def)
    qed
    note L = scores_of_list [OF ok(1)]
    have mean: "sum_list (map e_Score s) = sum_list (map ((q_score q)(idx := e_Score e)) [0..<n])"
      unfolding L(1) using csc by (intro arg_cong [of _ _ sum_list] map_cong refl) simp
    have low: "n_low s < int n \<longleftrightarrow> \<not> list_all (\<lambda>j. ((q_score q)(idx := e_Score e)) j < midScore) [0..<n]"
    proof -
      have "n_low s < int n \<longleftrightarrow> (\<exists>j < n. midScore \<le> e_Score (candidate s j))"
        using n_low_all [of s] L(2) [of "\<lambda>x. midScore \<le> x"] ls by simp
      also have "\<dots> \<longleftrightarrow> (\<exists>j < n. midScore \<le> ((q_score q)(idx := e_Score e)) j)" using csc by metis
      also have "\<dots> \<longleftrightarrow> \<not> list_all (\<lambda>j. ((q_score q)(idx := e_Score e)) j < midScore) [0..<n]"
        unfolding list_all_iff by (metis atLeastLessThan_iff le0 not_less set_upt)
      finally show ?thesis .
    qed
    have high: "n_high s < int n \<longleftrightarrow> \<not> list_all (\<lambda>j. ((q_score q)(idx := e_Score e)) j > midScore) [0..<n]"
    proof -
      have "n_high s < int n \<longleftrightarrow> (\<exists>j < n. e_Score (candidate s j) \<le> midScore)"
        using n_high_all [of s] L(2) [of "\<lambda>x. x \<le> midScore"] ls by simp
      also have "\<dots> \<longleftrightarrow> (\<exists>j < n. ((q_score q)(idx := e_Score e)) j \<le> midScore)" using csc by metis
      also have "\<dots> \<longleftrightarrow> \<not> list_all (\<lambda>j. ((q_score q)(idx := e_Score e)) j > midScore) [0..<n]"
        unfolding list_all_iff by (metis atLeastLessThan_iff le0 not_less set_upt)
      finally show ?thesis .
    qed
    note cases = q_fix_cases [of q idx b, folded i_def, folded e_def, folded s_def, folded q1_def]
    show ?thesis
    proof (cases "n_low s < int n \<and> n_high s < int n")
      case True
      then have "q_fix q idx b = q1" using cases False ok(4) ls by (simp add: counted_def)
      moreover have "queue_inv n q1" using ok True el by (simp add: queue_inv_def)
      moreover have "spec_fix n (q_score q) idx (e_Score e) = (q_score q)(idx := e_Score e)"
        using True low high False sc by (simp add: spec_fix_def recentre_def)
      ultimately show ?thesis using csc el ns by (simp add: q_score_def)
    next
      case out: False
      define m where "m = sum_list (map e_Score s) sdiv int (length s)"
      obtain s' q' where sh: "shift_scores (midScore - m) s q1 = (s', q')" by fastforce
      from shift_scores_result [OF sh] have s': "s' = shifted (midScore - m) s"
        "counted (q'\<lparr>q_elems := s'\<rparr>) s'" using ok(4) by (auto simp: counted_def)
      have r: "q_fix q idx b = q'\<lparr>q_elems := s'\<rparr>"
        using cases False out ok(4) ls sh by (auto simp: counted_def m_def)
      have ne: "s \<noteq> []" using ls n by auto
      have pos: "\<forall>x \<in> set s. 0 \<le> e_Score x" using ok(3) by (auto simp: list_all_iff elem_ok_def)
      note mb = mean_bounds [OF ne pos m_def]
      have one_side: "(\<forall>x \<in> set s. e_Score x \<le> 31) \<or> (\<forall>x \<in> set s. 33 \<le> e_Score x)"
      proof -
        have "(\<forall>x \<in> set s. e_Score x < 32) \<or> (\<forall>x \<in> set s. 32 < e_Score x)"
          using out unfolding ls [symmetric] n_low_all n_high_all by (auto simp: not_le)
        then show ?thesis by force
      qed
      have le64: "\<forall>x \<in> set s. e_Score x \<le> 64" using ok(3) by (auto simp: list_all_iff elem_ok_def)
      have rng: "0 \<le> e_Score x + (32 - m) \<and> e_Score x + (32 - m) \<le> 64" if x: "x \<in> set s" for x
        using one_side
      proof
        assume a: "\<forall>x \<in> set s. e_Score x \<le> 31"
        then have "m \<le> 31" "0 \<le> m" using mb pos by auto
        then show ?thesis using a x pos by force
      next
        assume a: "\<forall>x \<in> set s. 33 \<le> e_Score x"
        then have "33 \<le> m" "m \<le> 64" using mb le64 by auto
        then show ?thesis using a x le64 by force
      qed
      have "list_all elem_ok s'" using ok(3) rng by (auto simp: s'(1) list_all_iff elem_ok_def)
      moreover have "mset (map e_Index s') = mset [0..<n]" using ok(1) by (simp add: s'(1) comp_def)
      moreover have "desc s'" using ok(2) by (simp add: s'(1) desc_shifted)
      moreover have "n_low s' < int n" "n_high s' < int n"
      proof -
        have "length s' = n" using ls s'(1) by simp
        moreover have "\<exists>x \<in> set s'. midScore \<le> e_Score x" "\<exists>x \<in> set s'. e_Score x \<le> midScore"
          using mb by (auto simp: s'(1))
        ultimately show "n_low s' < int n" "n_high s' < int n" using n_low_all n_high_all by metis+
      qed
      ultimately have "queue_inv n (q_fix q idx b)" using s'(2) by (simp add: r queue_inv_def)
      moreover have "q_score (q_fix q idx b) j = spec_fix n (q_score q) idx (e_Score e) j" if j: "j < n" for j
      proof -
        have "spec_fix n (q_score q) idx (e_Score e) = recentre n ((q_score q)(idx := e_Score e))"
          using False sc by (simp add: spec_fix_def)
        moreover have "list_all (\<lambda>j. ((q_score q)(idx := e_Score e)) j < midScore) [0..<n] \<or>
            list_all (\<lambda>j. ((q_score q)(idx := e_Score e)) j > midScore) [0..<n]"
          using out low high by blast
        ultimately have "spec_fix n (q_score q) idx (e_Score e) j
            = ((q_score q)(idx := e_Score e)) j + (midScore - m)"
          unfolding m_def ls mean recentre_def by (simp only: if_True)
        moreover have "q_score (q_fix q idx b) j = e_Score (candidate s j) + (midScore - m)"
          unfolding q_score_def r s'(1) by (simp add: candidate_map [OF ok(1) j])
        ultimately show ?thesis using csc [OF j] by simp
      qed
      ultimately show ?thesis using ns by simp
    qed
  qed
qed

section \<open>Picking\<close>

text \<open>The documented behaviour of \<open>rand.IntN\<close>.\<close>

definition rand_ok :: "(nat \<Rightarrow> nat) \<Rightarrow> bool" where
  "rand_ok IntN \<longleftrightarrow> (\<forall>n > 0. IntN n < n)"

definition best_count :: "elem list \<Rightarrow> nat" where
  "best_count s = sort_Search (length (tl s)) (\<lambda>i. e_Score (s ! (i + 1)) < e_Score (s ! 0)) + 1"

lemma best_count_iff:
  assumes "desc s" "s \<noteq> []"
  shows "0 < best_count s \<and> best_count s \<le> length s \<and>
    (\<forall>k < length s. k < best_count s \<longleftrightarrow> e_Score (s ! k) = e_Score (s ! 0))"
proof -
  let ?f = "\<lambda>i. e_Score (s ! (i + 1)) < e_Score (s ! 0)"
  have mono: "e_Score (s ! l) \<le> e_Score (s ! k)" if "k \<le> l" "l < length s" for k l
    using assms(1) that sorted_wrt_nth_less [of _ s k l] by (cases "k = l") (auto simp: desc_def)
  have "monotone_below (length (tl s)) ?f"
    unfolding monotone_below_def
  proof (intro allI impI)
    fix x y assume "x \<le> y" "y < length (tl s)" "?f x"
    moreover from this have "e_Score (s ! (y + 1)) \<le> e_Score (s ! (x + 1))" by (intro mono) simp_all
    ultimately show "?f y" by simp
  qed
  note b = sort_Search_boundary [OF this]
  have len: "length (tl s) + 1 = length s" using assms(2) by simp
  have "k < best_count s \<longleftrightarrow> e_Score (s ! k) = e_Score (s ! 0)" if k: "k < length s" for k
  proof (cases k)
    case 0
    then show ?thesis by (simp add: best_count_def)
  next
    case (Suc i)
    have "?f i \<longleftrightarrow> sort_Search (length (tl s)) ?f \<le> i" using b(2) [of i] Suc k len by simp
    moreover have "e_Score (s ! k) \<le> e_Score (s ! 0)" using mono [of 0 k] k by simp
    ultimately show ?thesis using Suc by (auto simp: best_count_def)
  qed
  then show ?thesis using b(1) len by (auto simp: best_count_def)
qed

lemma q_pick_eq:
  "q_pick IntN q = (let e = q_elems q ! IntN (best_count (q_elems q))
    in (e_Index e, q_recent q = Some (e_Index e), q\<lparr>q_recent := Some (e_Index e)\<rparr>))"
  by (simp add: q_pick_def best_count_def Let_def)

lemma score_of_member:
  "queue_inv n q \<Longrightarrow> e \<in> set (q_elems q) \<Longrightarrow> e_Index e < n \<and> q_score q (e_Index e) = e_Score e"
  using candidate_eq [OF queue_inv_distinct] queue_inv_indices [of n q]
  unfolding queue_inv_def q_score_def by fastforce

lemma queue_inv_recent [simp]: "queue_inv n (q\<lparr>q_recent := r\<rparr>) = queue_inv n q"
  by (simp add: queue_inv_def counted_def)

lemma q_score_recent [simp]: "q_score (q\<lparr>q_recent := r\<rparr>) = q_score q"
  by (simp add: q_score_def fun_eq_iff)

lemma best_members:
  assumes inv: "queue_inv n q" and k: "k < best_count (q_elems q)" and n: "0 < n"
  shows "q_elems q ! k \<in> set (q_elems q)" "\<forall>j < n. q_score q j \<le> e_Score (q_elems q ! k)"
proof -
  let ?s = "q_elems q"
  have len: "length ?s = n" by (rule queue_inv_length [OF inv])
  have d: "desc ?s" using inv by (simp add: queue_inv_def)
  have ne: "?s \<noteq> []" using len n by auto
  note B = best_count_iff [OF d ne]
  have k': "k < length ?s" using B k by linarith
  then show "?s ! k \<in> set ?s" by simp
  have top: "e_Score (?s ! l) \<le> e_Score (?s ! 0)" if "l < length ?s" for l
    using d that sorted_wrt_nth_less [of _ ?s 0 l] by (cases l) (auto simp: desc_def)
  show "\<forall>j < n. q_score q j \<le> e_Score (?s ! k)"
  proof (intro allI impI)
    fix j assume j: "j < n"
    have "mset (map e_Index ?s) = mset [0..<n]" using inv by (simp add: queue_inv_def)
    from candidate_mset [OF this j] obtain l where "l < length ?s" "?s ! l = candidate ?s j"
      by (metis in_set_conv_nth)
    then show "q_score q j \<le> e_Score (?s ! k)" using top [of l] B k k' by (simp add: q_score_def)
  qed
qed

section \<open>Properties\<close>

text \<open>
  C4. A report of a success or a failure keeps the queue in order: every candidate once, best
  scores first, scores within 0 and 64, counters exact, never all scores on one side of
  the middle.
\<close>
theorem queue_invariant:
  assumes "queue_inv n q" and "idx < n"
  shows "queue_inv n (q_succ q idx) \<and> queue_inv n (q_fail q idx) \<and> queue_inv n (newQueue n)"
  using q_fix_meets [OF assms] newQueue_inv by (simp add: q_succ_def q_fail_def)

lemma queue_invariant_witness: "queue_inv 3 (q_fail (newQueue 3) 1)"
  using queue_invariant [of 3 "newQueue 3" 1] newQueue_inv by simp

text \<open>
  C3. A report refines the update of one score in the map from candidates to scores, followed by
  the pull to the middle when all scores are on one side.
\<close>
theorem fix_refines_scores:
  assumes "queue_inv n q" and "idx < n" and "j < n"
  shows "q_score (q_fix q idx b) j =
    spec_fix n (q_score q) idx (e_Score (report_elem b (candidate (q_elems q) idx))) j"
  using q_fix_meets [OF assms(1,2)] assms(3) by blast

lemma fix_refines_scores_witness:
  "q_score (q_fix (newQueue 2) 0 True) 0 =
    spec_fix 2 (q_score (newQueue 2)) 0 (e_Score (report_elem True (candidate (q_elems (newQueue 2)) 0))) 0"
  by (rule fix_refines_scores [OF newQueue_inv]) simp_all

text \<open>The picked candidate has the best score, whatever the random choice.\<close>
theorem pick_best:
  assumes "queue_inv n q" and "0 < n" and "rand_ok IntN" and "q_pick IntN q = (idx, sameold, q')"
  shows "idx < n \<and> (\<forall>j < n. q_score q j \<le> q_score q idx) \<and> queue_inv n q' \<and>
    (sameold \<longleftrightarrow> q_recent q = Some idx) \<and> q_recent q' = Some idx"
proof -
  let ?k = "IntN (best_count (q_elems q))"
  have k: "?k < best_count (q_elems q)" using assms(3) by (simp add: rand_ok_def best_count_def)
  note m = best_members [OF assms(1) k assms(2)]
  from score_of_member [OF assms(1) m(1)] m(2) show ?thesis
    using assms(1,4) unfolding q_pick_eq Let_def by auto
qed

lemma pick_best_witness:
  "case q_pick (\<lambda>n. 0) (q_fail (newQueue 2) 0) of (idx, sameold, q') \<Rightarrow> queue_inv 2 q' \<and> idx < 2"
proof -
  obtain idx sameold q' where p: "q_pick (\<lambda>n. 0) (q_fail (newQueue 2) 0) = (idx, sameold, q')"
    by (metis prod_cases3)
  have "queue_inv 2 (q_fail (newQueue 2) 0)"
    using q_fix_meets [OF newQueue_inv, of 0 2 False] by (simp add: q_fail_def)
  from pick_best [OF this _ _ p] p show ?thesis by (simp add: rand_ok_def)
qed

text \<open>Every candidate with the best score can be the picked one.\<close>
theorem pick_any_best:
  assumes "queue_inv n q" and "idx < n" and "\<forall>j < n. q_score q j \<le> q_score q idx"
  shows "\<exists>IntN. rand_ok IntN \<and> fst (q_pick IntN q) = idx"
proof -
  let ?s = "q_elems q"
  have inv: "mset (map e_Index ?s) = mset [0..<n]" "desc ?s" using assms(1) by (simp_all add: queue_inv_def)
  have len: "length ?s = n" by (rule queue_inv_length [OF assms(1)])
  then have ne: "?s \<noteq> []" using assms(2) by auto
  obtain k where k: "k < length ?s" "?s ! k = candidate ?s idx"
    using candidate_mset [OF inv(1) assms(2)] by (metis in_set_conv_nth)
  have "e_Score (?s ! 0) \<le> e_Score (?s ! k)"
  proof -
    have "?s ! 0 \<in> set ?s" using ne by simp
    from score_of_member [OF assms(1) this] have "e_Score (?s ! 0) \<le> q_score q idx" using assms(3) by metis
    then show ?thesis using k(2) by (simp add: q_score_def)
  qed
  moreover have "e_Score (?s ! k) \<le> e_Score (?s ! 0)"
    using inv(2) k(1) sorted_wrt_nth_less [of _ ?s 0 k] by (cases k) (auto simp: desc_def)
  ultimately have b: "k < best_count ?s" using best_count_iff [OF inv(2) ne] k(1) by simp
  let ?r = "\<lambda>m. if m = best_count ?s then k else 0"
  have "rand_ok ?r" using b by (simp add: rand_ok_def)
  moreover have "fst (q_pick ?r q) = idx"
    using k(2) candidate_mset [OF inv(1) assms(2)] by (simp add: q_pick_eq Let_def)
  ultimately show ?thesis by blast
qed

lemma pick_any_best_witness: "\<exists>IntN. rand_ok IntN \<and> fst (q_pick IntN (newQueue 3)) = 2"
proof (rule pick_any_best [OF newQueue_inv])
  show "\<forall>j < 3. q_score (newQueue 3) j \<le> q_score (newQueue 3) 2"
    by (auto simp: q_score_def candidate_def newQueue_def newElem_def eval_nat_numeral less_Suc_eq)
qed simp

end
