(* ===== verification/Balancers.thy ===== *)
theory Balancers
  imports Failover "HOL-Library.Word"
begin

text \<open>
  The three balancers of \<open>service/socks/balancer\<close> as their \<open>getRemote\<close> and \<open>LoadEvent\<close> code
  uses them: \<open>failover\<close> (over the queue of theory Failover, with the connections that report
  to it), \<open>roundrobin\<close> (an index shared by all connections and advanced by compare-and-swap)
  and \<open>random\<close>. They share the interface \<open>balancer\<close>: an index that is always in range. Dialing
  a candidate and \<open>Proxy.Equal\<close> are parameters; \<open>Inl\<close> of a result is an error.
\<close>

datatype 'e remote_error = CloseConn | DialError 'e

section \<open>The interface\<close>

locale balancer =
  fixes inv :: "nat \<Rightarrow> 's \<Rightarrow> bool" and good :: "'r \<Rightarrow> bool" and pick :: "'r \<Rightarrow> 's \<Rightarrow> nat \<times> 's"
  assumes pick_in_range: "inv n s \<Longrightarrow> 0 < n \<Longrightarrow> good r \<Longrightarrow> fst (pick r s) < n"
    and pick_inv: "inv n s \<Longrightarrow> 0 < n \<Longrightarrow> good r \<Longrightarrow> inv n (snd (pick r s))"
begin

fun choices :: "'r list \<Rightarrow> 's \<Rightarrow> nat list" where
  "choices [] s = []"
| "choices (r # rs) s = fst (pick r s) # choices rs (snd (pick r s))"

lemma choices_in_range: "inv n s \<Longrightarrow> 0 < n \<Longrightarrow> list_all good rs \<Longrightarrow> list_all (\<lambda>i. i < n) (choices rs s)"
  by (induction rs arbitrary: s) (simp_all add: pick_in_range pick_inv)

end

section \<open>\<open>random\<close>\<close>

definition random_getRemote ::
  "(nat \<Rightarrow> nat) \<Rightarrow> ('p \<Rightarrow> string \<Rightarrow> 'e + 'c) \<Rightarrow> 'p list \<Rightarrow> string \<Rightarrow> 'e remote_error + 'c" where
  "random_getRemote IntN dial candidates remoteAddr =
     (let n = length candidates
      in if n = 0 then Inl CloseConn
         else (case dial (candidates ! IntN n) remoteAddr of
                 Inl err \<Rightarrow> Inl (DialError err) | Inr c \<Rightarrow> Inr c))"

definition random_choose :: "(nat \<Rightarrow> nat) \<Rightarrow> nat \<Rightarrow> nat \<times> nat" where
  "random_choose IntN n = (IntN n, n)"

interpretation rnd: balancer "\<lambda>n s. s = n" rand_ok random_choose
  by unfold_locales (simp_all add: random_choose_def rand_ok_def)

section \<open>\<open>failover\<close>\<close>

text \<open>Options with the queue (a pointer, \<open>nil\<close> when there are no candidates).\<close>

record 'p fo_options =
  fo_ListenAddr :: string
  fo_Candidates :: "'p list"
  fo_queue :: "queue option"

text \<open>The handler's part of \<open>LoadEvent\<close>: \<open>slices.EqualFunc\<close> compares lengths, then elements.\<close>

definition fo_load :: "('p \<Rightarrow> 'p \<Rightarrow> bool) \<Rightarrow> 'p fo_options \<Rightarrow> 'p fo_options \<Rightarrow> 'p fo_options" where
  "fo_load equal new old =
     (let n = length (fo_Candidates new)
      in if n \<noteq> 0
         then (if list_all2 equal (fo_Candidates new) (fo_Candidates old)
               then new\<lparr>fo_queue := fo_queue old\<rparr>
               else new\<lparr>fo_queue := Some (newQueue n)\<rparr>)
         else new)"

text \<open>\<open>getRemote\<close>; the result's index is the \<open>e\<close> that \<open>newConn\<close> stores, the options hold the new queue.\<close>

definition fo_getRemote ::
  "(nat \<Rightarrow> nat) \<Rightarrow> ('p \<Rightarrow> string \<Rightarrow> 'e + 'c) \<Rightarrow> 'p fo_options \<Rightarrow> string
     \<Rightarrow> ('e remote_error + 'c \<times> nat) \<times> 'p fo_options" where
  "fo_getRemote IntN dial opts remoteAddr =
     (case fo_queue opts of
        None \<Rightarrow> (Inl CloseConn, opts)
      | Some q \<Rightarrow>
          (case q_pick IntN q of (idx, sameold, q1) \<Rightarrow>
             (case dial (fo_Candidates opts ! idx) remoteAddr of
                Inl err \<Rightarrow> (Inl (DialError err), opts\<lparr>fo_queue := Some (q_fail q1 idx)\<rparr>)
              | Inr c \<Rightarrow> (Inr (c, idx), opts\<lparr>fo_queue := Some q1\<rparr>))))"

definition fo_choose :: "(nat \<Rightarrow> nat) \<Rightarrow> queue \<Rightarrow> nat \<times> queue" where
  "fo_choose IntN q = (case q_pick IntN q of (idx, sameold, q1) \<Rightarrow> (idx, q1))"

lemma q_pick_keeps:
  assumes "queue_inv n q" "0 < n" "rand_ok IntN"
  shows "fst (q_pick IntN q) < n \<and> queue_inv n (snd (snd (q_pick IntN q)))"
proof -
  have "IntN (best_count (q_elems q)) < best_count (q_elems q)"
    using assms(3) by (simp add: rand_ok_def best_count_def)
  from score_of_member [OF assms(1) best_members(1) [OF assms(1) this assms(2)]] assms(1)
  show ?thesis by (simp add: q_pick_eq Let_def)
qed

interpretation fo: balancer queue_inv rand_ok fo_choose
  by unfold_locales (use q_pick_keeps in \<open>force simp: fo_choose_def split: prod.splits\<close>)+

subsection \<open>The connections\<close>

record fo_conn =
  c_success :: bool
  c_failure :: bool
  c_readfailed :: bool

definition newConn :: fo_conn where
  "newConn = \<lparr>c_success = False, c_failure = False, c_readfailed = False\<rparr>"

datatype conn_call = Read nat bool | Close   \<comment> \<open>bytes read and whether \<open>err != nil\<close>\<close>

definition conn_Read :: "nat \<Rightarrow> bool \<Rightarrow> fo_conn \<Rightarrow> fo_conn \<times> bool list" where
  "conn_Read n err c =
     (let (c, reports) = (if n > 0 \<and> \<not> c_success c then (c\<lparr>c_success := True\<rparr>, [True]) else (c, []));
          c = (if err then c\<lparr>c_readfailed := True\<rparr> else c)
      in (c, reports))"

definition conn_Close :: "fo_conn \<Rightarrow> fo_conn \<times> bool list" where
  "conn_Close c =
     (if \<not> c_success c \<and> \<not> c_failure c \<and> c_readfailed c then (c\<lparr>c_failure := True\<rparr>, [False]) else (c, []))"

text \<open>The reports a connection makes: \<open>True\<close> is \<open>q.succ(e)\<close>, \<open>False\<close> is \<open>q.fail(e)\<close>.\<close>

fun conn_run :: "conn_call list \<Rightarrow> fo_conn \<Rightarrow> fo_conn \<times> bool list" where
  "conn_run [] c = (c, [])"
| "conn_run (call # calls) c =
     (case (case call of Read n err \<Rightarrow> conn_Read n err c | Close \<Rightarrow> conn_Close c) of
        (c1, r1) \<Rightarrow> (case conn_run calls c1 of (c2, r2) \<Rightarrow> (c2, r1 @ r2)))"

definition conn_reports :: "conn_call list \<Rightarrow> bool list" where
  "conn_reports calls = snd (conn_run calls newConn)"

fun apply_reports :: "nat \<Rightarrow> bool list \<Rightarrow> queue \<Rightarrow> queue" where
  "apply_reports idx [] q = q"
| "apply_reports idx (b # bs) q = apply_reports idx bs (if b then q_succ q idx else q_fail q idx)"

section \<open>\<open>roundrobin\<close>\<close>

text \<open>
  \<open>index\<close> points to a counter: \<open>rr_heap\<close> holds the counters of all options, the \<open>index\<close> of the
  options and the two captured variables of \<open>getRemote\<close> are addresses and a value of it.
\<close>

record 'p rr_options =
  rr_ListenAddr :: string
  rr_Candidates :: "'p list"
  rr_index :: "nat option"

record rr_conn =
  rc_index :: "nat option"
  rc_indexLoaded :: "32 word"

definition rr_load ::
  "('p \<Rightarrow> 'p \<Rightarrow> bool) \<Rightarrow> (nat \<Rightarrow> nat) \<Rightarrow> nat \<Rightarrow> (nat \<rightharpoonup> 32 word) \<Rightarrow> 'p rr_options \<Rightarrow> 'p rr_options
     \<Rightarrow> 'p rr_options \<times> (nat \<rightharpoonup> 32 word)" where
  "rr_load equal IntN fresh heap new old =
     (let n = length (rr_Candidates new)
      in if n \<noteq> 0
         then (if list_all2 equal (rr_Candidates new) (rr_Candidates old)
               then (new\<lparr>rr_index := rr_index old\<rparr>, heap)
               else (new\<lparr>rr_index := Some fresh\<rparr>, heap(fresh \<mapsto> of_nat (IntN n))))
         else (new, heap))"

text \<open>The compare-and-swap loop, run without interference, takes one round.\<close>

definition rr_advance :: "nat \<Rightarrow> 32 word \<Rightarrow> 32 word \<times> 32 word" where
  "rr_advance n i = (i, (i + 1) mod of_nat n)"

definition rr_getRemote ::
  "('p \<Rightarrow> string \<Rightarrow> 'e + 'c) \<Rightarrow> 'p rr_options \<Rightarrow> string \<Rightarrow> (nat \<rightharpoonup> 32 word) \<Rightarrow> rr_conn
     \<Rightarrow> ('e remote_error + 'c) option \<times> (nat \<rightharpoonup> 32 word) \<times> rr_conn" where
  "rr_getRemote dial opts remoteAddr heap rc =
     (let n = length (rr_Candidates opts)
      in if n = 0 then (Some (Inl CloseConn), heap, rc)
         else
           let result = (if rc_index rc = None \<or> rc_index rc \<noteq> rr_index opts
             then (case rr_index opts of
                     None \<Rightarrow> None   \<comment> \<open>\<open>index.Load()\<close> on \<open>nil\<close> panics\<close>
                   | Some p \<Rightarrow>
                       (case heap p of None \<Rightarrow> None
                        | Some i \<Rightarrow> (case rr_advance n i of (loaded, i') \<Rightarrow>
                            Some (heap(p \<mapsto> i'), \<lparr>rc_index = Some p, rc_indexLoaded = loaded\<rparr>))))
             else Some (heap, rc\<lparr>rc_indexLoaded := (rc_indexLoaded rc + 1) mod of_nat n\<rparr>))
           in (case result of
                 None \<Rightarrow> (None, heap, rc)
               | Some (heap', rc') \<Rightarrow>
                   if unat (rc_indexLoaded rc') \<ge> n then (None, heap', rc')   \<comment> \<open>index out of range\<close>
                   else (case dial (rr_Candidates opts ! unat (rc_indexLoaded rc')) remoteAddr of
                           Inl err \<Rightarrow> (Some (Inl (DialError err)), heap', rc')
                         | Inr c \<Rightarrow> (Some (Inr c), heap', rc'))))"

text \<open>\<open>None\<close> of the first component is a panic; \<open>rr_inv\<close> rules it out.\<close>

definition rr_heap_ok :: "(nat \<rightharpoonup> nat) \<Rightarrow> (nat \<rightharpoonup> 32 word) \<Rightarrow> bool" where
  "rr_heap_ok sizes heap \<longleftrightarrow> dom sizes = dom heap \<and>
     (\<forall>p i n. heap p = Some i \<longrightarrow> sizes p = Some n \<longrightarrow> unat i < n \<and> n < 2 ^ 32)"

definition rr_opts_ok :: "(nat \<rightharpoonup> nat) \<Rightarrow> 'p rr_options \<Rightarrow> bool" where
  "rr_opts_ok sizes opts \<longleftrightarrow>
     (case rr_index opts of
        None \<Rightarrow> rr_Candidates opts = []
      | Some p \<Rightarrow> sizes p = Some (length (rr_Candidates opts)) \<and> rr_Candidates opts \<noteq> [])"

definition rr_conn_ok :: "(nat \<rightharpoonup> nat) \<Rightarrow> rr_conn \<Rightarrow> bool" where
  "rr_conn_ok sizes rc \<longleftrightarrow>
     (\<forall>p. rc_index rc = Some p \<longrightarrow> (\<exists>n. sizes p = Some n \<and> unat (rc_indexLoaded rc) < n))"

section \<open>Invariants of the options\<close>

definition fo_ok :: "'p fo_options \<Rightarrow> bool" where
  "fo_ok opts \<longleftrightarrow>
     (case fo_queue opts of
        None \<Rightarrow> fo_Candidates opts = []
      | Some q \<Rightarrow> fo_Candidates opts \<noteq> [] \<and> queue_inv (length (fo_Candidates opts)) q)"

lemma fo_load_ok:
  assumes "fo_ok old" "fo_queue new = None"
  shows "fo_ok (fo_load equal new old)"
proof (cases "fo_Candidates new = []")
  case True
  then show ?thesis using assms(2) by (simp add: fo_load_def fo_ok_def)
next
  case ne: False
  show ?thesis
  proof (cases "list_all2 equal (fo_Candidates new) (fo_Candidates old)")
    case True
    then have "length (fo_Candidates new) = length (fo_Candidates old)" by (rule list_all2_lengthD)
    then show ?thesis using True ne assms(1)
      by (auto simp: fo_load_def fo_ok_def Let_def split: option.splits)
  next
    case False
    then show ?thesis using ne newQueue_inv by (simp add: fo_load_def fo_ok_def)
  qed
qed

lemma fo_getRemote_ok:
  assumes "fo_ok opts" "rand_ok IntN" "fo_getRemote IntN dial opts addr = (r, opts')"
  shows "fo_ok opts' \<and> fo_Candidates opts' = fo_Candidates opts \<and>
    (r = Inl CloseConn \<longleftrightarrow> fo_Candidates opts = []) \<and>
    (fo_Candidates opts \<noteq> [] \<longrightarrow> (\<exists>q idx. fo_queue opts = Some q \<and> idx < length (fo_Candidates opts) \<and>
       (\<forall>j < length (fo_Candidates opts). q_score q j \<le> q_score q idx) \<and>
       (case dial (fo_Candidates opts ! idx) addr of
          Inl err \<Rightarrow> r = Inl (DialError err) \<and>
            fo_queue opts' = Some (q_fail (q\<lparr>q_recent := Some idx\<rparr>) idx)
        | Inr c \<Rightarrow> r = Inr (c, idx) \<and> fo_queue opts' = Some (q\<lparr>q_recent := Some idx\<rparr>))))"
proof (cases "fo_queue opts")
  case None
  then show ?thesis using assms by (auto simp: fo_getRemote_def fo_ok_def)
next
  case (Some q)
  let ?n = "length (fo_Candidates opts)"
  have inv: "queue_inv ?n q" and n: "0 < ?n" using assms(1) Some by (auto simp: fo_ok_def)
  obtain idx same q1 where p: "q_pick IntN q = (idx, same, q1)" by (metis prod_cases3)
  let ?k = "IntN (best_count (q_elems q))"
  have k: "?k < best_count (q_elems q)" using assms(2) by (simp add: rand_ok_def best_count_def)
  note m = best_members [OF inv k n]
  have q1: "q1 = q\<lparr>q_recent := Some idx\<rparr>" and idx: "idx = e_Index (q_elems q ! ?k)"
    using p by (auto simp: q_pick_eq Let_def)
  have best: "idx < ?n" "\<forall>j < ?n. q_score q j \<le> q_score q idx"
    using score_of_member [OF inv m(1)] m(2) unfolding idx by auto
  have inv1: "queue_inv ?n q1" using inv by (simp add: q1)
  have inv2: "queue_inv ?n (q_fail q1 idx)" using q_fix_meets [OF inv1 best(1)] by (simp add: q_fail_def)
  show ?thesis
  proof (cases "dial (fo_Candidates opts ! idx) addr")
    case (Inl err)
    then have "r = Inl (DialError err)" "opts' = opts\<lparr>fo_queue := Some (q_fail q1 idx)\<rparr>"
      using assms(3) Some p by (simp_all add: fo_getRemote_def)
    then show ?thesis using Inl best n inv2 Some q1 by (auto simp: fo_ok_def)
  next
    case (Inr c)
    then have "r = Inr (c, idx)" "opts' = opts\<lparr>fo_queue := Some q1\<rparr>"
      using assms(3) Some p by (simp_all add: fo_getRemote_def)
    then show ?thesis using Inr best n inv1 Some q1 by (auto simp: fo_ok_def)
  qed
qed

section \<open>What a connection reports\<close>

text \<open>Once data was read nothing more is reported; before that, at most one failure.\<close>

lemma conn_run_success: "c_success c \<Longrightarrow> snd (conn_run calls c) = []"
proof (induction calls arbitrary: c)
  case (Cons call calls)
  show ?case
  proof (cases call)
    case (Read n err)
    then show ?thesis using Cons by (cases err) (auto simp: conn_Read_def split: prod.splits)
  next
    case Close
    then show ?thesis using Cons by (auto simp: conn_Close_def split: prod.splits)
  qed
qed simp

lemma conn_run_failure: "c_failure c \<Longrightarrow> snd (conn_run calls c) = [] \<or> snd (conn_run calls c) = [True]"
proof (induction calls arbitrary: c)
  case (Cons call calls)
  show ?case
  proof (cases call)
    case (Read n err)
    show ?thesis
    proof (cases "n > 0 \<and> \<not> c_success c")
      case True
      define c1 where "c1 = fst (conn_Read n err c)"
      have "c_success c1" "conn_Read n err c = (c1, [True])"
        using True by (auto simp: c1_def conn_Read_def Let_def)
      then show ?thesis using conn_run_success [of c1 calls] Read by (auto split: prod.splits)
    next
      case False
      define c1 where "c1 = fst (conn_Read n err c)"
      have "c_failure c1" "conn_Read n err c = (c1, [])"
        using False Cons.prems by (auto simp: c1_def conn_Read_def Let_def)
      then show ?thesis using Cons.IH [of c1] Read by (auto split: prod.splits)
    qed
  next
    case Close
    then show ?thesis using Cons by (auto simp: conn_Close_def split: prod.splits)
  qed
qed simp

lemma conn_run_reports:
  "snd (conn_run calls c) \<in> {[], [True], [False], [False, True]}"
proof (induction calls arbitrary: c)
  case (Cons call calls)
  show ?case
  proof (cases call)
    case (Read n err)
    show ?thesis
    proof (cases "n > 0 \<and> \<not> c_success c")
      case True
      define c1 where "c1 = fst (conn_Read n err c)"
      have "c_success c1" "conn_Read n err c = (c1, [True])"
        using True by (auto simp: c1_def conn_Read_def Let_def)
      then show ?thesis using conn_run_success [of c1 calls] Read by (auto split: prod.splits)
    next
      case False
      then have "snd (conn_Read n err c) = []" by (auto simp: conn_Read_def Let_def)
      then show ?thesis using Cons.IH [of "fst (conn_Read n err c)"] Read by (auto split: prod.splits)
    qed
  next
    case Close
    show ?thesis
    proof (cases "\<not> c_success c \<and> \<not> c_failure c \<and> c_readfailed c")
      case True
      then show ?thesis using conn_run_failure [of "c\<lparr>c_failure := True\<rparr>" calls] Close
        by (auto simp: conn_Close_def split: prod.splits)
    next
      case False
      then show ?thesis using Cons.IH [of c] Close by (auto simp: conn_Close_def split: prod.splits)
    qed
  qed
qed simp

definition reads_data :: "conn_call \<Rightarrow> bool" where
  "reads_data call \<longleftrightarrow> (case call of Read n _ \<Rightarrow> n > 0 | Close \<Rightarrow> False)"

definition read_error :: "conn_call \<Rightarrow> bool" where
  "read_error call \<longleftrightarrow> (case call of Read n e \<Rightarrow> e | Close \<Rightarrow> False)"

text \<open>A connection that is read and then closed once makes the report its reads call for.\<close>

lemma conn_lifetime:
  assumes "list_all (\<lambda>c. c \<noteq> Close) reads"
  shows "conn_reports (reads @ [Close]) =
    (if \<exists>c \<in> set reads. reads_data c then [True] else if \<exists>c \<in> set reads. read_error c then [False] else [])"
proof -
  have gen: "\<not> c_success c \<and> \<not> c_failure c \<Longrightarrow> list_all (\<lambda>c. c \<noteq> Close) reads \<Longrightarrow> snd (conn_run (reads @ [Close]) c) =
    (if \<exists>x \<in> set reads. reads_data x then [True]
     else if c_readfailed c \<or> (\<exists>x \<in> set reads. read_error x) then [False] else [])" for c
  proof (induction reads arbitrary: c)
    case Nil
    then show ?case by (simp add: conn_Close_def)
  next
    case (Cons call calls)
    then obtain n err where call: "call = Read n err" by (cases call) auto
    show ?case
    proof (cases "n > 0")
      case True
      define c1 where "c1 = fst (conn_Read n err c)"
      have "c_success c1" "conn_Read n err c = (c1, [True])"
        using True Cons.prems by (auto simp: c1_def conn_Read_def Let_def)
      then show ?thesis using conn_run_success [of c1 "calls @ [Close]"] call True
        by (auto simp: reads_data_def split: prod.splits)
    next
      case False
      define c1 where "c1 = fst (conn_Read n err c)"
      have c1: "\<not> c_success c1 \<and> \<not> c_failure c1" "conn_Read n err c = (c1, [])"
        "c_readfailed c1 \<longleftrightarrow> c_readfailed c \<or> err"
        using False Cons.prems by (auto simp: c1_def conn_Read_def Let_def)
      then show ?thesis using Cons.IH [OF c1(1)] Cons.prems call False
        by (auto simp: reads_data_def read_error_def split: prod.splits)
    qed
  qed
  from gen [of newConn] assms show ?thesis by (simp add: conn_reports_def newConn_def)
qed

section \<open>The shared index of \<open>roundrobin\<close>\<close>

lemma rr_succ:
  assumes "unat i < n" "n < 2 ^ 32"
  shows "unat ((i + 1) mod of_nat n :: 32 word) = (unat i + 1) mod n"
proof -
  have "unat (of_nat n :: 32 word) = n mod 2 ^ LENGTH(32)" by (rule unat_of_nat)
  then have n: "unat (of_nat n :: 32 word) = n" using assms(2) by simp
  have "i + 1 \<noteq> 0"
  proof
    assume "i + 1 = 0"
    then have "i = - 1" by (simp add: eq_neg_iff_add_eq_0)
    then have "unat i = 4294967295" by (simp add: unsigned_minus_1_eq_mask mask_eq_exp_minus_1)
    then show False using assms by simp
  qed
  then have "unat (i + 1) = unat i + 1" using unatSuc [of i] by (simp add: add.commute)
  then show ?thesis by (simp add: unat_mod n)
qed

lemma rr_load_ok:
  assumes old: "rr_opts_ok sizes old" and heap: "rr_heap_ok sizes heap" and new: "rr_index new = None"
    and fresh: "fresh \<notin> dom heap" and len: "length (rr_Candidates new) < 2 ^ 32" and rnd: "rand_ok IntN"
    and r: "rr_load equal IntN fresh heap new old = (opts', heap')"
  shows "\<exists>sizes'. rr_opts_ok sizes' opts' \<and> rr_heap_ok sizes' heap' \<and> sizes \<subseteq>\<^sub>m sizes' \<and>
    rr_Candidates opts' = rr_Candidates new"
proof (cases "rr_Candidates new = []")
  case True
  then show ?thesis using assms by (auto simp: rr_load_def rr_opts_ok_def)
next
  case ne: False
  let ?n = "length (rr_Candidates new)"
  show ?thesis
  proof (cases "list_all2 equal (rr_Candidates new) (rr_Candidates old)")
    case True
    then have "?n = length (rr_Candidates old)" by (rule list_all2_lengthD)
    then show ?thesis using True ne assms
      by (intro exI [of _ sizes]) (auto simp: rr_load_def rr_opts_ok_def split: option.splits)
  next
    case False
    then have o': "opts' = new\<lparr>rr_index := Some fresh\<rparr>" "heap' = heap(fresh \<mapsto> of_nat (IntN ?n))"
      using ne r by (simp_all add: rr_load_def)
    have "IntN ?n < ?n" using rnd ne by (simp add: rand_ok_def)
    moreover have "unat (of_nat (IntN ?n) :: 32 word) = IntN ?n mod 2 ^ LENGTH(32)" by (rule unat_of_nat)
    ultimately have v: "unat (of_nat (IntN ?n) :: 32 word) < ?n" using len by simp
    have "dom sizes = dom heap" using heap by (simp add: rr_heap_ok_def)
    with fresh have "sizes \<subseteq>\<^sub>m sizes(fresh \<mapsto> ?n)" by (auto simp: map_le_def)
    moreover have "rr_heap_ok (sizes(fresh \<mapsto> ?n)) heap'"
      using heap v len unfolding rr_heap_ok_def o' by auto
    moreover have "rr_opts_ok (sizes(fresh \<mapsto> ?n)) opts'" using ne by (simp add: rr_opts_ok_def o')
    ultimately show ?thesis using o' by (intro exI [of _ "sizes(fresh \<mapsto> ?n)"]) simp
  qed
qed

text \<open>\<open>getRemote\<close> neither panics nor leaves its range.\<close>

lemma rr_getRemote_ok:
  assumes opts: "rr_opts_ok sizes opts" and heap: "rr_heap_ok sizes heap" and rc: "rr_conn_ok sizes rc"
    and r: "rr_getRemote dial opts addr heap rc = (res, heap', rc')"
  shows "res \<noteq> None \<and> rr_heap_ok sizes heap' \<and> rr_conn_ok sizes rc' \<and>
    (res = Some (Inl CloseConn) \<longleftrightarrow> rr_Candidates opts = []) \<and>
    (rr_Candidates opts \<noteq> [] \<longrightarrow> unat (rc_indexLoaded rc') < length (rr_Candidates opts) \<and>
       res = Some (case dial (rr_Candidates opts ! unat (rc_indexLoaded rc')) addr of
                     Inl err \<Rightarrow> Inl (DialError err) | Inr c \<Rightarrow> Inr c))"
proof (cases "rr_Candidates opts = []")
  case True
  then show ?thesis using assms by (auto simp: rr_getRemote_def)
next
  case ne: False
  let ?n = "length (rr_Candidates opts)"
  obtain p where p: "rr_index opts = Some p" "sizes p = Some ?n"
    using opts ne by (auto simp: rr_opts_ok_def split: option.splits)
  then obtain i where i: "heap p = Some i" "unat i < ?n" "?n < 2 ^ 32"
    using heap unfolding rr_heap_ok_def by (metis domD domI)
  have n: "0 < ?n" using ne by simp
  obtain h1 rc1 where s: "(if rc_index rc = None \<or> rc_index rc \<noteq> rr_index opts
      then Some (heap(p \<mapsto> (i + 1) mod of_nat ?n), \<lparr>rc_index = Some p, rc_indexLoaded = i\<rparr>)
      else Some (heap, rc\<lparr>rc_indexLoaded := (rc_indexLoaded rc + 1) mod of_nat ?n\<rparr>)) = Some (h1, rc1)"
    by (cases "rc_index rc = None \<or> rc_index rc \<noteq> rr_index opts") auto
  have ok: "rr_heap_ok sizes h1 \<and> rr_conn_ok sizes rc1 \<and> unat (rc_indexLoaded rc1) < ?n"
  proof (cases "rc_index rc = None \<or> rc_index rc \<noteq> rr_index opts")
    case True
    then have "h1 = heap(p \<mapsto> (i + 1) mod of_nat ?n)" "rc1 = \<lparr>rc_index = Some p, rc_indexLoaded = i\<rparr>"
      using s by auto
    moreover have "unat ((i + 1) mod of_nat ?n) < ?n" using rr_succ [OF i(2,3)] n by simp
    ultimately show ?thesis using heap i p by (auto simp: rr_heap_ok_def rr_conn_ok_def)
  next
    case False
    then have rc1: "h1 = heap" "rc1 = rc\<lparr>rc_indexLoaded := (rc_indexLoaded rc + 1) mod of_nat ?n\<rparr>"
      "rc_index rc = Some p" using s p by auto
    then have "unat (rc_indexLoaded rc) < ?n" using rc p by (auto simp: rr_conn_ok_def)
    from rr_succ [OF this i(3)] n have "unat (rc_indexLoaded rc1) < ?n" by (simp add: rc1)
    then show ?thesis using heap rc1 p by (auto simp: rr_conn_ok_def)
  qed
  have "rr_getRemote dial opts addr heap rc = (case dial (rr_Candidates opts ! unat (rc_indexLoaded rc1)) addr of
      Inl err \<Rightarrow> (Some (Inl (DialError err)), h1, rc1) | Inr c \<Rightarrow> (Some (Inr c), h1, rc1))"
    using s ok ne p(1) i(1) unfolding rr_getRemote_def Let_def rr_advance_def
    by (cases "rc_index rc = None \<or> rc_index rc \<noteq> rr_index opts") auto
  then show ?thesis using r ok ne by (auto split: sum.splits)
qed

definition rr_pick :: "unit \<Rightarrow> nat \<times> 32 word \<Rightarrow> nat \<times> nat \<times> 32 word" where
  "rr_pick u s = (case s of (n, i) \<Rightarrow> (case rr_advance n i of (loaded, i') \<Rightarrow> (unat loaded, n, i')))"

interpretation rr: balancer "\<lambda>n s. fst s = n \<and> unat (snd s) < n \<and> n < 2 ^ 32" "\<lambda>u. True" rr_pick
  by unfold_locales (auto simp: rr_pick_def rr_advance_def rr_succ)

subsection \<open>Compare-and-swap under interference\<close>

text \<open>
  The loop of several connections at once: each has loaded nothing, loaded a value, or swapped.
  The log (of the proof) records the values in the order of the successful swaps.
\<close>

datatype rr_pc = Idle | Loaded "32 word" | Swapped "32 word"

record rr_state =
  rs_index :: "32 word"
  rs_pc :: "nat \<Rightarrow> rr_pc"
  rs_log :: "32 word list"

inductive rr_step :: "nat \<Rightarrow> rr_state \<Rightarrow> rr_state \<Rightarrow> bool" for n where
  load: "rs_pc s t = Idle \<Longrightarrow> rr_step n s (s\<lparr>rs_pc := (rs_pc s)(t := Loaded (rs_index s))\<rparr>)"
| swap: "rs_pc s t = Loaded i \<Longrightarrow> rs_index s = i \<Longrightarrow>
     rr_step n s (s\<lparr>rs_index := (i + 1) mod of_nat n, rs_pc := (rs_pc s)(t := Swapped i), rs_log := rs_log s @ [i]\<rparr>)"
| retry: "rs_pc s t = Loaded i \<Longrightarrow> rs_index s \<noteq> i \<Longrightarrow>
     rr_step n s (s\<lparr>rs_pc := (rs_pc s)(t := Idle)\<rparr>)"

inductive_cases rr_stepE: "rr_step n s s'"

definition rr_start :: "32 word \<Rightarrow> rr_state" where
  "rr_start i = \<lparr>rs_index = i, rs_pc = (\<lambda>_. Idle), rs_log = []\<rparr>"

lemma rr_log_inv:
  assumes "(rr_step n)\<^sup>*\<^sup>* (rr_start v) s" "unat v < n" "n < 2 ^ 32"
  shows "unat (rs_index s) = (unat v + length (rs_log s)) mod n \<and>
    map unat (rs_log s) = map (\<lambda>k. (unat v + k) mod n) [0..<length (rs_log s)] \<and>
    (\<forall>t i. rs_pc s t = Swapped i \<longrightarrow> i \<in> set (rs_log s))"
  using assms(1)
proof (induction rule: rtranclp_induct)
  case base
  then show ?case using assms(2) by (simp add: rr_start_def)
next
  case (step s s')
  from step(2) show ?case
  proof cases
    case (swap t i)
    have u: "unat (rs_index s) = (unat v + length (rs_log s)) mod n" using step(3) by simp
    then have "unat i < n" using swap assms(2) by simp
    from rr_succ [OF this assms(3)] have "unat ((i + 1) mod of_nat n) = (unat v + Suc (length (rs_log s))) mod n"
      using u swap(3) by (simp add: mod_Suc_eq)
    then show ?thesis using step(3) swap u by auto
  qed (use step(3) in auto)
qed

lemma window_all:
  fixes c n :: nat
  assumes "0 < n"
  shows "(\<lambda>k. (c + k) mod n) ` {a..<a + n} = {0..<n}"
proof
  show sub: "(\<lambda>k. (c + k) mod n) ` {a..<a + n} \<subseteq> {0..<n}" using assms by auto
  have "inj_on (\<lambda>k. (c + k) mod n) {a..<a + n}"
  proof (rule inj_onI)
    fix x y assume x: "x \<in> {a..<a + n}" and y: "y \<in> {a..<a + n}" and e: "(c + x) mod n = (c + y) mod n"
    have *: "x = y" if "x \<le> y" "(c + x) mod n = (c + y) mod n" "y < x + n" for x y
    proof -
      have "n dvd (c + y) - (c + x)" 
        using that by (intro iffD1 [OF mod_eq_dvd_iff_nat]) auto
      then have "n dvd y - x" by simp
      moreover have "y - x < n" using that by linarith
      ultimately have "y - x = 0" using dvd_imp_le by fastforce
      then show ?thesis using that by simp
    qed
    show "x = y"
    proof (cases "x \<le> y")
      case True
      then show ?thesis by (rule *) (use x y e in auto)
    next
      case False
      have "y = x" by (rule *) (use False x y e in auto)
      then show ?thesis by (rule sym)
    qed
  qed
  then have "card ((\<lambda>k. (c + k) mod n) ` {a..<a + n}) = n" by (simp add: card_image)
  then show "{0..<n} \<subseteq> (\<lambda>k. (c + k) mod n) ` {a..<a + n}"
    using card_subset_eq [OF _ sub] by simp
qed

section \<open>Properties\<close>

text \<open>
  C11. \<open>failover\<close>: with options kept by its load handler, \<open>getRemote\<close> answers \<open>CloseConn\<close>
  exactly when there is no candidate; otherwise it dials a candidate with the best score and
  reports a failed dial as a failure of it.
\<close>
theorem failover_getRemote:
  assumes "fo_ok opts" and "rand_ok IntN" and "fo_getRemote IntN dial opts addr = (r, opts')"
  shows "fo_ok opts' \<and> (r = Inl CloseConn \<longleftrightarrow> fo_Candidates opts = []) \<and>
    (fo_Candidates opts \<noteq> [] \<longrightarrow> (\<exists>q idx. fo_queue opts = Some q \<and> idx < length (fo_Candidates opts) \<and>
       (\<forall>j < length (fo_Candidates opts). q_score q j \<le> q_score q idx) \<and>
       (case dial (fo_Candidates opts ! idx) addr of
          Inl err \<Rightarrow> r = Inl (DialError err) \<and>
            fo_queue opts' = Some (q_fail (q\<lparr>q_recent := Some idx\<rparr>) idx)
        | Inr c \<Rightarrow> r = Inr (c, idx) \<and> fo_queue opts' = Some (q\<lparr>q_recent := Some idx\<rparr>))))"
  using fo_getRemote_ok [OF assms] by blast

definition example_fo :: "nat fo_options" where
  "example_fo = \<lparr>fo_ListenAddr = '':1'', fo_Candidates = [10, 20], fo_queue = Some (newQueue 2)\<rparr>"

lemma example_fo_ok: "fo_ok example_fo"
  using newQueue_inv [of 2] by (simp add: fo_ok_def example_fo_def numeral_2_eq_2)

lemma failover_getRemote_witness:
  "case fo_getRemote (\<lambda>n. 0) (\<lambda>p a. if p = 10 then Inl ''refused'' else Inr a) example_fo ''x:1'' of
     (r, opts') \<Rightarrow> fo_ok opts' \<and> r \<noteq> Inl CloseConn"
proof -
  let ?f = "fo_getRemote (\<lambda>n. 0) (\<lambda>p a. if p = 10 then Inl ''refused'' else Inr a) example_fo ''x:1''"
  obtain r opts' where f: "?f = (r, opts')" by fastforce
  from failover_getRemote [OF example_fo_ok _ f] have "fo_ok opts'"
    "r = Inl CloseConn \<longleftrightarrow> fo_Candidates example_fo = []" by (simp_all add: rand_ok_def)
  then show ?thesis unfolding f by (simp add: example_fo_def)
qed

text \<open>Loading options keeps queue and candidates in step: a queue of the right size, or none.\<close>
theorem failover_load:
  assumes "fo_ok old" and "fo_queue new = None"
  shows "fo_ok (fo_load equal new old)"
  using assms by (rule fo_load_ok)

lemma failover_load_witness: "fo_ok (fo_load (=) (example_fo\<lparr>fo_Candidates := [1], fo_queue := None\<rparr>) example_fo)"
  by (rule failover_load [OF example_fo_ok]) simp

text \<open>
  A connection of \<open>failover\<close> that is read any number of times and closed once reports one
  success if a read returned data, else one failure if a read failed, else nothing.
\<close>
theorem conn_reports_once:
  assumes "list_all (\<lambda>c. c \<noteq> Close) reads"
  shows "conn_reports (reads @ [Close]) =
    (if \<exists>c \<in> set reads. reads_data c then [True] else if \<exists>c \<in> set reads. read_error c then [False] else [])"
  using assms by (rule conn_lifetime)

lemma conn_reports_once_witness: "conn_reports ([Read 0 False, Read 0 True] @ [Close]) = [False]"
  by (subst conn_reports_once) (simp_all add: reads_data_def read_error_def)

text \<open>
  \<open>roundrobin\<close>: with counters, options and captured variables as the code builds them,
  \<open>getRemote\<close> neither dereferences a nil counter nor indexes beyond the candidates, and
  keeps them so.
\<close>
theorem roundrobin_getRemote:
  assumes "rr_opts_ok sizes opts" and "rr_heap_ok sizes heap" and "rr_conn_ok sizes rc"
    and "rr_getRemote dial opts addr heap rc = (res, heap', rc')"
  shows "res \<noteq> None \<and> rr_heap_ok sizes heap' \<and> rr_conn_ok sizes rc' \<and>
    (res = Some (Inl CloseConn) \<longleftrightarrow> rr_Candidates opts = [])"
  using rr_getRemote_ok [OF assms] by blast

lemma roundrobin_getRemote_witness:
  "fst (rr_getRemote (\<lambda>p a. Inr a :: string + string)
      \<lparr>rr_ListenAddr = [], rr_Candidates = [7, 8, 9 :: nat], rr_index = Some 0\<rparr> ''h:1'' [0 \<mapsto> 2]
      \<lparr>rc_index = None, rc_indexLoaded = 0\<rparr>) \<noteq> None"
proof -
  let ?o = "\<lparr>rr_ListenAddr = [], rr_Candidates = [7, 8, 9 :: nat], rr_index = Some 0\<rparr>"
  let ?c = "\<lparr>rc_index = None, rc_indexLoaded = 0\<rparr>"
  obtain res heap' rc' where f: "rr_getRemote (\<lambda>p a. Inr a :: string + string) ?o ''h:1'' [0 \<mapsto> 2] ?c
      = (res, heap', rc')" by (metis prod_cases3)
  have "rr_opts_ok [0 \<mapsto> 3] ?o" by (simp add: rr_opts_ok_def)
  moreover have "rr_heap_ok [0 \<mapsto> 3] [0 \<mapsto> 2]" by (simp add: rr_heap_ok_def)
  moreover have "rr_conn_ok [0 \<mapsto> 3] ?c" by (simp add: rr_conn_ok_def)
  ultimately show ?thesis using roundrobin_getRemote [OF _ _ _ f] unfolding f by simp
qed

text \<open>
  C10. \<open>roundrobin\<close>: however the compare-and-swap loops of the connections interleave, any \<open>n\<close>
  successive connections start at the \<open>n\<close> different candidates.
\<close>
theorem roundrobin_fair:
  assumes "(rr_step n)\<^sup>*\<^sup>* (rr_start v) s" and "unat v < n" and "n < 2 ^ 32"
    and "k + n \<le> length (rs_log s)"
  shows "unat ` set (take n (drop k (rs_log s))) = {0..<n}"
proof -
  have m: "map unat (rs_log s) = map (\<lambda>k. (unat v + k) mod n) [0..<length (rs_log s)]"
    using rr_log_inv [OF assms(1-3)] by blast
  have "unat ` set (take n (drop k (rs_log s))) = set (take n (drop k (map unat (rs_log s))))"
    by (simp add: take_map drop_map)
  also have "\<dots> = (\<lambda>k. (unat v + k) mod n) ` {k..<k + n}"
    unfolding m using assms(4) by (simp add: take_map drop_map min_def)
  also have "\<dots> = {0..<n}" using assms(2) by (intro window_all) simp
  finally show ?thesis .
qed

lemma roundrobin_fair_witness:
  "\<exists>s. (rr_step 2)\<^sup>*\<^sup>* (rr_start 1) s \<and> unat ` set (take 2 (drop 0 (rs_log s))) = {0..<2}"
proof -
  let ?s0 = "rr_start 1"
  let ?s1 = "?s0\<lparr>rs_pc := (rs_pc ?s0)(0 := Loaded (rs_index ?s0))\<rparr>"
  let ?s2 = "?s1\<lparr>rs_pc := (rs_pc ?s1)(1 := Loaded (rs_index ?s1))\<rparr>"
  let ?s3 = "?s2\<lparr>rs_index := (1 + 1) mod of_nat 2, rs_pc := (rs_pc ?s2)(0 := Swapped 1), rs_log := rs_log ?s2 @ [1]\<rparr>"
  let ?s4 = "?s3\<lparr>rs_pc := (rs_pc ?s3)(1 := Idle)\<rparr>"
  let ?s5 = "?s4\<lparr>rs_pc := (rs_pc ?s4)(1 := Loaded (rs_index ?s4))\<rparr>"
  let ?s6 = "?s5\<lparr>rs_index := (0 + 1) mod of_nat 2, rs_pc := (rs_pc ?s5)(1 := Swapped 0), rs_log := rs_log ?s5 @ [0]\<rparr>"
  have r1: "(rr_step 2)\<^sup>*\<^sup>* ?s0 ?s1"
    by (rule r_into_rtranclp, rule rr_step.load) (simp add: rr_start_def)
  have r2: "(rr_step 2)\<^sup>*\<^sup>* ?s0 ?s2"
    by (rule rtranclp.rtrancl_into_rtrancl [OF r1], rule rr_step.load) (simp add: rr_start_def)
  have r3: "(rr_step 2)\<^sup>*\<^sup>* ?s0 ?s3"
    by (rule rtranclp.rtrancl_into_rtrancl [OF r2], rule rr_step.swap) (simp_all add: rr_start_def)
  have r4: "(rr_step 2)\<^sup>*\<^sup>* ?s0 ?s4"
    by (rule rtranclp.rtrancl_into_rtrancl [OF r3], rule rr_step.retry [where i = 1]) (simp_all add: rr_start_def)
  have r5: "(rr_step 2)\<^sup>*\<^sup>* ?s0 ?s5"
    by (rule rtranclp.rtrancl_into_rtrancl [OF r4], rule rr_step.load) (simp add: rr_start_def)
  have r: "(rr_step 2)\<^sup>*\<^sup>* ?s0 ?s6"
    by (rule rtranclp.rtrancl_into_rtrancl [OF r5], rule rr_step.swap) (simp_all add: rr_start_def)
  have "unat ` set (take 2 (drop 0 (rs_log ?s6))) = {0..<2}"
    by (rule roundrobin_fair [OF r]) (simp_all add: rr_start_def)
  with r show ?thesis by blast
qed

end
