(* ===== verification/Services.thy ===== *)
theory Services
  imports Service_System Balancers Relay
begin

text \<open>
  The small services as instances of the loop of theory Service: \<open>tcptun\<close>, \<open>pprof\<close>, \<open>httpfs\<close>,
  \<open>shadowsocks\<close> and the balancers. For each: its options, its part of \<open>LoadEvent\<close>, its loop, and
  what it does with an accepted connection (\<open>serve\<close>: the address, connection and relay options
  it hands to \<open>NewConn\<close> and \<open>Relay\<close>, or \<open>None\<close>) and to dial (\<open>getRemote\<close>). Both read the options
  through the channel, as \<open>opts_out\<close> gives them.
\<close>

type_synonym serve_action = "(string \<times> ConnOptions \<times> RelayOptions) option"

abbreviation "no_conn_opts \<equiv> \<lparr>co_Timeout = 0, co_Interval = 0, co_Parallel = 0, co_MaxAttempts = 0\<rparr>"
abbreviation "no_relay_opts \<equiv> \<lparr>ro_ConnIdle = 0, ro_UplinkIdle = 0, ro_DownlinkIdle = 0\<rparr>"

definition dial_remote :: "('p \<Rightarrow> string \<Rightarrow> 'e + 'c) \<Rightarrow> 'p \<Rightarrow> string \<Rightarrow> 'e remote_error + 'c" where
  "dial_remote dial p addr = (case dial p addr of Inl err \<Rightarrow> Inl (DialError err) | Inr c \<Rightarrow> Inr c)"

section \<open>\<open>tcptun\<close>\<close>

record 'p tcptun_options =
  tt_ListenAddr :: string
  tt_ForwardAddr :: string
  tt_Proxy :: 'p
  tt_Conn :: ConnOptions
  tt_Relay :: RelayOptions

definition tcptun_zero :: "'p \<Rightarrow> 'p tcptun_options" where
  "tcptun_zero p = \<lparr>tt_ListenAddr = [], tt_ForwardAddr = [], tt_Proxy = p, tt_Conn = no_conn_opts, tt_Relay = no_relay_opts\<rparr>"

definition tcptun_load :: "'p tcptun_options \<Rightarrow> 'p tcptun_options \<Rightarrow> 'p tcptun_options option" where
  "tcptun_load old new = Some new"

definition tcptun_step ::
  "(string \<Rightarrow> bool) \<Rightarrow> 'p tcptun_options job_input \<Rightarrow> 'p tcptun_options job \<Rightarrow> 'p tcptun_options job" where
  "tcptun_step = job_step tt_ListenAddr tcptun_load"

definition tcptun_serve :: "'p tcptun_options \<times> bool \<Rightarrow> serve_action" where
  "tcptun_serve out = (case out of (opts, ok) \<Rightarrow>
     if \<not> ok then None else Some (tt_ForwardAddr opts, tt_Conn opts, tt_Relay opts))"

definition tcptun_getRemote ::
  "('p \<Rightarrow> string \<Rightarrow> 'e + 'c) \<Rightarrow> 'p tcptun_options \<times> bool \<Rightarrow> 'e remote_error + 'c" where
  "tcptun_getRemote dial out = (case out of (opts, _) \<Rightarrow>
     if tt_ForwardAddr opts = [] then Inl CloseConn else dial_remote dial (tt_Proxy opts) (tt_ForwardAddr opts))"

interpretation tcptun: service_loop tt_ListenAddr tcptun_load
  by unfold_locales (simp add: tcptun_load_def)

section \<open>\<open>pprof\<close>\<close>

record pprof_options =
  pp_ListenAddr :: string

definition pprof_load :: "pprof_options \<Rightarrow> pprof_options \<Rightarrow> pprof_options option" where
  "pprof_load old new = Some new"

definition pprof_step ::
  "(string \<Rightarrow> bool) \<Rightarrow> pprof_options job_input \<Rightarrow> pprof_options job \<Rightarrow> pprof_options job" where
  "pprof_step = job_step pp_ListenAddr pprof_load"

interpretation pprof: service_loop pp_ListenAddr pprof_load
  by unfold_locales (simp add: pprof_load_def)

section \<open>\<open>httpfs\<close>\<close>

text \<open>The handler is the directory it serves.\<close>

record httpfs_options =
  fs_ListenAddr :: string
  fs_Dir :: string
  fs_handler :: "string option"

definition httpfs_load :: "httpfs_options \<Rightarrow> httpfs_options \<Rightarrow> httpfs_options option" where
  "httpfs_load old new0 =
     (let new = new0\<lparr>fs_handler := fs_handler old\<rparr>
      in Some (if fs_Dir new \<noteq> fs_Dir old then new\<lparr>fs_handler := Some (fs_Dir new)\<rparr> else new))"

definition httpfs_step ::
  "(string \<Rightarrow> bool) \<Rightarrow> httpfs_options job_input \<Rightarrow> httpfs_options job \<Rightarrow> httpfs_options job" where
  "httpfs_step = job_step fs_ListenAddr httpfs_load"

text \<open>The directory a request is served from; \<open>None\<close> is \<open>http.NotFound\<close>.\<close>

definition httpfs_handler :: "httpfs_options \<times> bool \<Rightarrow> string option" where
  "httpfs_handler out = fs_handler (fst out)"

definition httpfs_good :: "httpfs_options \<Rightarrow> bool" where
  "httpfs_good opts \<longleftrightarrow> fs_handler opts = Some (fs_Dir opts) \<or> fs_handler opts = None \<and> fs_Dir opts = []"

interpretation httpfs: derived_service fs_ListenAddr httpfs_load "\<lambda>_. True" httpfs_good
  by unfold_locales (auto simp: httpfs_load_def httpfs_good_def Let_def split: if_splits)

section \<open>\<open>shadowsocks\<close>\<close>

text \<open>\<open>core.PickCipher\<close> is a parameter.\<close>

record ('p, 'k) shadowsocks_options =
  ss_ListenAddr :: string
  ss_Proxy :: 'p
  ss_Method :: string
  ss_Password :: string
  ss_Conn :: ConnOptions
  ss_Relay :: RelayOptions
  ss_cipher :: "'k option"

definition shadowsocks_load ::
  "(string \<Rightarrow> string \<Rightarrow> 'k option) \<Rightarrow> ('p, 'k) shadowsocks_options \<Rightarrow> ('p, 'k) shadowsocks_options
     \<Rightarrow> ('p, 'k) shadowsocks_options option" where
  "shadowsocks_load PickCipher old new0 =
     (let new = new0\<lparr>ss_cipher := ss_cipher old\<rparr>
      in if ss_Method new \<noteq> ss_Method old \<or> ss_Password new \<noteq> ss_Password old
         then (case PickCipher (ss_Method new) (ss_Password new) of
                 None \<Rightarrow> None
               | Some cipher \<Rightarrow> Some (new\<lparr>ss_cipher := Some cipher\<rparr>))
         else Some new)"

definition shadowsocks_step ::
  "(string \<Rightarrow> string \<Rightarrow> 'k option) \<Rightarrow> (string \<Rightarrow> bool) \<Rightarrow> ('p, 'k) shadowsocks_options job_input
     \<Rightarrow> ('p, 'k) shadowsocks_options job \<Rightarrow> ('p, 'k) shadowsocks_options job" where
  "shadowsocks_step PickCipher = job_step ss_ListenAddr (shadowsocks_load PickCipher)"

text \<open>
  \<open>readAddr\<close> decrypts the connection with the cipher and reads the address; the options are read
  once for the cipher and once more after that.
\<close>

definition shadowsocks_serve ::
  "('k \<Rightarrow> string option) \<Rightarrow> ('p, 'k) shadowsocks_options \<times> bool \<Rightarrow> ('p, 'k) shadowsocks_options \<times> bool \<Rightarrow> serve_action" where
  "shadowsocks_serve readAddr out1 out2 =
     (case ss_cipher (fst out1) of
        None \<Rightarrow> None
      | Some cipher \<Rightarrow>
          (case readAddr cipher of
             None \<Rightarrow> None
           | Some remoteAddr \<Rightarrow>
               if \<not> snd out2 then None
               else Some (remoteAddr, ss_Conn (fst out2), ss_Relay (fst out2))))"

definition shadowsocks_getRemote ::
  "('p \<Rightarrow> string \<Rightarrow> 'e + 'c) \<Rightarrow> string \<Rightarrow> ('p, 'k) shadowsocks_options \<times> bool \<Rightarrow> 'e remote_error + 'c" where
  "shadowsocks_getRemote dial remoteAddr out =
     (if \<not> snd out then Inl CloseConn else dial_remote dial (ss_Proxy (fst out)) remoteAddr)"

definition shadowsocks_good :: "(string \<Rightarrow> string \<Rightarrow> 'k option) \<Rightarrow> ('p, 'k) shadowsocks_options \<Rightarrow> bool" where
  "shadowsocks_good PickCipher opts \<longleftrightarrow>
     ss_cipher opts = None \<and> ss_Method opts = [] \<and> ss_Password opts = [] \<or>
     ss_cipher opts \<noteq> None \<and> ss_cipher opts = PickCipher (ss_Method opts) (ss_Password opts)"

interpretation shadowsocks: derived_service ss_ListenAddr "shadowsocks_load PickCipher" "\<lambda>_. True" "shadowsocks_good PickCipher"
  by unfold_locales (auto simp: shadowsocks_load_def shadowsocks_good_def Let_def split: if_splits option.splits)

section \<open>The balancers\<close>

text \<open>All three read a SOCKS request first: \<open>addr\<close>, or \<open>None\<close> when the handshake fails.\<close>

record 'p random_options =
  rd_ListenAddr :: string
  rd_Candidates :: "'p list"

definition random_load :: "'p random_options \<Rightarrow> 'p random_options \<Rightarrow> 'p random_options option" where
  "random_load old new = Some new"

definition random_step ::
  "(string \<Rightarrow> bool) \<Rightarrow> 'p random_options job_input \<Rightarrow> 'p random_options job \<Rightarrow> 'p random_options job" where
  "random_step = job_step rd_ListenAddr random_load"

interpretation random: service_loop rd_ListenAddr random_load
  by unfold_locales (simp add: random_load_def)

definition failover_step ::
  "('p \<Rightarrow> 'p \<Rightarrow> bool) \<Rightarrow> (string \<Rightarrow> bool) \<Rightarrow> 'p fo_options job_input \<Rightarrow> 'p fo_options job \<Rightarrow> 'p fo_options job" where
  "failover_step equal = job_step fo_ListenAddr (\<lambda>old new. Some (fo_load equal new old))"

lemma fo_load_on: "fo_ListenAddr (fo_load equal new old) = fo_ListenAddr new"
  by (simp add: fo_load_def Let_def)

interpretation failover: derived_service fo_ListenAddr "\<lambda>old new. Some (fo_load equal new old)"
  "\<lambda>new. fo_queue new = None" fo_ok
  by unfold_locales (auto simp: fo_load_on fo_load_ok)

text \<open>The options of \<open>roundrobin\<close> point into the heap of counters, which is part of its state.\<close>

definition roundrobin_load ::
  "('p \<Rightarrow> 'p \<Rightarrow> bool) \<Rightarrow> (nat \<Rightarrow> nat) \<Rightarrow> ((nat \<rightharpoonup> 32 word) \<Rightarrow> nat) \<Rightarrow> 'p rr_options \<times> (nat \<rightharpoonup> 32 word)
     \<Rightarrow> 'p rr_options \<times> (nat \<rightharpoonup> 32 word) \<Rightarrow> ('p rr_options \<times> (nat \<rightharpoonup> 32 word)) option" where
  "roundrobin_load equal IntN fresh old new =
     Some (rr_load equal IntN (fresh (snd old)) (snd old) (fst new) (fst old))"

definition roundrobin_step ::
  "('p \<Rightarrow> 'p \<Rightarrow> bool) \<Rightarrow> (nat \<Rightarrow> nat) \<Rightarrow> ((nat \<rightharpoonup> 32 word) \<Rightarrow> nat) \<Rightarrow> (string \<Rightarrow> bool)
     \<Rightarrow> ('p rr_options \<times> (nat \<rightharpoonup> 32 word)) job_input \<Rightarrow> ('p rr_options \<times> (nat \<rightharpoonup> 32 word)) job
     \<Rightarrow> ('p rr_options \<times> (nat \<rightharpoonup> 32 word)) job" where
  "roundrobin_step equal IntN fresh = job_step (rr_ListenAddr \<circ> fst) (roundrobin_load equal IntN fresh)"

interpretation roundrobin: service_loop "rr_ListenAddr \<circ> fst" "roundrobin_load equal IntN fresh"
  by unfold_locales (auto simp: roundrobin_load_def rr_load_def Let_def split: if_splits)

text \<open>The same three lines of \<open>random\<close>, \<open>roundrobin\<close> and \<open>failover\<close>.\<close>

definition balancer_serve :: "string option \<Rightarrow> (ConnOptions \<times> RelayOptions) \<times> bool \<Rightarrow> serve_action" where
  "balancer_serve addr out =
     (case addr of
        None \<Rightarrow> None
      | Some remoteAddr \<Rightarrow> if \<not> snd out then None else Some (remoteAddr, fst (fst out), snd (fst out)))"

section \<open>Properties\<close>

text \<open>
  The cipher of a \<open>shadowsocks\<close> job is at all times the one of its method and password; with
  neither set, connections are refused. The directory that \<open>httpfs\<close> serves is the configured
  one. \<open>failover\<close> always has a well-formed queue of the size of its candidates.
\<close>
theorem derived_data_fits:
  assumes "list_all (\<lambda>(l, i). input_ok (\<lambda>new. fo_queue new = None) i) ins"
  shows "shadowsocks_good PickCipher (jb_opts (job_run ss_ListenAddr (shadowsocks_load PickCipher) is1
      (job_start \<lparr>ss_ListenAddr = [], ss_Proxy = p, ss_Method = [], ss_Password = [], ss_Conn = no_conn_opts,
         ss_Relay = no_relay_opts, ss_cipher = None\<rparr>))) \<and>
    httpfs_good (jb_opts (job_run fs_ListenAddr httpfs_load is2
      (job_start \<lparr>fs_ListenAddr = [], fs_Dir = [], fs_handler = None\<rparr>))) \<and>
    fo_ok (jb_opts (job_run fo_ListenAddr (\<lambda>old new. Some (fo_load equal new old)) ins
      (job_start \<lparr>fo_ListenAddr = [], fo_Candidates = [], fo_queue = None\<rparr>)))"
proof -
  have any: "list_all (\<lambda>(l, i). input_ok (\<lambda>_. True) i) js" for js :: "((string \<Rightarrow> bool) \<times> 'x job_input) list"
    by (induction js) auto
  show ?thesis
    by (intro conjI shadowsocks.run_good httpfs.run_good failover.run_good any assms)
      (simp_all add: job_start_def shadowsocks_good_def httpfs_good_def fo_ok_def)
qed

lemma derived_data_fits_witness:
  "fo_ok (jb_opts (job_run fo_ListenAddr (\<lambda>old new. Some (fo_load (=) new old))
      [(\<lambda>_. True, Received (LoadEvent \<lparr>fo_ListenAddr = '':1'', fo_Candidates = [4 :: nat, 5], fo_queue = None\<rparr>))]
      (job_start \<lparr>fo_ListenAddr = [], fo_Candidates = [], fo_queue = None\<rparr>)))"
  by (rule derived_data_fits [THEN conjunct2, THEN conjunct2]) simp

text \<open>
  Once \<open>Run\<close> of a service has returned, it accepts no connection and dials nothing any more:
  every \<open>getRemote\<close> that is still called asks to close the connection.
\<close>
theorem returned_jobs_dial_nothing:
  "tcptun_serve (opts_out (tcptun_zero p) (job_return j1)) = None \<and>
   tcptun_getRemote dial (opts_out (tcptun_zero p) (job_return j1)) = Inl CloseConn \<and>
   shadowsocks_serve readAddr out (opts_out zero2 (job_return j2)) = None \<and>
   shadowsocks_getRemote dial addr (opts_out zero2 (job_return j2)) = Inl CloseConn \<and>
   httpfs_handler (opts_out \<lparr>fs_ListenAddr = [], fs_Dir = [], fs_handler = None\<rparr> (job_return j3)) = None \<and>
   random_getRemote IntN dial (rd_Candidates (fst (opts_out \<lparr>rd_ListenAddr = [], rd_Candidates = []\<rparr> (job_return j4)))) addr = Inl CloseConn \<and>
   fst (fo_getRemote IntN dial (fst (opts_out \<lparr>fo_ListenAddr = [], fo_Candidates = [], fo_queue = None\<rparr> (job_return j5))) addr) = Inl CloseConn \<and>
   fst (rr_getRemote dial (fst (fst (opts_out (\<lparr>rr_ListenAddr = [], rr_Candidates = [], rr_index = None\<rparr>, h) (job_return j6)))) addr heap rc) = Some (Inl CloseConn) \<and>
   balancer_serve a (opts_out z (job_return j7)) = None"
  by (auto simp: opts_out_def tcptun_serve_def tcptun_getRemote_def tcptun_zero_def shadowsocks_serve_def
      shadowsocks_getRemote_def httpfs_handler_def random_getRemote_def fo_getRemote_def rr_getRemote_def
      balancer_serve_def split: option.split)

text \<open>
  Every service listens after \<open>LoadEvent\<close> and \<open>LoadedEvent\<close> on the address of its new options,
  whatever it did before.
\<close>
theorem tcptun_listens:
  assumes "SplitHostPort (tt_ListenAddr new) \<noteq> None" and "listen (tt_ListenAddr new)"
    and "jb_alive (job_run tt_ListenAddr tcptun_load is (job_start zero))"
  shows "tcptun_step listen (Received LoadedEvent) (tcptun_step listen' (Received (LoadEvent new))
      (job_run tt_ListenAddr tcptun_load is (job_start zero))) =
    \<lparr>jb_opts = new, jb_server = Some (tt_ListenAddr new), jb_alive = True\<rparr>"
  unfolding tcptun_step_def
  by (rule tcptun.load_loaded [OF assms(3,1)])
    (simp_all add: tcptun_load_def assms(2) job_run_def tcptun.steps_inv)

lemma tcptun_listens_witness:
  "tcptun_step (\<lambda>a. a = '':1'') (Received LoadedEvent) (tcptun_step (\<lambda>_. False) (Received (LoadEvent ((tcptun_zero 7)\<lparr>tt_ListenAddr := '':1''\<rparr>)))
      (job_run tt_ListenAddr tcptun_load [(\<lambda>_. True, Received NilEvent)] (job_start (tcptun_zero (7::nat))))) =
    \<lparr>jb_opts = (tcptun_zero 7)\<lparr>tt_ListenAddr := '':1''\<rparr>, jb_server = Some '':1'', jb_alive = True\<rparr>"
  by (subst tcptun_listens) (simp_all add: split_ports tcptun_zero_def job_run_def job_start_def job_step_def)

end
