(* ===== verification/Http.thy ===== *)
theory Http
  imports Allow_List Services
begin

text \<open>
  The \<open>http\<close> service (\<open>service/http/http.go\<close>): options with routes, the choice of a route for
  an address with its cache, redirects and rewritten hosts, and the headers that a forwarded
  request keeps. A Go map is an association list with distinct keys; a missing key reads as the
  empty string. A result \<open>None\<close> of loading is an error, after which the job returns, or a list that is
  never built (theory Allow_List). \<open>psum\<close> is the checksum in a \<open>Proxy\<close>, \<open>parse_ip\<close> is \<open>netip.ParseAddr\<close> (\<open>AddrZero\<close> on an error).
\<close>

section \<open>Options and routes\<close>

record 'p route_options =
  ro_Name :: string
  ro_What :: string
  ro_Checksum :: string
  ro_Proxy :: 'p

record named_list =
  nl_Checksum :: string
  nl_list :: allow_list

record 'p route =
  rt_Name :: string
  rt_AllowList :: named_list
  rt_Proxy :: 'p

record 'p http_options =
  ht_ListenAddr :: string
  ht_Proxy :: 'p
  ht_Routes :: "'p route_options list"
  ht_Redirects :: "(string \<times> string) list"
  ht_RewriteHosts :: "(string \<times> string) list"
  ht_Conn :: ConnOptions
  ht_Relay :: RelayOptions
  ht_routes :: "'p route list"
  ht_routeCache :: "(string \<times> 'p route) list option"   \<comment> \<open>\<open>None\<close> is \<open>nil\<close>\<close>
  ht_allowListMap :: "(string \<times> named_list) list"
  hd_redirects :: "(string \<times> string) list"               \<comment> \<open>what the handler was told last\<close>
  hd_rwhosts :: "(string \<times> string) list"

text \<open>\<open>Proxy.Equal\<close> compares the checksums of the proxies.\<close>

definition Proxy_Equal :: "('p \<Rightarrow> string) \<Rightarrow> 'p \<Rightarrow> 'p \<Rightarrow> bool" where
  "Proxy_Equal psum p other \<longleftrightarrow> psum p = psum other"

definition map_get :: "(string \<times> string) list \<Rightarrow> string \<Rightarrow> string" where
  "map_get m k = (case map_of m k of Some v \<Rightarrow> v | None \<Rightarrow> [])"

definition mapEqual :: "(string \<times> string) list \<Rightarrow> (string \<times> string) list \<Rightarrow> bool" where
  "mapEqual a b \<longleftrightarrow> length a = length b \<and> list_all (\<lambda>(k, v). map_get b k = v) a"

definition route_equal :: "('p \<Rightarrow> string) \<Rightarrow> 'p route_options \<Rightarrow> 'p route_options \<Rightarrow> bool" where
  "route_equal psum r other \<longleftrightarrow>
     ro_Name r = ro_Name other \<and> ro_Checksum r = ro_Checksum other \<and> Proxy_Equal psum (ro_Proxy r) (ro_Proxy other)"

definition routesEqual :: "('p \<Rightarrow> string) \<Rightarrow> 'p route_options list \<Rightarrow> 'p route_options list \<Rightarrow> bool" where
  "routesEqual psum a b \<longleftrightarrow> length a = length b \<and> list_all (\<lambda>i. route_equal psum (a ! i) (b ! i)) [0..<length a]"

text \<open>A route without a name takes its only rule as a name, or else its number.\<close>

definition route_name :: "nat \<Rightarrow> string \<Rightarrow> string \<Rightarrow> string" where
  "route_name i name what =
     (let name1 = (if name = [] then
            (case scanLines what True of
               (advance, token) \<Rightarrow> if advance = length what then (case token of Some t \<Rightarrow> t | None \<Rightarrow> []) else name)
            else name)
      in if name1 = [] then CHR ''#'' # Itoa i else name1)"

text \<open>The first loop over the routes: names and checksums; \<open>None\<close> when a checksum fails.\<close>

fun prepare_routes :: "nat \<Rightarrow> environment \<Rightarrow> (string \<Rightarrow> string) \<Rightarrow> nat \<Rightarrow> 'p route_options list \<Rightarrow> 'p route_options list option" where
  "prepare_routes k env sha1 i [] = Some []"
| "prepare_routes k env sha1 i (r # rs) =
     (case checksum k env (ro_What r) of
        Some (Inr h) \<Rightarrow>
          (case prepare_routes k env sha1 (i + 1) rs of
             None \<Rightarrow> None
           | Some rs' \<Rightarrow> Some (r\<lparr>ro_Name := route_name i (ro_Name r) (ro_What r), ro_Checksum := sha1 h\<rparr> # rs'))
      | _ \<Rightarrow> None)"

text \<open>The second loop, run when the routes changed: lists with an equal checksum are kept.\<close>

fun build_routes ::
  "nat \<Rightarrow> environment \<Rightarrow> (string \<times> named_list) list \<Rightarrow> 'p route_options list \<Rightarrow> 'p route list \<times> (string \<times> named_list) list
     \<Rightarrow> ('p route list \<times> (string \<times> named_list) list) option" where
  "build_routes k env olds [] r = Some r"
| "build_routes k env olds (ro # ros) (routes, amap) =
     (case (case map_of olds (ro_Name ro) of
              Some l \<Rightarrow>
                if nl_Checksum l \<noteq> ro_Checksum ro
                then map_option (map_sum id (\<lambda>a. \<lparr>nl_Checksum = ro_Checksum ro, nl_list = a\<rparr>)) (allow_Init k env (ro_What ro))
                else Some (Inr l)
            | None \<Rightarrow> map_option (map_sum id (\<lambda>a. \<lparr>nl_Checksum = ro_Checksum ro, nl_list = a\<rparr>)) (allow_Init k env (ro_What ro))) of
        Some (Inr l) \<Rightarrow>
          build_routes k env olds ros
            (routes @ [\<lparr>rt_Name = ro_Name ro, rt_AllowList = l, rt_Proxy = ro_Proxy ro\<rparr>], AList.update (ro_Name ro) l amap)
      | _ \<Rightarrow> None)"

definition http_load ::
  "('p \<Rightarrow> string) \<Rightarrow> nat \<Rightarrow> environment \<Rightarrow> (string \<Rightarrow> string) \<Rightarrow> 'p http_options \<Rightarrow> 'p http_options \<Rightarrow> 'p http_options option"
  where
  "http_load psum k env sha1 old new0 =
     (let new = new0\<lparr>ht_routes := ht_routes old, ht_routeCache := ht_routeCache old,
                     ht_allowListMap := ht_allowListMap old, hd_redirects := hd_redirects old, hd_rwhosts := hd_rwhosts old\<rparr>
      in case prepare_routes k env sha1 0 (ht_Routes new) of
           None \<Rightarrow> None
         | Some Routes \<Rightarrow>
             (case (if routesEqual psum Routes (ht_Routes old)
                    then Some (ht_routes new, ht_routeCache new, ht_allowListMap new)
                    else case build_routes k env (ht_allowListMap old) Routes ([], []) of
                           None \<Rightarrow> None
                         | Some (routes, amap) \<Rightarrow> Some (routes, if routes \<noteq> [] then Some [] else None, amap)) of
                None \<Rightarrow> None
              | Some (routes, cache, amap) \<Rightarrow>
                  Some (new\<lparr>ht_Routes := Routes, ht_routes := routes, ht_routeCache := cache, ht_allowListMap := amap,
                    hd_redirects := if mapEqual (ht_Redirects new) (ht_Redirects old) then hd_redirects new else ht_Redirects new,
                    hd_rwhosts := if mapEqual (ht_RewriteHosts new) (ht_RewriteHosts old) then hd_rwhosts new
                                  else ht_RewriteHosts new\<rparr>)))"

definition http_step ::
  "('p \<Rightarrow> string) \<Rightarrow> nat \<Rightarrow> environment \<Rightarrow> (string \<Rightarrow> string) \<Rightarrow> (string \<Rightarrow> bool)
     \<Rightarrow> 'p http_options job_input \<Rightarrow> 'p http_options job \<Rightarrow> 'p http_options job" where
  "http_step psum k env sha1 = job_step ht_ListenAddr (http_load psum k env sha1)"

section \<open>The route of an address\<close>

text \<open>\<open>Addr.Unmap\<close>: an IPv4 address inside IPv6.\<close>

fun addr_Unmap :: "addr \<Rightarrow> addr" where
  "addr_Unmap (Addr6 w zone) = (if drop_bit 32 w = 0xFFFF then Addr4 (ucast w) else Addr6 w zone)"
| "addr_Unmap a = a"

definition split_addr :: "(string \<Rightarrow> addr) \<Rightarrow> environment \<Rightarrow> string \<Rightarrow> string \<times> string \<times> addr" where
  "split_addr parse_ip env a =
     (let (host, port) = (case SplitHostPort a of Some hp \<Rightarrow> hp | None \<Rightarrow> ([], []));
          ip = parse_ip host
      in if addr_IsValid ip then (env_String env (addr_Unmap ip), port, addr_Unmap ip) else (host, port, ip))"

definition first_route :: "(string \<Rightarrow> addr) \<Rightarrow> environment \<Rightarrow> string \<Rightarrow> 'p route list \<Rightarrow> 'p route option" where
  "first_route parse_ip env a routes =
     (case split_addr parse_ip env a of
        (host, port, ip) \<Rightarrow> find (\<lambda>r. Allow (nl_list (rt_AllowList r)) host port ip) routes)"

text \<open>\<open>getopts\<close>: the proxy for an address, and the options, whose cache all copies share.\<close>

definition getopts :: "(string \<Rightarrow> addr) \<Rightarrow> environment \<Rightarrow> string \<Rightarrow> 'p http_options \<Rightarrow> 'p \<times> 'p http_options" where
  "getopts parse_ip env a opts =
     (case ht_routeCache opts of
        None \<Rightarrow> (ht_Proxy opts, opts)
      | Some cache \<Rightarrow>
          (case map_of cache a of
             Some r \<Rightarrow> (rt_Proxy r, opts)
           | None \<Rightarrow>
               (case first_route parse_ip env a (ht_routes opts) of
                  None \<Rightarrow> (ht_Proxy opts, opts)
                | Some r \<Rightarrow> (rt_Proxy r, opts\<lparr>ht_routeCache := Some (AList.update a r cache)\<rparr>))))"

definition http_getRemote ::
  "(string \<Rightarrow> addr) \<Rightarrow> environment \<Rightarrow> ('p \<Rightarrow> string \<Rightarrow> 'e + 'c) \<Rightarrow> string \<Rightarrow> 'p http_options \<times> bool \<Rightarrow> 'e remote_error + 'c" where
  "http_getRemote parse_ip env dial a out =
     (if \<not> snd out then Inl CloseConn else dial_remote dial (fst (getopts parse_ip env a (fst out))) a)"

section \<open>Requests\<close>

definition rewriteHost :: "'p http_options \<Rightarrow> string \<Rightarrow> string" where
  "rewriteHost opts host =
     (let s = map_get (hd_rwhosts opts) host in if s \<noteq> [] \<and> CHR '':'' \<in> set s then s else host)"

text \<open>A parsed URL is its path and a function that prints it with a path.\<close>

definition handleRedirect ::
  "(string \<Rightarrow> (string \<times> (string \<Rightarrow> string)) option) \<Rightarrow> 'p http_options \<Rightarrow> string \<Rightarrow> string \<Rightarrow> string option" where
  "handleRedirect parse_url opts host req_path =
     (let s = map_get (hd_redirects opts) host
      in if s = [] then None
         else case parse_url s of
                None \<Rightarrow> None
              | Some (upath, print) \<Rightarrow> Some (print (if upath = [] then req_path else upath)))"

text \<open>Headers: canonical keys with their values; \<open>textproto.CanonicalMIMEHeaderKey\<close>.\<close>

definition token_byte :: "char \<Rightarrow> bool" where
  "token_byte c \<longleftrightarrow> (let n = of_char c :: nat in 48 \<le> n \<and> n \<le> 57 \<or> 65 \<le> n \<and> n \<le> 90 \<or> 97 \<le> n \<and> n \<le> 122 \<or>
     n \<in> {33, 35, 36, 37, 38, 39, 42, 43, 45, 46, 94, 95, 96, 124, 126})"

fun canonical_from :: "bool \<Rightarrow> string \<Rightarrow> string" where
  "canonical_from upper [] = []"
| "canonical_from upper (c # cs) =
     (let c' = (if upper then upper_byte c else lower_byte c) in c' # canonical_from (c' = CHR ''-'') cs)"

definition canonical :: "string \<Rightarrow> string" where
  "canonical s = (if list_all token_byte s then canonical_from True s else s)"

type_synonym header = "(string \<times> string list) list"

definition header_Del :: "string \<Rightarrow> header \<Rightarrow> header" where
  "header_Del k h = filter (\<lambda>(k', vs). k' \<noteq> canonical k) h"

definition header_values :: "header \<Rightarrow> string \<Rightarrow> string list" where
  "header_values h k = (case map_of h k of Some vs \<Rightarrow> vs | None \<Rightarrow> [])"

definition trim_token :: "string \<Rightarrow> string" where
  "trim_token s = (let sp = (\<lambda>c. c = CHR '' '' \<or> c = CHR 0x09 \<or> c = CHR 0x0A \<or> c = CHR 0x0D)
     in rev (dropWhile sp (rev (dropWhile sp s))))"

definition hopHeaders :: "string list" where
  "hopHeaders = [''Connection'', ''Proxy-Connection'', ''Keep-Alive'', ''Proxy-Authenticate'', ''Proxy-Authorization'',
     ''Te'', ''Trailer'', ''Transfer-Encoding'', ''Upgrade'']"

definition RemoveHopbyhopHeaders :: "header \<Rightarrow> header" where
  "RemoveHopbyhopHeaders h =
     (let named = filter (\<lambda>s. s \<noteq> []) (map trim_token (concat (map (split_on (CHR '','')) (header_values h ''Connection''))))
      in foldl (\<lambda>h k. header_Del k h) h (named @ hopHeaders))"

text \<open>The headers of the request that \<open>ServeHTTP\<close> sends on, given the \<open>Upgrade\<close> found in the original.\<close>

definition outgoing_header :: "string \<Rightarrow> header \<Rightarrow> header" where
  "outgoing_header upgradeType h0 =
     (let h1 = RemoveHopbyhopHeaders h0;
          h2 = (if map_of h1 ''User-Agent'' = None then AList.update ''User-Agent'' [[]] h1 else h1)
      in if upgradeType \<noteq> [] then AList.update ''Upgrade'' [upgradeType] (AList.update ''Connection'' [''Upgrade''] h2) else h2)"

text \<open>
  The handler. What goes wrong outside (hijacking the connection, writing to it, printing the
  request, the round trip) is in \<open>outside\<close>; \<open>HeaderValuesContainsToken\<close> is a parameter. A tunnel
  writes its answer to the client, then relays between the client, whose data start with a
  prefix, and a connection to the address. \<open>h\<close> has the redirects and hosts the handler was told,
  \<open>out\<close> is what the options channel serves.
\<close>

record request =
  rq_Method :: string
  rq_RequestURI :: string
  rq_Host :: string
  rq_Path :: string
  rq_Header :: header

record http_response =
  rs_StatusCode :: int
  rs_Header :: header
  rs_ContentLength :: int
  rs_Body :: string

record outside =
  os_hijack :: bool
  os_write :: bool
  os_print :: "request \<Rightarrow> string option"
  os_RoundTrip :: "request \<Rightarrow> http_response option"

datatype http_action =
    Abort                                                           \<comment> \<open>\<open>panic(http.ErrAbortHandler)\<close>\<close>
  | ClientClosed
  | ServerError
  | Tunnel string string string ConnOptions RelayOptions            \<comment> \<open>answer, prefix, address\<close>
  | Redirected string
  | Answer int header string

definition connect_answer :: string where
  "connect_answer = ''HTTP/1.1 200 OK'' @ [return_char, newline, return_char, newline]"

definition handleConnect :: "outside \<Rightarrow> 'p http_options \<Rightarrow> 'p http_options \<times> bool \<Rightarrow> request \<Rightarrow> http_action" where
  "handleConnect os h out req =
     (if \<not> os_hijack os then Abort
      else if \<not> snd out then ClientClosed
      else if \<not> os_write os then ClientClosed
      else Tunnel connect_answer [] (rewriteHost h (rq_RequestURI req)) (ht_Conn (fst out)) (ht_Relay (fst out)))"

definition handleUpgrade :: "outside \<Rightarrow> 'p http_options \<Rightarrow> 'p http_options \<times> bool \<Rightarrow> request \<Rightarrow> http_action" where
  "handleUpgrade os h out req =
     (case os_print os req of
        None \<Rightarrow> ServerError
      | Some b \<Rightarrow>
          if \<not> os_hijack os then Abort
          else if \<not> snd out then ClientClosed
          else Tunnel [] b (rewriteHost h (rq_Host req)) (ht_Conn (fst out)) (ht_Relay (fst out)))"

text \<open>The header of the answer: a known length is passed on where the server sent none.\<close>

definition answer_header :: "http_response \<Rightarrow> header" where
  "answer_header resp =
     (let h = RemoveHopbyhopHeaders (rs_Header resp)
      in if map_of h ''Content-Length'' = None \<and> rs_ContentLength resp \<ge> 0
         then AList.update ''Content-Length'' [Itoa (nat (rs_ContentLength resp))] h else h)"

definition ServeHTTP ::
  "(string list \<Rightarrow> string \<Rightarrow> bool) \<Rightarrow> (string \<Rightarrow> (string \<times> (string \<Rightarrow> string)) option) \<Rightarrow> outside
     \<Rightarrow> 'p http_options \<Rightarrow> 'p http_options \<times> bool \<Rightarrow> request \<Rightarrow> http_action" where
  "ServeHTTP contains_token parse_url os h out req =
     (if rq_Method req = ''CONNECT'' then handleConnect os h out req
      else
        let upgradeType = (if contains_token (header_values (rq_Header req) ''Connection'') ''Upgrade''
              then (case header_values (rq_Header req) ''Upgrade'' of [] \<Rightarrow> [] | v # _ \<Rightarrow> v) else []);
            outreq = req\<lparr>rq_RequestURI := [], rq_Header := outgoing_header upgradeType (rq_Header req)\<rparr>
        in if upgradeType \<noteq> [] then handleUpgrade os h out outreq
           else case handleRedirect parse_url h (rq_Host outreq) (rq_Path outreq) of
                  Some url \<Rightarrow> Redirected url
                | None \<Rightarrow>
                    (case os_RoundTrip os outreq of
                       None \<Rightarrow> Abort
                     | Some resp \<Rightarrow> Answer (rs_StatusCode resp) (answer_header resp) (rs_Body resp)))"

section \<open>The routes stay current\<close>

definition route_fits :: "('p \<Rightarrow> string) \<Rightarrow> 'p route_options \<Rightarrow> 'p route \<Rightarrow> bool" where
  "route_fits psum ro r \<longleftrightarrow> rt_Name r = ro_Name ro \<and> nl_Checksum (rt_AllowList r) = ro_Checksum ro \<and>
     Proxy_Equal psum (rt_Proxy r) (ro_Proxy ro)"

definition cache_ok :: "(string \<Rightarrow> addr) \<Rightarrow> environment \<Rightarrow> 'p route list \<Rightarrow> (string \<times> 'p route) list \<Rightarrow> bool" where
  "cache_ok parse_ip env routes cache \<longleftrightarrow>
     (\<forall>a r. map_of cache a = Some r \<longrightarrow> first_route parse_ip env a routes = Some r)"

definition http_good :: "(string \<Rightarrow> addr) \<Rightarrow> environment \<Rightarrow> ('p \<Rightarrow> string) \<Rightarrow> 'p http_options \<Rightarrow> bool" where
  "http_good parse_ip env psum opts \<longleftrightarrow>
     list_all2 (route_fits psum) (ht_Routes opts) (ht_routes opts) \<and>
     (case ht_routeCache opts of
        None \<Rightarrow> ht_routes opts = []
      | Some cache \<Rightarrow> cache_ok parse_ip env (ht_routes opts) cache)"

lemma route_fits_equal:
  "route_equal psum r other \<Longrightarrow> route_fits psum other rt \<Longrightarrow> route_fits psum r rt"
  by (simp add: route_equal_def route_fits_def Proxy_Equal_def)

lemma routesEqual_fits:
  assumes "routesEqual psum a b" "list_all2 (route_fits psum) b rts"
  shows "list_all2 (route_fits psum) a rts"
proof -
  have "route_equal psum (a ! i) (b ! i)" if "i < length a" for i
    using assms(1) that by (auto simp: routesEqual_def list_all_iff)
  moreover have "length a = length b" using assms(1) by (simp add: routesEqual_def)
  ultimately show ?thesis using assms(2) route_fits_equal by (fastforce simp: list_all2_conv_all_nth)
qed

lemma build_routes_fit:
  "build_routes k env olds ros (routes, amap) = Some (routes', amap') \<Longrightarrow>
   \<exists>news. routes' = routes @ news \<and> list_all2 (route_fits psum) ros news"
proof (induction ros arbitrary: routes amap)
  case (Cons ro ros)
  let ?fresh = "map_option (map_sum id (\<lambda>a. \<lparr>nl_Checksum = ro_Checksum ro, nl_list = a\<rparr>)) (allow_Init k env (ro_What ro))"
  obtain l where l: "nl_Checksum l = ro_Checksum ro"
    "build_routes k env olds ros (routes @ [\<lparr>rt_Name = ro_Name ro, rt_AllowList = l, rt_Proxy = ro_Proxy ro\<rparr>],
       AList.update (ro_Name ro) l amap) = Some (routes', amap')"
  proof -
    have fresh: "nl_Checksum x = ro_Checksum ro" if "?fresh = Some (Inr x)" for x
    proof (cases "allow_Init k env (ro_What ro)")
      case (Some z)
      then show ?thesis using that by (cases z) auto
    qed (use that in simp)
    show ?thesis
      using Cons.prems that fresh by (auto split: option.splits sum.splits if_splits)
  qed
  obtain news where "routes' = (routes @ [\<lparr>rt_Name = ro_Name ro, rt_AllowList = l, rt_Proxy = ro_Proxy ro\<rparr>]) @ news"
    "list_all2 (route_fits psum) ros news"
    using Cons.IH [OF l(2)] by blast
  moreover have fit: "route_fits psum ro \<lparr>rt_Name = ro_Name ro, rt_AllowList = l, rt_Proxy = ro_Proxy ro\<rparr>"
    using l(1) by (simp add: route_fits_def Proxy_Equal_def)
  ultimately show ?case
    using fit by (intro exI [of _ "\<lparr>rt_Name = ro_Name ro, rt_AllowList = l, rt_Proxy = ro_Proxy ro\<rparr> # news"])
      simp
qed simp

lemma http_load_good:
  assumes good: "http_good parse_ip env psum old" and load: "http_load psum k env' sha1 old new = Some new'"
  shows "http_good parse_ip env psum new'"
proof -
  obtain Routes where R: "prepare_routes k env' sha1 0 (ht_Routes new) = Some Routes"
    using load by (auto simp: http_load_def Let_def split: option.splits)
  show ?thesis
  proof (cases "routesEqual psum Routes (ht_Routes old)")
    case True
    with load R have "ht_Routes new' = Routes" "ht_routes new' = ht_routes old" "ht_routeCache new' = ht_routeCache old"
      by (auto simp: http_load_def Let_def)
    with good routesEqual_fits [OF True] show ?thesis by (auto simp: http_good_def split: option.splits)
  next
    case False
    obtain routes amap where b: "build_routes k env' (ht_allowListMap old) Routes ([], []) = Some (routes, amap)"
      using load R False by (auto simp: http_load_def Let_def split: option.splits)
    with load R False have "ht_Routes new' = Routes" "ht_routes new' = routes"
      "ht_routeCache new' = (if routes \<noteq> [] then Some [] else None)"
      by (auto simp: http_load_def Let_def)
    with build_routes_fit [OF b, of psum] show ?thesis by (auto simp: http_good_def cache_ok_def)
  qed
qed

lemma http_load_on: "http_load psum k env sha1 old new = Some new' \<Longrightarrow> ht_ListenAddr new' = ht_ListenAddr new"
  by (auto simp: http_load_def Let_def split: option.splits prod.splits)

interpretation http: derived_service ht_ListenAddr "http_load psum k env' sha1" "\<lambda>_. True" "http_good parse_ip env psum"
  by unfold_locales (auto intro: http_load_on http_load_good)

lemma first_route_Nil [simp]: "first_route parse_ip env a [] = None"
  by (simp add: first_route_def split: prod.split)

lemma getopts_good:
  assumes "http_good parse_ip env psum opts"
  shows "http_good parse_ip env psum (snd (getopts parse_ip env a opts)) \<and>
    fst (getopts parse_ip env a opts) =
      (case first_route parse_ip env a (ht_routes opts) of Some r \<Rightarrow> rt_Proxy r | None \<Rightarrow> ht_Proxy opts)"
  using assms
  by (auto simp: http_good_def getopts_def cache_ok_def update_conv' split: option.splits if_splits)

definition http_zero :: "'p \<Rightarrow> 'p http_options" where
  "http_zero p = \<lparr>ht_ListenAddr = [], ht_Proxy = p, ht_Routes = [], ht_Redirects = [], ht_RewriteHosts = [], ht_Conn = no_conn_opts, ht_Relay = no_relay_opts, ht_routes = [],
     ht_routeCache = None, ht_allowListMap = [], hd_redirects = [], hd_rwhosts = []\<rparr>"

text \<open>
  A job at work: its events, each with the files as they are then, and the requests that it
  serves in between. A request finds its route in one step: \<open>getopts\<close> on the options that the
  channel serves. It leaves its route in the cache, which all copies of these options share.
\<close>

datatype 'p http_event = JobEvent nat environment "string \<Rightarrow> bool" "'p http_options job_input" | Lookup string

definition http_event_step ::
  "(string \<Rightarrow> addr) \<Rightarrow> environment \<Rightarrow> ('p \<Rightarrow> string) \<Rightarrow> (string \<Rightarrow> string) \<Rightarrow> 'p http_event
     \<Rightarrow> 'p http_options job \<Rightarrow> 'p http_options job" where
  "http_event_step parse_ip env psum sha1 e j =
     (case e of
        JobEvent k env' listen i \<Rightarrow> http_step psum k env' sha1 listen i j
      | Lookup a \<Rightarrow> if jb_alive j then j\<lparr>jb_opts := snd (getopts parse_ip env a (jb_opts j))\<rparr> else j)"

definition http_run ::
  "(string \<Rightarrow> addr) \<Rightarrow> environment \<Rightarrow> ('p \<Rightarrow> string) \<Rightarrow> (string \<Rightarrow> string) \<Rightarrow> 'p http_event list
     \<Rightarrow> 'p http_options job \<Rightarrow> 'p http_options job" where
  "http_run parse_ip env psum sha1 es j = fold (http_event_step parse_ip env psum sha1) es j"

lemma http_run_good:
  "http_good parse_ip env psum (jb_opts j) \<Longrightarrow> http_good parse_ip env psum (jb_opts (http_run parse_ip env psum sha1 es j))"
proof (induction es arbitrary: j)
  case (Cons e es)
  have "http_good parse_ip env psum (jb_opts (http_event_step parse_ip env psum sha1 e j))"
  proof (cases e)
    case (JobEvent k env' listen i)
    then show ?thesis
      using http.step_good [OF Cons.prems] by (simp add: http_event_step_def http_step_def)
  next
    case (Lookup a)
    then show ?thesis using Cons.prems getopts_good [OF Cons.prems, of a] by (simp add: http_event_step_def)
  qed
  from Cons.IH [OF this] show ?case by (simp add: http_run_def)
qed (simp add: http_run_def)

text \<open>
  C28. Whatever a job of the \<open>http\<close> service went through before (loads of any options, with the files
  changing in between, and requests that filled the route cache before, between and after them), the
  proxy that it chooses for an address is that of the first route in force that allows it, or the
  default one: no entry of the cache is out of date. The routes in force are those of the
  options: same names, same checksums of the rules, equal proxies.
\<close>
theorem http_routes_current:
  "(let opts = jb_opts (http_run parse_ip env psum sha1 events (job_start (http_zero p)))
    in fst (getopts parse_ip env a opts) =
         (case first_route parse_ip env a (ht_routes opts) of Some r \<Rightarrow> rt_Proxy r | None \<Rightarrow> ht_Proxy opts) \<and>
       list_all2 (route_fits psum) (ht_Routes opts) (ht_routes opts))"
proof -
  have "http_good parse_ip env psum (jb_opts (job_start (http_zero p)))"
    by (simp add: http_good_def http_zero_def job_start_def)
  from http_run_good [OF this, of sha1 events] have
    good: "http_good parse_ip env psum (jb_opts (http_run parse_ip env psum sha1 events (job_start (http_zero p))))" .
  from getopts_good [OF good, of a] good show ?thesis unfolding Let_def http_good_def by blast
qed

section \<open>Maps and headers\<close>

lemma mapEqual_lookup:
  assumes "distinct (map fst a)" "distinct (map fst b)" "mapEqual a b" "[] \<notin> snd ` set a"
  shows "map_of a = map_of b"
proof -
  have sub: "map_of b k = Some v" if "map_of a k = Some v" for k v
  proof -
    have "map_get b k = v" using assms(3) map_of_SomeD [OF that] by (auto simp: mapEqual_def list_all_iff)
    moreover have "v \<noteq> []" using assms(4) map_of_SomeD [OF that] by force
    ultimately show ?thesis by (auto simp: map_get_def split: option.splits)
  qed
  then have "set a \<subseteq> set b" using assms(1) by (auto dest: map_of_SomeD)
  moreover have "card (set a) = card (set b)"
    using assms(1-3) by (metis mapEqual_def distinct_card distinct_map)
  ultimately have "set a = set b" by (simp add: card_subset_eq)
  then show ?thesis using assms(1,2) by (simp add: map_of_inject_set)
qed

lemma differs_at: "f x \<noteq> g x \<Longrightarrow> f \<noteq> g"
  by auto

text \<open>
  Two redirect maps without empty values are equal for \<open>mapEqual\<close> exactly when they are the same
  map, so a reload leaves the handler with the configured redirects.
\<close>
theorem mapEqual_same:
  assumes "distinct (map fst a)" and "distinct (map fst b)" and "[] \<notin> snd ` set a"
  shows "mapEqual a b \<longleftrightarrow> map_of a = map_of b"
proof
  assume eq: "map_of a = map_of b"
  then have "set a = set b" using assms(1,2) by (simp add: map_of_inject_set)
  then have "length a = length b" using assms(1,2) by (metis distinct_card distinct_map)
  moreover have "map_of b k = Some v" if "(k, v) \<in> set a" for k v
    using that eq assms(1) by (metis map_of_is_SomeI)
  ultimately show "mapEqual a b" by (auto simp: mapEqual_def list_all_iff map_get_def)
qed (use mapEqual_lookup [OF assms(1,2) _ assms(3)] in blast)

lemma mapEqual_same_witness: "\<not> mapEqual [(''a'', ''1'')] [(''b'', ''1'')]"
proof -
  have "map_of [(''a'', ''1'')] \<noteq> map_of [(''b'', ''1'')]" by (rule differs_at [of _ "''a''"]) simp
  with mapEqual_same [of "[(''a'', ''1'')]" "[(''b'', ''1'')]"] show ?thesis by simp
qed

text \<open>With an empty value the comparison misses that a redirect was removed.\<close>

lemma mapEqual_misses_removal: "mapEqual [(''a'', [])] [(''b'', ''http://c'')] \<and> map_of [(''a'', [])] \<noteq> map_of [(''b'', ''http://c'')]"
  by (intro conjI differs_at [of _ "''a''"]) (simp_all add: mapEqual_def map_get_def)

lemma dels: "foldl (\<lambda>h k. header_Del k h) h ks = filter (\<lambda>(k', vs). k' \<notin> canonical ` set ks) h"
  by (induction ks arbitrary: h) (auto simp: header_Del_def filter_filter case_prod_unfold intro!: filter_cong)

lemma hop_canonical: "list_all (\<lambda>k. canonical k = k) hopHeaders"
  by code_simp

definition connection_names :: "header \<Rightarrow> string list" where
  "connection_names h = filter (\<lambda>s. s \<noteq> []) (map trim_token (concat (map (split_on (CHR '','')) (header_values h ''Connection''))))"

lemma RemoveHopbyhopHeaders_filter:
  "RemoveHopbyhopHeaders h = filter (\<lambda>(k, vs). k \<notin> set hopHeaders \<and> k \<notin> canonical ` set (connection_names h)) h"
proof -
  have "canonical ` set hopHeaders = set hopHeaders"
    using hop_canonical by (force simp: list_all_iff image_iff)
  then show ?thesis
    unfolding RemoveHopbyhopHeaders_def connection_names_def [symmetric] Let_def dels
    by (auto simp: image_Un intro!: filter_cong)
qed

lemma hop_header_gone: "k \<in> set hopHeaders \<Longrightarrow> map_of (RemoveHopbyhopHeaders h) k = None"
  by (auto simp: RemoveHopbyhopHeaders_filter map_of_eq_None_iff)

text \<open>
  C29. What \<open>RemoveHopbyhopHeaders\<close> keeps is exactly the headers that are neither hop-by-hop nor named
  by \<open>Connection\<close>, in their order and with their values; so the request that is sent on has a
  hop-by-hop header only for an upgrade: \<open>Connection\<close> and \<open>Upgrade\<close>, with the values of the handshake.
\<close>
theorem hop_headers_removed:
  "RemoveHopbyhopHeaders h = filter (\<lambda>(k, vs). k \<notin> set hopHeaders \<and> k \<notin> canonical ` set (connection_names h)) h \<and>
   filter (\<lambda>k. map_of (outgoing_header upgradeType h) k \<noteq> None) hopHeaders =
     (if upgradeType = [] then [] else [''Connection'', ''Upgrade'']) \<and>
   map_of (outgoing_header upgradeType h) ''Upgrade'' = (if upgradeType = [] then None else Some [upgradeType])"
proof (intro conjI)
  have gone: "map_of (RemoveHopbyhopHeaders h) k = None" if "k \<in> set hopHeaders" for k using that by (rule hop_header_gone)
  have each: "map_of (outgoing_header upgradeType h) k =
      (if upgradeType \<noteq> [] \<and> k = ''Upgrade'' then Some [upgradeType]
       else if upgradeType \<noteq> [] \<and> k = ''Connection'' then Some [''Upgrade''] else None)" if "k \<in> set hopHeaders" for k
    using gone [OF that] that by (auto simp: outgoing_header_def Let_def update_conv' hopHeaders_def)
  show "filter (\<lambda>k. map_of (outgoing_header upgradeType h) k \<noteq> None) hopHeaders =
     (if upgradeType = [] then [] else [''Connection'', ''Upgrade''])"
    using each by (cases "upgradeType = []") (simp_all add: hopHeaders_def)
  show "map_of (outgoing_header upgradeType h) ''Upgrade'' = (if upgradeType = [] then None else Some [upgradeType])"
    using each [of "''Upgrade''"] by (simp add: hopHeaders_def)
qed (rule RemoveHopbyhopHeaders_filter)

end
