(* ===== verification/Dns_Options.thy ===== *)
theory Dns_Options
  imports Http
begin

text \<open>
  The options of \<open>dnstun\<close> (\<open>service/tcptun/dnstun/dnstun.go\<close>), a relay of DNS queries: servers,
  routes with allow lists of host patterns, and what \<open>LoadEvent\<close> makes of them. Two fields hold
  pointers to a \<open>sync.Map\<close> that all copies of the options share; a pointer is a number, and
  \<open>dt_allocs\<close> counts those that the job has used. A route is reached by pointer as well: \<open>dr_ptr\<close> is
  the number of its array and its index there. \<open>reflect.DeepEqual\<close> is equality of values (it would tell
  \<open>nil\<close> from an empty slice).
\<close>

section \<open>Servers\<close>

record DNServer =
  dn_Name :: string
  dn_IP :: "string list"
  dn_Over :: string
  dn_Port :: "16 word"
  dn_Path :: string
  dn_Method :: string

definition dns_method :: "DNServer \<Rightarrow> string" where
  "dns_method s = (if dn_Method s = ''GET'' then ''GET'' else ''POST'')"

definition defaultPort :: "string \<Rightarrow> nat" where
  "defaultPort protocol =
     (if protocol = ''TLS'' then 853 else if protocol = ''HTTPS'' then 443 else if protocol = ''HTTP'' then 80 else 53)"

definition dns_port :: "DNServer \<Rightarrow> nat" where
  "dns_port s = (if dn_Port s \<noteq> 0 then unat (dn_Port s) else defaultPort (dn_Over s))"

definition dns_url :: "DNServer \<Rightarrow> string" where
  "dns_url s =
     ToLower (if dn_Over s \<noteq> [] then dn_Over s else ''TCP'') @ ''://'' @ dn_Name s @
     (if dn_Port s \<noteq> 0 \<and> unat (dn_Port s) \<noteq> defaultPort (dn_Over s) then CHR '':'' # Itoa (unat (dn_Port s)) else [])"

text \<open>The address to dial, for one of the server's IP addresses or its name.\<close>

definition dns_hostport :: "DNServer \<Rightarrow> string \<Rightarrow> string" where
  "dns_hostport s host = JoinHostPort host (Itoa (dns_port s))"

text \<open>\<open>checkServers\<close>: \<open>None\<close> where it logs an error and ends the goroutine.\<close>

definition check_server :: "DNServer \<Rightarrow> DNServer option" where
  "check_server s0 =
     (let s = s0\<lparr>dn_Over := ToUpper (dn_Over s0), dn_Method := ToUpper (dn_Method s0)\<rparr>
      in if dn_Name s = [] \<and> dn_IP s = [] then None
         else if dn_Over s \<notin> set [[], ''TCP'', ''TLS'', ''HTTPS'', ''HTTP''] then None
         else if dn_Method s \<notin> set [[], ''GET'', ''POST''] then None
         else if (dn_Over s = ''TLS'' \<or> dn_Over s = ''HTTPS'') \<and> dn_Name s = [] then None
         else Some s)"

fun checkServers :: "DNServer list \<Rightarrow> DNServer list option" where
  "checkServers [] = Some []"
| "checkServers (s # ss) =
     (case check_server s of
        None \<Rightarrow> None
      | Some s' \<Rightarrow> map_option ((#) s') (checkServers ss))"

section \<open>Allow lists\<close>

text \<open>Only host patterns count here: prefixes, ports and IPv6 addresses are left out.\<close>

record dns_parser =
  dp_includes :: "(string \<times> unit) list"
  dp_excludes :: "(string \<times> unit) list"

definition dns_pattern :: "string \<Rightarrow> string option" where
  "dns_pattern line =
     (if CHR ''/'' \<in> set line then None
      else
        let portSuffix = port_suffix line;
            pattern = take (length line - length portSuffix) line
        in if HasPrefix pattern ''['' \<and> HasSuffix pattern '']'' then Some (drop 1 (take (length pattern - 1) pattern))
           else if portSuffix \<noteq> [] \<and> CHR '':'' \<in> set pattern then None
           else Some pattern)"

definition dns_rule :: "string \<Rightarrow> dns_parser \<Rightarrow> rule_error + dns_parser" where
  "dns_rule line p =
     (if HasPrefix line ''!''
      then (case dns_pattern (drop 1 line) of
              None \<Rightarrow> Inr p
            | Some pat \<Rightarrow> Inr (p\<lparr>dp_excludes := AList.update pat () (dp_excludes p)\<rparr>))
      else (case dns_pattern line of
              None \<Rightarrow> Inr p
            | Some pat \<Rightarrow> Inr (p\<lparr>dp_includes := AList.update pat () (dp_includes p)\<rparr>)))"

text \<open>The rest of the parser and the checksums are those of \<open>http.go\<close>, which the file repeats.\<close>

definition dns_parse_lines :: "nat \<Rightarrow> environment \<Rightarrow> string \<Rightarrow> string list \<Rightarrow> dns_parser \<Rightarrow> (rule_error + dns_parser) option" where
  "dns_parse_lines = parse_lines dns_rule"

definition dns_parse_file :: "nat \<Rightarrow> environment \<Rightarrow> string \<Rightarrow> dns_parser \<Rightarrow> (rule_error + dns_parser) option" where
  "dns_parse_file = parse_file dns_rule"

definition dns_checksum :: "nat \<Rightarrow> environment \<Rightarrow> string \<Rightarrow> (rule_error + string) option" where
  "dns_checksum = checksum"

record dns_list =
  dl_includes :: "unit MatchSet"
  dl_excludes :: "unit MatchSet"

definition dns_Init :: "nat \<Rightarrow> environment \<Rightarrow> string \<Rightarrow> (rule_error + dns_list) option" where
  "dns_Init k env what =
     (case dns_parse_lines k env ''.'' (fst (scan_tokens what)) \<lparr>dp_includes = [], dp_excludes = []\<rparr> of
        None \<Rightarrow> None
      | Some (Inl err) \<Rightarrow> Some (Inl err)
      | Some (Inr p) \<Rightarrow>
          (case (add_all ms_empty (dp_includes p), add_all ms_empty (dp_excludes p)) of
             (Some inc, Some exc) \<Rightarrow> Some (Inr \<lparr>dl_includes = inc, dl_excludes = exc\<rparr>)
           | _ \<Rightarrow> None))"

definition dns_Allow :: "dns_list \<Rightarrow> string \<Rightarrow> bool" where
  "dns_Allow l domain \<longleftrightarrow> ms_MatchAll (dl_includes l) domain \<noteq> [] \<and> ms_MatchAll (dl_excludes l) domain = []"

section \<open>Options\<close>

record 'p dns_route_options =
  do_Name :: string
  do_What :: string
  do_Checksum :: string
  do_Proxy :: 'p
  do_Servers :: "DNServer list"

record dns_named_list =
  dnl_Checksum :: string
  dnl_list :: dns_list

record 'p dns_route =
  dr_Name :: string
  dr_AllowList :: dns_named_list
  dr_Proxy :: 'p
  dr_Servers :: "DNServer list"
  dr_ptr :: "nat \<times> nat"

record 'p dns_options =
  dt_ListenAddr :: string
  dt_Proxy :: 'p
  dt_Server :: DNServer
  dt_Servers :: "DNServer list"
  dt_Routes :: "'p dns_route_options list"
  dt_Redirects :: "(string \<times> string) list"
  dt_Cache :: bool
  dt_IPv4_Only :: bool
  dt_Conn :: ConnOptions
  dt_Relay :: RelayOptions
  dt_TTL_Min :: int
  dt_TTL_Max :: int
  dt_Idle_Timeout :: int
  dt_Read_Timeout :: int
  dt_Write_Timeout :: int
  dt_routes :: "'p dns_route list"
  dt_routeCache :: "nat option"
  dt_allowListMap :: "(string \<times> dns_named_list) list"
  dt_dnsCache :: "nat option"
  dt_allocs :: nat

abbreviation "no_server \<equiv> \<lparr>dn_Name = [], dn_IP = [], dn_Over = [], dn_Port = 0, dn_Path = [], dn_Method = []\<rparr>"

definition dns_zero :: "'p \<Rightarrow> 'p dns_options" where
  "dns_zero p = \<lparr>dt_ListenAddr = [], dt_Proxy = p, dt_Server = no_server, dt_Servers = [], dt_Routes = [], dt_Redirects = [],
     dt_Cache = False, dt_IPv4_Only = False, dt_Conn = no_conn_opts, dt_Relay = no_relay_opts, dt_TTL_Min = 0, dt_TTL_Max = 0,
     dt_Idle_Timeout = 0, dt_Read_Timeout = 0, dt_Write_Timeout = 0, dt_routes = [], dt_routeCache = None,
     dt_allowListMap = [], dt_dnsCache = None, dt_allocs = 0\<rparr>"

definition dns_route_equal :: "('p \<Rightarrow> string) \<Rightarrow> 'p dns_route_options \<Rightarrow> 'p dns_route_options \<Rightarrow> bool" where
  "dns_route_equal psum r other \<longleftrightarrow>
     do_Name r = do_Name other \<and> do_Checksum r = do_Checksum other \<and>
     Proxy_Equal psum (do_Proxy r) (do_Proxy other) \<and> do_Servers r = do_Servers other"

definition dns_routesEqual :: "('p \<Rightarrow> string) \<Rightarrow> 'p dns_route_options list \<Rightarrow> 'p dns_route_options list \<Rightarrow> bool" where
  "dns_routesEqual psum a b \<longleftrightarrow> length a = length b \<and> list_all (\<lambda>i. dns_route_equal psum (a ! i) (b ! i)) [0..<length a]"

text \<open>Equality of maps: every key of one or the other has the same value in both, or in neither.\<close>

definition map_DeepEqual :: "(string \<times> string) list \<Rightarrow> (string \<times> string) list \<Rightarrow> bool" where
  "map_DeepEqual a b \<longleftrightarrow> list_all (\<lambda>k. map_of a k = map_of b k) (map fst (a @ b))"

definition shouldResetDNSCache :: "('p \<Rightarrow> string) \<Rightarrow> 'p dns_options \<Rightarrow> 'p dns_options \<Rightarrow> bool" where
  "shouldResetDNSCache psum x y \<longleftrightarrow>
     dt_IPv4_Only x \<noteq> dt_IPv4_Only y \<or> dt_TTL_Min x \<noteq> dt_TTL_Min y \<or> dt_TTL_Max x \<noteq> dt_TTL_Max y \<or>
     dt_Servers x \<noteq> dt_Servers y \<or> \<not> dns_routesEqual psum (dt_Routes x) (dt_Routes y) \<or>
     \<not> map_DeepEqual (dt_Redirects x) (dt_Redirects y)"

definition dns_route_name :: "nat \<Rightarrow> string \<Rightarrow> string \<Rightarrow> string" where
  "dns_route_name i name what =
     (let name1 = (if name = [] then
            (case scanLines what True of
               (advance, token) \<Rightarrow> if advance = length what then (case token of Some t \<Rightarrow> t | None \<Rightarrow> []) else name)
            else name)
      in if name1 = [] then CHR ''#'' # Itoa i else name1)"

text \<open>The first loop over the routes: names, checksums and servers.\<close>

fun dns_prepare_routes ::
  "nat \<Rightarrow> environment \<Rightarrow> (string \<Rightarrow> string) \<Rightarrow> nat \<Rightarrow> 'p dns_route_options list \<Rightarrow> 'p dns_route_options list option" where
  "dns_prepare_routes k env sha1 i [] = Some []"
| "dns_prepare_routes k env sha1 i (r # rs) =
     (case dns_checksum k env (do_What r) of
        Some (Inr h) \<Rightarrow>
          if do_Servers r = [] then None
          else
            (case checkServers (do_Servers r) of
               None \<Rightarrow> None
             | Some servers \<Rightarrow>
                 (case dns_prepare_routes k env sha1 (i + 1) rs of
                    None \<Rightarrow> None
                  | Some rs' \<Rightarrow> Some (r\<lparr>do_Name := dns_route_name i (do_Name r) (do_What r), do_Checksum := sha1 h,
                                       do_Servers := servers\<rparr> # rs')))
      | _ \<Rightarrow> None)"

text \<open>The second loop, run when the routes changed: lists with an equal checksum are kept.\<close>

definition dns_route_list ::
  "nat \<Rightarrow> environment \<Rightarrow> (string \<times> dns_named_list) list \<Rightarrow> 'p dns_route_options \<Rightarrow> dns_named_list option" where
  "dns_route_list k env olds ro =
     (let fresh = (case dns_Init k env (do_What ro) of
            Some (Inr l) \<Rightarrow> Some \<lparr>dnl_Checksum = do_Checksum ro, dnl_list = l\<rparr> | _ \<Rightarrow> None)
      in case map_of olds (do_Name ro) of
           Some l \<Rightarrow> if dnl_Checksum l \<noteq> do_Checksum ro then fresh else Some l
         | None \<Rightarrow> fresh)"

fun dns_build_routes ::
  "nat \<Rightarrow> environment \<Rightarrow> (string \<times> dns_named_list) list \<Rightarrow> nat \<Rightarrow> 'p dns_route_options list
     \<Rightarrow> 'p dns_route list \<times> (string \<times> dns_named_list) list \<Rightarrow> ('p dns_route list \<times> (string \<times> dns_named_list) list) option" where
  "dns_build_routes k env olds array [] acc = Some acc"
| "dns_build_routes k env olds array (ro # ros) (routes, amap) =
     (case dns_route_list k env olds ro of
        None \<Rightarrow> None
      | Some l \<Rightarrow>
          dns_build_routes k env olds array ros
            (routes @ [\<lparr>dr_Name = do_Name ro, dr_AllowList = l, dr_Proxy = do_Proxy ro, dr_Servers = do_Servers ro,
                        dr_ptr = (array, length routes)\<rparr>], AList.update (do_Name ro) l amap))"

text \<open>The servers, those of the routes included; \<open>None\<close> when a check fails.\<close>

definition dns_checked ::
  "nat \<Rightarrow> environment \<Rightarrow> (string \<Rightarrow> string) \<Rightarrow> 'p dns_options \<Rightarrow> 'p dns_options option" where
  "dns_checked k env sha1 new =
     (let Servers = (if dt_Servers new = [] \<and> (dn_Name (dt_Server new) \<noteq> [] \<or> dn_IP (dt_Server new) \<noteq> [])
                     then [dt_Server new] else dt_Servers new)
      in case checkServers Servers of
           None \<Rightarrow> None
         | Some Servers \<Rightarrow>
             (case dns_prepare_routes k env sha1 0 (dt_Routes new) of
                None \<Rightarrow> None
              | Some Routes \<Rightarrow>
                  if Servers = [] \<and> Routes = [] then None
                  else Some (new\<lparr>dt_Servers := Servers, dt_Routes := Routes\<rparr>)))"

definition dns_load_routes ::
  "('p \<Rightarrow> string) \<Rightarrow> nat \<Rightarrow> environment \<Rightarrow> 'p dns_options \<Rightarrow> 'p dns_options \<Rightarrow> 'p dns_options option" where
  "dns_load_routes psum k env old new =
     (if dns_routesEqual psum (dt_Routes new) (dt_Routes old) then Some new
      else case dns_build_routes k env (dt_allowListMap old) (dt_allocs new) (dt_Routes new) ([], []) of
             None \<Rightarrow> None
           | Some (routes, amap) \<Rightarrow>
               Some (new\<lparr>dt_routes := routes, dt_allowListMap := amap,
                         dt_routeCache := if routes \<noteq> [] then Some (dt_allocs new) else None,
                         dt_allocs := dt_allocs new + 1\<rparr>))"

definition dns_load_cache :: "('p \<Rightarrow> string) \<Rightarrow> 'p dns_options \<Rightarrow> 'p dns_options \<Rightarrow> 'p dns_options" where
  "dns_load_cache psum old new =
     (let new1 = (if dt_Cache new \<noteq> dt_Cache old then new\<lparr>dt_dnsCache := None\<rparr> else new)
      in if dt_Cache new1 \<and> (dt_dnsCache new1 = None \<or> shouldResetDNSCache psum old new1)
         then new1\<lparr>dt_dnsCache := Some (dt_allocs new1), dt_allocs := dt_allocs new1 + 1\<rparr>
         else new1)"

definition dns_load ::
  "('p \<Rightarrow> string) \<Rightarrow> nat \<Rightarrow> environment \<Rightarrow> (string \<Rightarrow> string) \<Rightarrow> 'p dns_options \<Rightarrow> 'p dns_options \<Rightarrow> 'p dns_options option" where
  "dns_load psum k env sha1 old new0 =
     (let new = new0\<lparr>dt_routes := dt_routes old, dt_routeCache := dt_routeCache old,
                     dt_allowListMap := dt_allowListMap old, dt_dnsCache := dt_dnsCache old, dt_allocs := dt_allocs old\<rparr>
      in case dns_checked k env sha1 new of
           None \<Rightarrow> None
         | Some new1 \<Rightarrow> map_option (dns_load_cache psum old) (dns_load_routes psum k env old new1))"

definition dns_step ::
  "('p \<Rightarrow> string) \<Rightarrow> nat \<Rightarrow> environment \<Rightarrow> (string \<Rightarrow> string) \<Rightarrow> (string \<Rightarrow> bool)
     \<Rightarrow> 'p dns_options job_input \<Rightarrow> 'p dns_options job \<Rightarrow> 'p dns_options job" where
  "dns_step psum k env sha1 = job_step dt_ListenAddr (dns_load psum k env sha1)"

end
