(* ===== verification/Dns_Answer.thy ===== *)
theory Dns_Answer
  imports Dns_Options
begin

text \<open>
  Messages of \<open>dnstun\<close>: the name that is asked for after redirects, the processing of an answer
  (owner names, clamped TTLs, IPv4-only filtering, deadline), the cache, the aging of a cached answer
  before it is served, and the frames that carry messages over TCP. Messages are structured values;
  the DNS library's \<open>Pack\<close> and \<open>Unpack\<close> only come in as failures. \<open>RRs\<close> goes through the records of
  all sections. Times are integers in nanoseconds, without the rounding of \<open>Seconds()\<close> to a float.
\<close>

datatype rdata = RR_A addr | RR_AAAA addr | RR_other string

record rr_header =
  rh_Name :: string
  rh_TTL :: "32 word"

record rr =
  rr_Header :: "rr_header option"   \<comment> \<open>\<open>None\<close> is \<open>nil\<close>\<close>
  rr_data :: rdata

record dns_msg =
  dm_ID :: "16 word"
  dm_Question :: "(string \<times> 16 word) list"
  dm_Answer :: "rr list"
  dm_rest :: "rr list"               \<comment> \<open>the other sections\<close>

record dns_result =
  dq_Message :: dns_msg
  dq_IPList :: "addr list"
  dq_Time :: int
  dq_Deadline :: "int option"        \<comment> \<open>\<open>None\<close> is the zero time\<close>

type_synonym dns_key = "string \<times> 16 word"

definition dns_RRs :: "dns_msg \<Rightarrow> rr list" where
  "dns_RRs m = dm_Answer m @ dm_rest m"

fun is_AAAA :: "rdata \<Rightarrow> bool" where
  "is_AAAA (RR_AAAA a) \<longleftrightarrow> True"
| "is_AAAA _ \<longleftrightarrow> False"

section \<open>Processing an answer\<close>

definition MaxUint32 :: "32 word" where "MaxUint32 = 0xFFFFFFFF"

text \<open>The name that the exchange asks for; \<open>Fqdn\<close> is the library's.\<close>

definition dns_target :: "(string \<Rightarrow> string) \<Rightarrow> (string \<times> string) list \<Rightarrow> string \<Rightarrow> string" where
  "dns_target Fqdn redirects fqdn =
     (let v = map_get redirects (TrimSuffix fqdn ''.'') in if v \<noteq> [] then Fqdn v else fqdn)"

definition clamp_ttl :: "int \<Rightarrow> int \<Rightarrow> 32 word \<Rightarrow> 32 word" where
  "clamp_ttl mn mx t =
     (if mn > 0 \<or> mx > 0 then
        let ttl0 = uint t * second;
            ttl1 = (if mn > 0 \<and> ttl0 < mn then mn else ttl0);
            ttl2 = (if mx > 0 \<and> ttl1 > mx then mx else ttl1)
        in if ttl2 \<noteq> ttl0 then word_of_int ((ttl2 + second - 1) div second) else t
      else t)"

record answer_state =
  as_minTTL :: "32 word"
  as_excludeIPv6 :: bool
  as_IPList :: "addr list"

text \<open>The body of the loop over the records.\<close>

definition answer_header_step :: "'p dns_options \<Rightarrow> string \<Rightarrow> string \<Rightarrow> rr_header \<Rightarrow> rr_header" where
  "answer_header_step opts z fqdn h =
     h\<lparr>rh_Name := if rh_Name h = z then fqdn else rh_Name h,
       rh_TTL := clamp_ttl (dt_TTL_Min opts) (dt_TTL_Max opts) (rh_TTL h)\<rparr>"

definition answer_data_step :: "'p dns_options \<Rightarrow> rdata \<Rightarrow> answer_state \<Rightarrow> answer_state" where
  "answer_data_step opts d st =
     (case d of
        RR_A a \<Rightarrow> if addr_IsValid a then st\<lparr>as_IPList := as_IPList st @ [a]\<rparr> else st
      | RR_AAAA a \<Rightarrow>
          if dt_IPv4_Only opts then st\<lparr>as_excludeIPv6 := True\<rparr>
          else if addr_IsValid a then st\<lparr>as_IPList := as_IPList st @ [a]\<rparr> else st
      | RR_other _ \<Rightarrow> st)"

definition answer_rr :: "'p dns_options \<Rightarrow> string \<Rightarrow> string \<Rightarrow> rr \<Rightarrow> answer_state \<Rightarrow> rr \<times> answer_state" where
  "answer_rr opts z fqdn r st =
     (case rr_Header r of
        None \<Rightarrow> (r, answer_data_step opts (rr_data r) st)
      | Some h0 \<Rightarrow>
          let h = answer_header_step opts z fqdn h0
          in (r\<lparr>rr_Header := Some h\<rparr>,
              answer_data_step opts (rr_data r) (if as_minTTL st > rh_TTL h then st\<lparr>as_minTTL := rh_TTL h\<rparr> else st)))"

fun answer_loop :: "'p dns_options \<Rightarrow> string \<Rightarrow> string \<Rightarrow> rr list \<Rightarrow> answer_state \<Rightarrow> rr list \<times> answer_state" where
  "answer_loop opts z fqdn [] st = ([], st)"
| "answer_loop opts z fqdn (r # rs) st =
     (let (r', st1) = answer_rr opts z fqdn r st; (rs', st2) = answer_loop opts z fqdn rs st1 in (r' # rs', st2))"

definition dns_answer :: "'p dns_options \<Rightarrow> string \<Rightarrow> string \<Rightarrow> dns_msg \<Rightarrow> int \<Rightarrow> dns_msg \<Rightarrow> dns_result" where
  "dns_answer opts z fqdn query now m =
     (let (rrs, st) = answer_loop opts z fqdn (dns_RRs m) \<lparr>as_minTTL = MaxUint32, as_excludeIPv6 = False, as_IPList = []\<rparr>;
          n = length (dm_Answer m);
          answer = (if as_excludeIPv6 st then filter (\<lambda>r. \<not> is_AAAA (rr_data r)) (take n rrs) else take n rrs)
      in \<lparr>dq_Message = m\<lparr>dm_Question := if z \<noteq> fqdn then dm_Question query else dm_Question m,
                         dm_Answer := answer, dm_rest := drop n rrs\<rparr>,
          dq_IPList = as_IPList st, dq_Time = now,
          dq_Deadline = if as_minTTL st < MaxUint32 then Some (now + uint (as_minTTL st) * second) else None\<rparr>)"

section \<open>The cache\<close>

type_synonym dns_cache = "(dns_key \<times> dns_result) list"

definition cache_lookup :: "int \<Rightarrow> dns_key \<Rightarrow> dns_cache \<Rightarrow> dns_result option" where
  "cache_lookup now key cache =
     (case map_of cache key of
        None \<Rightarrow> None
      | Some r \<Rightarrow> (case dq_Deadline r of None \<Rightarrow> None | Some d \<Rightarrow> if d > now then Some r else None))"

definition cache_store :: "dns_key \<Rightarrow> dns_result \<Rightarrow> dns_cache \<Rightarrow> dns_cache" where
  "cache_store key r cache = (if dq_Deadline r \<noteq> None then AList.update key r cache else cache)"

definition dns_TTL :: "int \<Rightarrow> dns_result \<Rightarrow> int option" where
  "dns_TTL now r = map_option (\<lambda>d. (d - now) div second * second) (dq_Deadline r)"

section \<open>Serving an answer\<close>

definition age_rr :: "32 word \<Rightarrow> rr \<Rightarrow> rr" where
  "age_rr n r =
     (case rr_Header r of
        None \<Rightarrow> r
      | Some h \<Rightarrow>
          if rh_TTL h \<noteq> 0 then r\<lparr>rr_Header := Some (h\<lparr>rh_TTL := if rh_TTL h > n then rh_TTL h - n else 0\<rparr>)\<rparr> else r)"

text \<open>What is written to a client for the query; the cached message is copied, never changed.\<close>

definition serve_result :: "int \<Rightarrow> dns_msg \<Rightarrow> dns_result \<Rightarrow> dns_msg" where
  "serve_result now query qr =
     (let m = (dq_Message qr)\<lparr>dm_ID := dm_ID query\<rparr>;
          n = word_of_int ((now - dq_Time qr) div second)
      in if n > 0 then m\<lparr>dm_Answer := map (age_rr n) (dm_Answer m), dm_rest := map (age_rr n) (dm_rest m)\<rparr> else m)"

section \<open>Frames\<close>

definition writeMsgData :: "8 word list \<Rightarrow> 8 word list" where
  "writeMsgData data =
     (let n = (word_of_nat (length data) :: 16 word)
      in [ucast (drop_bit 8 n), ucast n] @ data)"

text \<open>The framing of messages on a TCP stream, as a reader takes it apart (RFC 1035, 4.2.2).\<close>

fun read_frame :: "8 word list \<Rightarrow> (8 word list \<times> 8 word list) option" where
  "read_frame (h # l # data) =
     (let n = unat h * 256 + unat l in if length data < n then None else Some (take n data, drop n data))"
| "read_frame _ = None"

section \<open>What an answer is made of\<close>

definition rewrite_rr :: "'p dns_options \<Rightarrow> string \<Rightarrow> string \<Rightarrow> rr \<Rightarrow> rr" where
  "rewrite_rr opts z fqdn r = r\<lparr>rr_Header := map_option (answer_header_step opts z fqdn) (rr_Header r)\<rparr>"

lemma answer_rr_fst: "fst (answer_rr opts z fqdn r st) = rewrite_rr opts z fqdn r"
  by (cases r) (simp add: answer_rr_def rewrite_rr_def Let_def split: option.split)

lemma answer_data_step_minTTL [simp]: "as_minTTL (answer_data_step opts d st) = as_minTTL st"
  by (simp add: answer_data_step_def split: rdata.split)

lemma answer_data_step_exclude [simp]:
  "as_excludeIPv6 (answer_data_step opts d st) \<longleftrightarrow> as_excludeIPv6 st \<or> dt_IPv4_Only opts \<and> is_AAAA d"
  by (simp add: answer_data_step_def split: rdata.split)

text \<open>The TTL of a record in seconds.\<close>

definition rr_seconds :: "rr \<Rightarrow> int option" where
  "rr_seconds r = map_option (\<lambda>h. uint (rh_TTL h)) (rr_Header r)"

lemma answer_rr_state:
  "uint (as_minTTL (snd (answer_rr opts z fqdn r st))) =
     (case rr_seconds (rewrite_rr opts z fqdn r) of None \<Rightarrow> uint (as_minTTL st) | Some s \<Rightarrow> min (uint (as_minTTL st)) s)"
  "as_excludeIPv6 (snd (answer_rr opts z fqdn r st)) \<longleftrightarrow>
     as_excludeIPv6 st \<or> dt_IPv4_Only opts \<and> is_AAAA (rr_data r)"
  by (auto simp: answer_rr_def rewrite_rr_def rr_seconds_def Let_def word_less_def min_def split: option.split)

lemma answer_loop_spec:
  "answer_loop opts z fqdn rs st = (rs', st') \<Longrightarrow>
     rs' = map (rewrite_rr opts z fqdn) rs \<and>
     uint (as_minTTL st') = fold min (List.map_filter rr_seconds rs') (uint (as_minTTL st)) \<and>
     (as_excludeIPv6 st' \<longleftrightarrow> as_excludeIPv6 st \<or> dt_IPv4_Only opts \<and> (\<exists>r \<in> set rs. is_AAAA (rr_data r)))"
proof (induction rs arbitrary: st rs' st')
  case Nil
  then show ?case by (simp add: List.map_filter_simps)
next
  case (Cons r rs)
  obtain r1 st1 where one: "answer_rr opts z fqdn r st = (r1, st1)" by fastforce
  obtain rs2 st2 where rest: "answer_loop opts z fqdn rs st1 = (rs2, st2)" by fastforce
  have "rs' = r1 # rs2" "st' = st2" using Cons.prems one rest by simp_all
  with Cons.IH [OF rest] answer_rr_fst [of opts z fqdn r st] answer_rr_state [of opts z fqdn r st] one show ?case
    by (auto simp: List.map_filter_simps min.commute split: option.splits)
qed

lemma fold_min_le: "(fold min xs (a :: int) \<le> a) \<and> (\<forall>x \<in> set xs. fold min xs a \<le> x)"
proof (induction xs arbitrary: a)
  case (Cons x xs)
  from Cons [of "min x a"] show ?case by auto
qed simp

lemma set_map_filter: "set (List.map_filter f xs) = {y. \<exists>x \<in> set xs. f x = Some y}"
  by (induction xs) (auto simp: List.map_filter_simps split: option.splits)

lemma rewrite_data [simp]: "rr_data (rewrite_rr opts z fqdn r) = rr_data r"
  by (simp add: rewrite_rr_def)

lemma dns_answer_parts:
  fixes opts :: "'p dns_options"
  obtains minTTL :: "32 word" where
    "dns_RRs (dq_Message (dns_answer opts z fqdn query now m)) =
       filter (\<lambda>r. \<not> (dt_IPv4_Only opts \<and> is_AAAA (rr_data r))) (map (rewrite_rr opts z fqdn) (dm_Answer m)) @
       map (rewrite_rr opts z fqdn) (dm_rest m)"
    "dm_Answer (dq_Message (dns_answer opts z fqdn query now m)) =
       filter (\<lambda>r. \<not> (dt_IPv4_Only opts \<and> is_AAAA (rr_data r))) (map (rewrite_rr opts z fqdn) (dm_Answer m))"
    "dq_Time (dns_answer opts z fqdn query now m) = now"
    "dq_Deadline (dns_answer opts z fqdn query now m) =
       (if minTTL < MaxUint32 then Some (now + uint minTTL * second) else None)"
    "\<forall>r \<in> set (map (rewrite_rr opts z fqdn) (dns_RRs m)). \<forall>s. rr_seconds r = Some s \<longrightarrow> uint minTTL \<le> s"
proof -
  define rrs where "rrs = map (rewrite_rr opts z fqdn) (dns_RRs m)"
  let ?st = "\<lparr>as_minTTL = MaxUint32, as_excludeIPv6 = False, as_IPList = []\<rparr>"
  obtain rs st where loop: "answer_loop opts z fqdn (dns_RRs m) ?st = (rs, st)" by fastforce
  note spec = answer_loop_spec [OF loop]
  have rs: "rs = rrs" using spec by (simp add: rrs_def)
  have min: "\<forall>r \<in> set rrs. \<forall>s. rr_seconds r = Some s \<longrightarrow> uint (as_minTTL st) \<le> s"
    using spec fold_min_le [of "List.map_filter rr_seconds rrs" "uint MaxUint32"] by (auto simp: rs set_map_filter)
  have split: "take (length (dm_Answer m)) rrs = map (rewrite_rr opts z fqdn) (dm_Answer m)"
    "drop (length (dm_Answer m)) rrs = map (rewrite_rr opts z fqdn) (dm_rest m)"
    by (simp_all add: rrs_def dns_RRs_def take_map drop_map)
  have answer: "(if as_excludeIPv6 st then filter (\<lambda>r. \<not> is_AAAA (rr_data r)) xs else xs) =
      filter (\<lambda>r. \<not> (dt_IPv4_Only opts \<and> is_AAAA (rr_data r))) xs"
    if "xs = map (rewrite_rr opts z fqdn) (dm_Answer m)" for xs
    using spec that by (auto simp: dns_RRs_def filter_id_conv intro!: filter_cong)
  have "dns_answer opts z fqdn query now m =
      \<lparr>dq_Message = m\<lparr>dm_Question := if z \<noteq> fqdn then dm_Question query else dm_Question m,
         dm_Answer := filter (\<lambda>r. \<not> (dt_IPv4_Only opts \<and> is_AAAA (rr_data r))) (map (rewrite_rr opts z fqdn) (dm_Answer m)),
         dm_rest := map (rewrite_rr opts z fqdn) (dm_rest m)\<rparr>, dq_IPList = as_IPList st, dq_Time = now,
       dq_Deadline = if as_minTTL st < MaxUint32 then Some (now + uint (as_minTTL st) * second) else None\<rparr>"
    by (simp only: dns_answer_def loop rs split answer [OF refl] Let_def prod.case)
  then show thesis by (intro that [of "as_minTTL st", OF _ _ _ _ min [unfolded rrs_def]]) (simp_all add: dns_RRs_def)
qed

section \<open>Bounds of TTLs\<close>

definition ttl_bounds_ok :: "'p dns_options \<Rightarrow> bool" where
  "ttl_bounds_ok opts \<longleftrightarrow> dt_TTL_Min opts \<le> uint MaxUint32 * second \<and> dt_TTL_Max opts \<le> uint MaxUint32 * second"

definition ttl_within :: "int \<Rightarrow> int \<Rightarrow> 32 word \<Rightarrow> bool" where
  "ttl_within mn mx t \<longleftrightarrow>
     (mn > 0 \<and> (mx > 0 \<longrightarrow> mn \<le> mx) \<longrightarrow> mn \<le> uint t * second) \<and>
     (mx > 0 \<longrightarrow> uint t * second < mx + second)"

lemma ceil_bounds: "d \<le> (d + second - 1) div second * second \<and> (d + second - 1) div second * second < d + second" for d :: int
  using div_mult_mod_eq [of "d + second - 1" second] pos_mod_bound [of second "d + second - 1"]
    pos_mod_sign [of second "d + second - 1"] by linarith

lemma uint_32: "uint (t :: 32 word) \<le> uint MaxUint32"
  using uint_bounded [of t] by (simp add: MaxUint32_def)

lemma uint_ceil:
  assumes "0 \<le> d" "d \<le> uint MaxUint32 * second"
  shows "uint (word_of_int ((d + second - 1) div second) :: 32 word) = (d + second - 1) div second"
proof -
  have "(d + second - 1) div second * second < (uint MaxUint32 + 1) * second"
    using ceil_bounds [of d] assms(2) by (simp add: MaxUint32_def)
  then have "0 \<le> (d + second - 1) div second" "(d + second - 1) div second < 2 ^ 32"
    using assms(1) by (simp_all add: MaxUint32_def pos_imp_zdiv_nonneg_iff)
  then show ?thesis by (simp add: uint_word_of_int)
qed

lemma clamp_within:
  assumes "mn \<le> uint MaxUint32 * second" "mx \<le> uint MaxUint32 * second"
  shows "ttl_within mn mx (clamp_ttl mn mx t)"
proof -
  have t: "0 \<le> uint t" "uint t \<le> uint MaxUint32"
    using uint_32 by simp_all
  define d where "d = (let ttl1 = (if mn > 0 \<and> uint t * second < mn then mn else uint t * second) in
    if mx > 0 \<and> ttl1 > mx then mx else ttl1)"
  have d: "0 \<le> d" "d \<le> uint MaxUint32 * second" using t assms by (auto simp: d_def Let_def)
  show ?thesis
  proof (cases "(mn > 0 \<or> mx > 0) \<and> d \<noteq> uint t * second")
    case True
    then have "clamp_ttl mn mx t = word_of_int ((d + second - 1) div second)"
      by (simp add: clamp_ttl_def d_def Let_def)
    then have u: "uint (clamp_ttl mn mx t) = (d + second - 1) div second" using uint_ceil [OF d] by simp
    have "mn > 0 \<and> (mx > 0 \<longrightarrow> mn \<le> mx) \<longrightarrow> mn \<le> d" "mx > 0 \<longrightarrow> d \<le> mx" by (auto simp: d_def Let_def)
    with ceil_bounds [of d] show ?thesis unfolding ttl_within_def u by linarith
  next
    case False
    then have "clamp_ttl mn mx t = t" by (auto simp: clamp_ttl_def d_def Let_def)
    with False show ?thesis by (auto simp: ttl_within_def d_def Let_def split: if_splits)
  qed
qed

section \<open>Aging\<close>

lemma age_seconds: "rr_seconds (age_rr n r) = map_option (\<lambda>s. max 0 (s - uint n)) (rr_seconds r)"
proof (cases "rr_Header r")
  case (Some h)
  have "uint (rh_TTL h - n) = uint (rh_TTL h) - uint n" if "n < rh_TTL h"
    using that by (intro uint_sub_lem [THEN iffD1]) (simp add: word_less_def)
  with Some show ?thesis by (auto simp: age_rr_def rr_seconds_def word_less_def)
qed (simp add: age_rr_def rr_seconds_def)

lemma serve_result_aged:
  assumes "dq_Time r \<le> now" "now - dq_Time r < 2 ^ 32 * second"
  shows "map rr_seconds (dns_RRs (serve_result now query r)) =
    map (\<lambda>x. map_option (\<lambda>s. max 0 (s - (now - dq_Time r) div second)) (rr_seconds x)) (dns_RRs (dq_Message r))"
proof -
  define n :: "32 word" where "n = word_of_int ((now - dq_Time r) div second)"
  have "0 \<le> (now - dq_Time r) div second" "(now - dq_Time r) div second < 2 ^ 32" using assms by linarith+
  then have n: "uint n = (now - dq_Time r) div second" by (simp add: n_def uint_word_of_int)
  have "rr_seconds (if n > 0 then age_rr n x else x) = map_option (\<lambda>s. max 0 (s - uint n)) (rr_seconds x)" for x
  proof (cases "n > 0")
    case False
    then have "n = 0" by (simp add: word_gt_0)
    then show ?thesis by (cases "rr_seconds x") (auto simp: rr_seconds_def)
  qed (simp add: age_seconds)
  moreover have "dns_RRs (serve_result now query r) = map (\<lambda>x. if n > 0 then age_rr n x else x) (dns_RRs (dq_Message r))"
    by (simp add: serve_result_def n_def dns_RRs_def Let_def)
  ultimately show ?thesis by (simp add: n)
qed

text \<open>
  C38. A cached answer ages as it should. The cache is looked up at one time, by an exchange, and the
  client is served at a later time, by another goroutine. Then every record that the client gets has
  the TTL it was stored with, less the whole seconds since the answer was received, and not below 0.
  It is 0 only if the entry, alive when it was looked up, has expired on the way to the client.
\<close>
theorem cached_answer_ages:
  assumes "cache_lookup now key cache = Some r" and "r = dns_answer opts z fqdn q0 t m"
    and "t \<le> now" "now \<le> now'" "now' - t < 2 ^ 32 * second"
  shows "map rr_seconds (dns_RRs (serve_result now' query r)) =
      map (\<lambda>x. map_option (\<lambda>s. max 0 (s - (now' - t) div second)) (rr_seconds x)) (dns_RRs (dq_Message r)) \<and>
    ((\<exists>x\<in>set (dns_RRs (serve_result now' query r)). rr_seconds x = Some 0) \<longrightarrow>
       (\<exists>d. dq_Deadline r = Some d \<and> now < d \<and> d \<le> now'))"
proof -
  obtain minTTL where p: "dns_RRs (dq_Message r) =
       filter (\<lambda>r. \<not> (dt_IPv4_Only opts \<and> is_AAAA (rr_data r))) (map (rewrite_rr opts z fqdn) (dm_Answer m)) @
       map (rewrite_rr opts z fqdn) (dm_rest m)" "dq_Time r = t"
    "dq_Deadline r = (if minTTL < MaxUint32 then Some (t + uint minTTL * second) else None)"
    "\<forall>r \<in> set (map (rewrite_rr opts z fqdn) (dns_RRs m)). \<forall>s. rr_seconds r = Some s \<longrightarrow> uint minTTL \<le> s"
    unfolding assms(2) by (rule dns_answer_parts)
  have life: "\<forall>x \<in> set (dns_RRs (dq_Message r)). \<forall>s. rr_seconds x = Some s \<longrightarrow> uint minTTL \<le> s"
    using p(1,4) by (auto simp: dns_RRs_def)
  have d: "dq_Deadline r = Some (t + uint minTTL * second)" "now < t + uint minTTL * second"
    using assms(1) p(3) by (auto simp: cache_lookup_def split: option.splits if_splits)
  have aged: "map rr_seconds (dns_RRs (serve_result now' query r)) =
      map (\<lambda>x. map_option (\<lambda>s. max 0 (s - (now' - t) div second)) (rr_seconds x)) (dns_RRs (dq_Message r))"
    using serve_result_aged [of r now' query] p(2) assms(3-5) by simp
  have "t + uint minTTL * second \<le> now'"
    if "x \<in> set (dns_RRs (serve_result now' query r))" "rr_seconds x = Some 0" for x
  proof -
    from that have "Some 0 \<in> set (map rr_seconds (dns_RRs (serve_result now' query r)))" by force
    then obtain y s where "y \<in> set (dns_RRs (dq_Message r))" "rr_seconds y = Some s" "max 0 (s - (now' - t) div second) = 0"
      unfolding aged by (auto simp: eq_commute [of "Some 0"])
    with life have "uint minTTL \<le> (now' - t) div second" by fastforce
    then show ?thesis by linarith
  qed
  with aged d show ?thesis by blast
qed

text \<open>
  An address for 300 seconds, looked up after 10.5 seconds and served at once; and looked up just
  before the end and served after it.
\<close>

definition example_msg :: dns_msg where
  "example_msg = \<lparr>dm_ID = 7, dm_Question = [(''a.'', 1)],
     dm_Answer = [\<lparr>rr_Header = Some \<lparr>rh_Name = ''b.'', rh_TTL = 300\<rparr>, rr_data = RR_A (Addr4 1)\<rparr>], dm_rest = []\<rparr>"

definition example_result :: dns_result where
  "example_result = dns_answer (dns_zero ()) ''b.'' ''a.'' example_msg 0 example_msg"

lemma example_result: "example_result = \<lparr>dq_Message = \<lparr>dm_ID = 7, dm_Question = [(''a.'', 1)],
     dm_Answer = [\<lparr>rr_Header = Some \<lparr>rh_Name = ''a.'', rh_TTL = 300\<rparr>, rr_data = RR_A (Addr4 1)\<rparr>], dm_rest = []\<rparr>,
   dq_IPList = [Addr4 1], dq_Time = 0, dq_Deadline = Some (300 * second)\<rparr>"
  by (simp add: example_result_def dns_answer_def example_msg_def dns_RRs_def answer_rr_def answer_header_step_def
      answer_data_step_def clamp_ttl_def dns_zero_def MaxUint32_def addr_IsValid_def)

lemma cached_answer_ages_witness:
  "map rr_seconds (dns_RRs (serve_result (10 * second + 500000000) example_msg example_result)) = [Some 290] \<and>
   map rr_seconds (dns_RRs (serve_result (300 * second) example_msg example_result)) = [Some 0]"
  using cached_answer_ages [of "10 * second + 500000000" "(''a.'', 1)" "[((''a.'', 1), example_result)]", OF _ example_result_def,
      of "10 * second + 500000000" example_msg]
    cached_answer_ages [of "300 * second - 1" "(''a.'', 1)" "[((''a.'', 1), example_result)]", OF _ example_result_def,
      of "300 * second" example_msg]
  by (simp add: example_result cache_lookup_def dns_RRs_def rr_seconds_def)

section \<open>Frames\<close>

lemma frame_bytes:
  assumes "n < 65536"
  shows "unat (ucast (drop_bit 8 (word_of_nat n :: 16 word)) :: 8 word) * 256 + unat (ucast (word_of_nat n :: 16 word) :: 8 word) = n"
proof -
  have "unat (word_of_nat n :: 16 word) = n" using assms by (simp add: unat_of_nat)
  then have "unat (ucast (drop_bit 8 (word_of_nat n :: 16 word)) :: 8 word) = n div 256 mod 256"
    "unat (ucast (word_of_nat n :: 16 word) :: 8 word) = n mod 256"
    by (simp_all add: unsigned_ucast_eq unsigned_drop_bit_eq drop_bit_eq_div take_bit_eq_mod unat_div_distrib)
  moreover have "n div 256 < 256" using assms by (simp add: div_less_iff_less_mult)
  ultimately show ?thesis by simp
qed

text \<open>
  C39. A message below 64 KiB is read back from the stream exactly as it was written, and the reader
  continues right after it. The length of a longer one is cut to 16 bits: 65537 bytes go out with the
  length 1, and the reader then takes the rest of the message for further messages.
\<close>
theorem frames_roundtrip:
  "(length data < 65536 \<longrightarrow> read_frame (writeMsgData data @ rest) = Some (data, rest)) \<and>
   (length data = 65537 \<longrightarrow> read_frame (writeMsgData data @ rest) = Some (take 1 data, drop 1 data @ rest))"
proof (intro conjI impI)
  assume "length data < 65536"
  then show "read_frame (writeMsgData data @ rest) = Some (data, rest)"
    by (simp add: writeMsgData_def frame_bytes Let_def del: unsigned_ucast_eq)
next
  assume len: "length data = 65537"
  then have "(word_of_nat (length data) :: 16 word) = 1" by simp
  then have "writeMsgData data = [0, 1] @ data" by (simp add: writeMsgData_def Let_def)
  with len show "read_frame (writeMsgData data @ rest) = Some (take 1 data, drop 1 data @ rest)" by simp
qed

lemma frames_roundtrip_witness:
  "read_frame (writeMsgData [1, 2, 3] @ [9]) = Some ([1, 2, 3], [9])"
  using frames_roundtrip [of "[1, 2, 3]" "[9]"] by simp

end
