(* ===== verification/Dns_Exchange.thy ===== *)
theory Dns_Exchange
  imports Dns_Answer
begin

text \<open>
  An exchange of \<open>dnstun\<close> (\<open>startExchange\<close>): the goroutine that sends the queries of one route to one
  of its servers, one at a time over a connection that it keeps. Modelled are its variables, the
  choice of a server, the connection's dial function, the calls on the connection for one query with
  their failures, and the loop that repeats until there is an answer. \<open>rand.IntN n\<close> is a number
  modulo \<open>n\<close>; what the network and the DNS library answer is an input.
\<close>

record dns_query =
  qu_Message :: dns_msg
  qu_Fqdn :: string
  qu_Qtype :: "16 word"

text \<open>A TLS configuration: the server name and whether the protocols of DNS over HTTPS are offered.\<close>

type_synonym tls_config = "string \<times> bool"

record tls_state =
  tl_config :: "tls_config option"
  tl_key :: "string \<times> string"
  tl_cache :: "((string \<times> string) \<times> tls_config) list"

record dns_conn =
  dc_hostport :: string
  dc_tls :: "tls_config option"       \<comment> \<open>\<open>None\<close>: no TLS\<close>
  dc_ReadTimeout :: int
  dc_WriteTimeout :: int

record 'p dns_exchange =
  ex_Route :: "'p dns_route option"
  ex_server :: DNServer
  ex_conn :: "dns_conn option"        \<comment> \<open>\<open>None\<close>: \<open>dnsConn.Net\<close> is \<open>nil\<close>\<close>
  ex_idle :: int
  ex_tls :: tls_state

definition dnsIdleTimeout :: int where "dnsIdleTimeout = 10 * second"
definition dnsReadTimeout :: int where "dnsReadTimeout = 2 * second"
definition dnsWriteTimeout :: int where "dnsWriteTimeout = 3 * second"

definition dns_newExchange :: "'p dns_route option \<Rightarrow> 'p dns_exchange" where
  "dns_newExchange r = \<lparr>ex_Route = r, ex_server = no_server, ex_conn = None, ex_idle = dnsIdleTimeout,
     ex_tls = \<lparr>tl_config = None, tl_key = ([], []), tl_cache = []\<rparr>\<rparr>"

section \<open>Connecting\<close>

definition use_tls :: "DNServer \<Rightarrow> tls_state \<Rightarrow> tls_config option \<times> tls_state" where
  "use_tls s t =
     (let key = (dn_Name s, dn_Over s)
      in if key = tl_key t then (tl_config t, t)
         else case map_of (tl_cache t) key of
                Some cfg \<Rightarrow> (Some cfg, t\<lparr>tl_config := Some cfg, tl_key := key\<rparr>)
              | None \<Rightarrow>
                  let cfg = (dn_Name s, dn_Over s = ''HTTPS'')
                  in (Some cfg, t\<lparr>tl_config := Some cfg, tl_key := key, tl_cache := AList.update key cfg (tl_cache t)\<rparr>))"

definition exchange_servers :: "'p dns_options \<Rightarrow> 'p dns_exchange \<Rightarrow> DNServer list" where
  "exchange_servers opts ex = (case ex_Route ex of None \<Rightarrow> dt_Servers opts | Some r \<Rightarrow> dr_Servers r)"

definition pos_or :: "int \<Rightarrow> int \<Rightarrow> int" where
  "pos_or t d = (if t > 0 then t else d)"

text \<open>A new connection to a random server; \<open>None\<close> when there are no servers.\<close>

definition exchange_connect :: "'p dns_options \<Rightarrow> nat \<Rightarrow> nat \<Rightarrow> 'p dns_exchange \<Rightarrow> 'p dns_exchange option" where
  "exchange_connect opts i j ex =
     (let servers = exchange_servers opts ex
      in if servers = [] then None
         else
           let s = servers ! (i mod length servers);
               host = (if dn_IP s \<noteq> [] then dn_IP s ! (j mod length (dn_IP s)) else dn_Name s);
               (cfg, tls) = (if dn_Over s = ''TLS'' \<or> dn_Over s = ''HTTPS'' then use_tls s (ex_tls ex) else (None, ex_tls ex))
           in Some (ex\<lparr>ex_server := s, ex_tls := tls, ex_idle := pos_or (dt_Idle_Timeout opts) dnsIdleTimeout,
                ex_conn := Some \<lparr>dc_hostport = dns_hostport s host, dc_tls = cfg,
                  dc_ReadTimeout = pos_or (dt_Read_Timeout opts) dnsReadTimeout,
                  dc_WriteTimeout = pos_or (dt_Write_Timeout opts) dnsWriteTimeout\<rparr>\<rparr>))"

text \<open>The dial function of the connection; it reads the options anew.\<close>

definition dns_getRemote ::
  "('p \<Rightarrow> string \<Rightarrow> 'e + 'c) \<Rightarrow> 'p dns_route option \<Rightarrow> string \<Rightarrow> bool \<Rightarrow> 'p dns_options \<times> bool \<Rightarrow> 'e remote_error + 'c" where
  "dns_getRemote dial r hostport cancelled out =
     (if cancelled then Inl CloseConn
      else if \<not> snd out then Inl CloseConn
      else dial_remote dial (case r of Some r \<Rightarrow> dr_Proxy r | None \<Rightarrow> dt_Proxy (fst out)) hostport)"

definition closeConnection :: "'p dns_exchange \<Rightarrow> 'p dns_exchange" where
  "closeConnection ex = ex\<lparr>ex_conn := None\<rparr>"

section \<open>A query on the connection\<close>

text \<open>Which calls succeed; \<open>nt_Unpack\<close> is the answer that \<open>Unpack\<close> finds.\<close>

record dns_net =
  nt_NewRequest :: bool
  nt_RoundTrip :: bool
  nt_Response :: bool
  nt_Pack :: bool
  nt_Write :: bool
  nt_Read :: bool
  nt_Unpack :: "dns_msg option"

datatype dns_call =
    CallSetTimeout int int
  | CallRoundTrip string string "string option"   \<comment> \<open>method, URL, and a path instead of the default\<close>
  | CallWrite
  | CallRead

definition dns_ask :: "dns_net \<Rightarrow> DNServer \<Rightarrow> dns_conn \<Rightarrow> dns_call list \<times> dns_msg option" where
  "dns_ask nt s c =
     (let set = CallSetTimeout (dc_ReadTimeout c) (dc_WriteTimeout c); clear = CallSetTimeout 0 0
      in if dn_Over s = ''HTTPS'' \<or> dn_Over s = ''HTTP'' then
           (if \<not> nt_NewRequest nt then ([], None)
            else
              let trip = CallRoundTrip (dns_method s) (dns_url s)
                    (if dn_Path s \<noteq> [] then Some (path_Join ''/'' (dn_Path s)) else None)
              in if \<not> nt_RoundTrip nt then ([set, trip], None)
                 else if \<not> nt_Response nt then ([set, trip], None)
                 else ([set, trip, clear], nt_Unpack nt))
         else
           (if \<not> nt_Pack nt then ([], None)
            else if \<not> nt_Write nt then ([set, CallWrite], None)
            else if \<not> nt_Read nt then ([set, CallWrite, set, CallRead], None)
            else ([set, CallWrite, set, CallRead, clear], nt_Unpack nt)))"

section \<open>The loop for one query\<close>

record 'p attempt_input =
  ai_ctx_err :: bool
  ai_query_err :: bool
  ai_opts :: "'p dns_options \<times> bool"
  ai_server :: nat
  ai_ip :: nat
  ai_net :: dns_net
  ai_now :: int

datatype attempt_result =
    AttemptReturn              \<comment> \<open>the exchange returns\<close>
  | AttemptCancelled           \<comment> \<open>the query was cancelled\<close>
  | AttemptAgain
  | AttemptResult dns_result

text \<open>One turn: perhaps a new connection, with options read anew, then the query.\<close>

definition exchange_ready :: "'p attempt_input \<Rightarrow> 'p dns_options \<times> 'p dns_exchange \<Rightarrow> ('p dns_options \<times> 'p dns_exchange) option" where
  "exchange_ready i oe =
     (if ex_conn (snd oe) \<noteq> None then Some oe
      else if \<not> snd (ai_opts i) then None
      else map_option (Pair (fst (ai_opts i))) (exchange_connect (fst (ai_opts i)) (ai_server i) (ai_ip i) (snd oe)))"

definition dns_attempt ::
  "(string \<Rightarrow> string) \<Rightarrow> dns_query \<Rightarrow> 'p attempt_input \<Rightarrow> 'p dns_options \<times> 'p dns_exchange
     \<Rightarrow> attempt_result \<times> ('p dns_options \<times> 'p dns_exchange) \<times> dns_call list" where
  "dns_attempt Fqdn q i oe =
     (if ai_ctx_err i then (AttemptReturn, oe, [])
      else if ai_query_err i then (AttemptCancelled, oe, [])
      else
        case exchange_ready i oe of
          None \<Rightarrow> (AttemptReturn, oe, [])
        | Some (opts, ex) \<Rightarrow>
            (case ex_conn ex of
               None \<Rightarrow> (AttemptReturn, oe, [])
             | Some c \<Rightarrow>
                 (case dns_ask (ai_net i) (ex_server ex) c of
                    (calls, None) \<Rightarrow> (AttemptAgain, (opts, closeConnection ex), calls)
                  | (calls, Some m) \<Rightarrow>
                      (AttemptResult (dns_answer opts (dns_target Fqdn (dt_Redirects opts) (qu_Fqdn q)) (qu_Fqdn q)
                         (qu_Message q) (ai_now i) m), (opts, ex), calls))))"

text \<open>The loop over the turns that the inputs give; without a result, it still runs.\<close>

fun dns_attempts ::
  "(string \<Rightarrow> string) \<Rightarrow> dns_query \<Rightarrow> 'p attempt_input list \<Rightarrow> 'p dns_options \<times> 'p dns_exchange
     \<Rightarrow> attempt_result \<times> ('p dns_options \<times> 'p dns_exchange) \<times> dns_call list" where
  "dns_attempts Fqdn q [] oe = (AttemptAgain, oe, [])"
| "dns_attempts Fqdn q (i # is) oe =
     (case dns_attempt Fqdn q i oe of
        (AttemptAgain, oe', calls) \<Rightarrow>
          (case dns_attempts Fqdn q is oe' of (r, oe'', calls') \<Rightarrow> (r, oe'', calls @ calls'))
      | r \<Rightarrow> r)"

section \<open>Invariants of an exchange\<close>

definition tls_good :: "tls_state \<Rightarrow> bool" where
  "tls_good t \<longleftrightarrow>
     (\<forall>key cfg. map_of (tl_cache t) key = Some cfg \<longrightarrow> cfg = (fst key, snd key = ''HTTPS'')) \<and>
     (if tl_key t = ([], []) then tl_config t = None else tl_config t = Some (fst (tl_key t), snd (tl_key t) = ''HTTPS''))"

lemma use_tls_good:
  assumes "tls_good t" "use_tls s t = (cfg, t')" "dn_Over s \<noteq> []"
  shows "cfg = Some (dn_Name s, dn_Over s = ''HTTPS'') \<and> tls_good t'"
proof (cases "(dn_Name s, dn_Over s) = tl_key t")
  case True
  then have "tl_key t = (dn_Name s, dn_Over s)" ..
  with assms show ?thesis by (simp add: use_tls_def tls_good_def)
next
  case False
  show ?thesis
  proof (cases "map_of (tl_cache t) (dn_Name s, dn_Over s)")
    case None
    let ?cfg = "(dn_Name s, dn_Over s = ''HTTPS'')"
    have "cfg = Some ?cfg" "t' = t\<lparr>tl_config := Some ?cfg, tl_key := (dn_Name s, dn_Over s),
        tl_cache := AList.update (dn_Name s, dn_Over s) ?cfg (tl_cache t)\<rparr>"
      using False None assms(2) by (auto simp: use_tls_def Let_def)
    with assms(1,3) show ?thesis by (simp add: tls_good_def update_conv')
  next
    case (Some c)
    from assms(1) have "map_of (tl_cache t) key = Some cfg \<Longrightarrow> cfg = (fst key, snd key = ''HTTPS'')" for key cfg
      by (simp add: tls_good_def del: split_paired_All)
    from this [OF Some] have c: "c = (dn_Name s, dn_Over s = ''HTTPS'')" by simp
    then have "cfg = Some c" "t' = t\<lparr>tl_config := Some c, tl_key := (dn_Name s, dn_Over s)\<rparr>"
      using False Some assms(2) by (auto simp: use_tls_def Let_def)
    with c assms(1,3) show ?thesis by (simp add: tls_good_def)
  qed
qed

definition conn_good :: "DNServer \<Rightarrow> dns_conn \<Rightarrow> bool" where
  "conn_good s c \<longleftrightarrow>
     (\<exists>host \<in> set (if dn_IP s \<noteq> [] then dn_IP s else [dn_Name s]). dc_hostport c = dns_hostport s host) \<and>
     dc_tls c = (if dn_Over s = ''TLS'' \<or> dn_Over s = ''HTTPS'' then Some (dn_Name s, dn_Over s = ''HTTPS'') else None) \<and>
     0 < dc_ReadTimeout c \<and> 0 < dc_WriteTimeout c"

definition exchange_good :: "'p dns_exchange \<Rightarrow> bool" where
  "exchange_good ex \<longleftrightarrow> tls_good (ex_tls ex) \<and> 0 < ex_idle ex \<and>
     (\<forall>c. ex_conn ex = Some c \<longrightarrow> conn_good (ex_server ex) c \<and>
        (\<forall>r. ex_Route ex = Some r \<longrightarrow> ex_server ex \<in> set (dr_Servers r)))"

lemma newExchange_good [simp]: "exchange_good (dns_newExchange r)" "ex_conn (dns_newExchange r) = None"
  "ex_Route (dns_newExchange r) = r"
  by (simp_all add: exchange_good_def dns_newExchange_def tls_good_def dnsIdleTimeout_def)

lemma pos_or_pos: "0 < d \<Longrightarrow> 0 < pos_or t d"
  by (simp add: pos_or_def)

lemma connect_good:
  assumes "exchange_good ex" "exchange_connect opts i j ex = Some ex'"
  shows "exchange_good ex' \<and> ex_Route ex' = ex_Route ex \<and> ex_conn ex' \<noteq> None \<and>
    ex_server ex' \<in> set (exchange_servers opts ex)"
proof -
  define servers where "servers = exchange_servers opts ex"
  define s where "s = servers ! (i mod length servers)"
  define host where "host = (if dn_IP s \<noteq> [] then dn_IP s ! (j mod length (dn_IP s)) else dn_Name s)"
  obtain cfg tls where t: "(if dn_Over s = ''TLS'' \<or> dn_Over s = ''HTTPS'' then use_tls s (ex_tls ex) else (None, ex_tls ex)) = (cfg, tls)"
    by fastforce
  have ne: "servers \<noteq> []" using assms(2) by (auto simp: exchange_connect_def servers_def Let_def)
  have ex': "ex' = ex\<lparr>ex_server := s, ex_tls := tls, ex_idle := pos_or (dt_Idle_Timeout opts) dnsIdleTimeout,
       ex_conn := Some \<lparr>dc_hostport = dns_hostport s host, dc_tls = cfg, dc_ReadTimeout = pos_or (dt_Read_Timeout opts) dnsReadTimeout,
         dc_WriteTimeout = pos_or (dt_Write_Timeout opts) dnsWriteTimeout\<rparr>\<rparr>"
    using assms(2) ne t by (simp add: exchange_connect_def servers_def [symmetric] s_def [symmetric] host_def [symmetric])
  have s: "s \<in> set servers" using ne by (simp add: s_def)
  have host: "host \<in> set (if dn_IP s \<noteq> [] then dn_IP s else [dn_Name s])" by (simp add: host_def)
  have tls: "tls_good tls \<and> cfg = (if dn_Over s = ''TLS'' \<or> dn_Over s = ''HTTPS'' then Some (dn_Name s, dn_Over s = ''HTTPS'') else None)"
  proof (cases "dn_Over s = ''TLS'' \<or> dn_Over s = ''HTTPS''")
    case True
    with t use_tls_good [of "ex_tls ex" s cfg tls] assms(1) show ?thesis by (auto simp: exchange_good_def)
  next
    case False
    with t assms(1) show ?thesis by (auto simp: exchange_good_def)
  qed
  have "ex_Route ex = Some r \<longrightarrow> s \<in> set (dr_Servers r)" for r using s by (auto simp: servers_def exchange_servers_def)
  moreover have "0 < pos_or t dnsIdleTimeout" "0 < pos_or t dnsReadTimeout" "0 < pos_or t dnsWriteTimeout" for t
    by (simp_all add: pos_or_def dnsIdleTimeout_def dnsReadTimeout_def dnsWriteTimeout_def)
  moreover from this tls host have "conn_good s \<lparr>dc_hostport = dns_hostport s host, dc_tls = cfg,
      dc_ReadTimeout = pos_or (dt_Read_Timeout opts) dnsReadTimeout, dc_WriteTimeout = pos_or (dt_Write_Timeout opts) dnsWriteTimeout\<rparr>"
    unfolding conn_good_def dns_conn.simps by (intro conjI bexI [where x = host]) blast+
  ultimately show ?thesis using tls s unfolding ex' exchange_good_def servers_def by simp
qed

lemma exchange_ready_good:
  assumes "exchange_good ex" "exchange_ready i (opts, ex) = Some (opts', ex')"
  shows "exchange_good ex' \<and> ex_Route ex' = ex_Route ex \<and> ex_conn ex' \<noteq> None"
proof (cases "ex_conn ex = None")
  case True
  then have "exchange_connect (fst (ai_opts i)) (ai_server i) (ai_ip i) ex = Some ex'"
    using assms(2) by (auto simp: exchange_ready_def split: if_splits)
  from connect_good [OF assms(1) this] show ?thesis by blast
next
  case False
  then show ?thesis using assms by (simp add: exchange_ready_def)
qed

lemma dns_attempt_cases:
  assumes "dns_attempt Fqdn q i oe = (r, oe', calls)"
  obtains (stops) "r = AttemptReturn \<or> r = AttemptCancelled" "oe' = oe" "calls = []"
  | (fails) opts ex c where "exchange_ready i oe = Some (opts, ex)" "ex_conn ex = Some c" "r = AttemptAgain"
      "oe' = (opts, closeConnection ex)" "dns_ask (ai_net i) (ex_server ex) c = (calls, None)"
  | (succeeds) opts ex c m where "exchange_ready i oe = Some (opts, ex)" "ex_conn ex = Some c"
      "r = AttemptResult (dns_answer opts (dns_target Fqdn (dt_Redirects opts) (qu_Fqdn q)) (qu_Fqdn q) (qu_Message q) (ai_now i) m)"
      "oe' = (opts, ex)" "dns_ask (ai_net i) (ex_server ex) c = (calls, Some m)"
proof (cases "ai_ctx_err i \<or> ai_query_err i")
  case True
  with assms stops show thesis by (auto simp: dns_attempt_def split: if_splits)
next
  case go: False
  show thesis
  proof (cases "exchange_ready i oe")
    case None
    with assms go stops show thesis by (simp add: dns_attempt_def)
  next
    case (Some oe1)
    obtain opts ex where oe1: "oe1 = (opts, ex)" by fastforce
    show thesis
    proof (cases "ex_conn ex")
      case None
      with assms go Some oe1 stops show thesis by (simp add: dns_attempt_def)
    next
      case c: (Some c)
      obtain calls' res where ask: "dns_ask (ai_net i) (ex_server ex) c = (calls', res)" by fastforce
      with assms go Some oe1 c fails succeeds show thesis by (cases res) (auto simp: dns_attempt_def)
    qed
  qed
qed

lemma attempt_good:
  assumes "exchange_good ex" "dns_attempt Fqdn q i (opts, ex) = (r, (opts', ex'), calls)"
  shows "exchange_good ex' \<and> ex_Route ex' = ex_Route ex"
  using assms(2)
proof (cases rule: dns_attempt_cases)
  case (fails opts1 ex1 c)
  from exchange_ready_good [OF assms(1) fails(1)] fails show ?thesis
    by (auto simp: exchange_good_def closeConnection_def)
next
  case (succeeds opts1 ex1 c m)
  with exchange_ready_good [OF assms(1) succeeds(1)] show ?thesis by simp
qed (use assms(1) in simp)

lemma attempts_good:
  "exchange_good ex \<Longrightarrow> dns_attempts Fqdn q is (opts, ex) = (r, (opts', ex'), calls) \<Longrightarrow>
     exchange_good ex' \<and> ex_Route ex' = ex_Route ex"
proof (induction "is" arbitrary: opts ex calls)
  case (Cons i "is")
  obtain r1 opts1 ex1 calls1 where one: "dns_attempt Fqdn q i (opts, ex) = (r1, (opts1, ex1), calls1)" by (metis prod_cases3 prod.collapse)
  note good1 = attempt_good [OF Cons.prems(1) one]
  show ?case
  proof (cases "r1 = AttemptAgain")
    case True
    obtain calls2 where "dns_attempts Fqdn q is (opts1, ex1) = (r, (opts', ex'), calls2)"
      using Cons.prems(2) one True by (auto split: prod.splits)
    with Cons.IH [of ex1 opts1 calls2] good1 show ?thesis by simp
  next
    case False
    then have "ex' = ex1" using Cons.prems(2) one by (cases r1) simp_all
    with good1 show ?thesis by simp
  qed
qed auto

section \<open>Where an exchange connects to\<close>

lemma dns_port_bounds: "0 < dns_port s \<and> dns_port s < 65536"
  using unsigned_less [of "dn_Port s"] unat_eq_zero [of "dn_Port s"]
  by (auto simp: dns_port_def defaultPort_def)

lemma hostport_split:
  "plain_host host \<Longrightarrow> SplitHostPort (dns_hostport s host) = Some (host, Itoa (dns_port s))"
  unfolding dns_hostport_def
  by (rule Split_Join) (simp_all add: plain_host_def digit_neq)

text \<open>
  The address an exchange dials reads back as what was configured: splitting it gives one of the
  server's IP addresses (also an IPv6 one, which is put in brackets), or else its name, and a
  decimal port, which is the server's port or the default of its protocol, never 0.
\<close>
theorem exchange_address_roundtrip:
  assumes "fst (snd (dns_attempts Fqdn q is (opts, dns_newExchange r))) = (opts', ex)" and "ex_conn ex = Some c"
    and "list_all plain_host (dn_Name (ex_server ex) # dn_IP (ex_server ex))"
  shows "\<exists>host port. SplitHostPort (dc_hostport c) = Some (host, Itoa port) \<and>
    host \<in> set (if dn_IP (ex_server ex) \<noteq> [] then dn_IP (ex_server ex) else [dn_Name (ex_server ex)]) \<and>
    port = (if dn_Port (ex_server ex) \<noteq> 0 then unat (dn_Port (ex_server ex)) else defaultPort (dn_Over (ex_server ex))) \<and>
    0 < port \<and> port < 65536"
proof -
  obtain res calls where "dns_attempts Fqdn q is (opts, dns_newExchange r) = (res, (opts', ex), calls)"
    using assms(1) by (metis prod.collapse)
  then have "exchange_good ex" using attempts_good [OF newExchange_good(1)] by blast
  then obtain host where "host \<in> set (if dn_IP (ex_server ex) \<noteq> [] then dn_IP (ex_server ex) else [dn_Name (ex_server ex)])"
    "dc_hostport c = dns_hostport (ex_server ex) host"
    using assms(2) unfolding exchange_good_def conn_good_def by blast
  moreover from this assms(3) have "plain_host host" by (auto simp: list_all_iff split: if_splits)
  ultimately have "\<exists>host. SplitHostPort (dc_hostport c) = Some (host, Itoa (dns_port (ex_server ex))) \<and>
      host \<in> set (if dn_IP (ex_server ex) \<noteq> [] then dn_IP (ex_server ex) else [dn_Name (ex_server ex)])"
    using hostport_split by auto
  then show ?thesis using dns_port_bounds [of "ex_server ex"] by (auto simp: dns_port_def)
qed

section \<open>Getting an answer\<close>

text \<open>A turn that the network lets through, and one that it does not.\<close>

definition turn_free :: "'p dns_exchange \<Rightarrow> 'p attempt_input \<Rightarrow> bool" where
  "turn_free ex i \<longleftrightarrow> \<not> ai_ctx_err i \<and> \<not> ai_query_err i \<and> snd (ai_opts i) \<and> exchange_servers (fst (ai_opts i)) ex \<noteq> []"

definition net_answers :: "dns_net \<Rightarrow> dns_msg \<Rightarrow> bool" where
  "net_answers nt m \<longleftrightarrow> nt_NewRequest nt \<and> nt_RoundTrip nt \<and> nt_Response nt \<and> nt_Pack nt \<and> nt_Write nt \<and> nt_Read nt \<and>
     nt_Unpack nt = Some m"

lemma ask_answers: "net_answers nt m \<Longrightarrow> snd (dns_ask nt s c) = Some m"
  by (simp add: net_answers_def dns_ask_def Let_def)

lemma ask_fails: "nt_Unpack nt = None \<Longrightarrow> snd (dns_ask nt s c) = None"
  by (simp add: dns_ask_def Let_def)

lemma turn_ready:
  assumes "turn_free ex i" "exchange_good ex"
  obtains opts' ex' c where "exchange_ready i (opts, ex) = Some (opts', ex')" "ex_conn ex' = Some c"
    "opts' = (if ex_conn ex = None then fst (ai_opts i) else opts)" "ex_Route ex' = ex_Route ex" "exchange_good ex'"
proof (cases "ex_conn ex = None")
  case True
  have "exchange_connect (fst (ai_opts i)) (ai_server i) (ai_ip i) ex \<noteq> None"
    using assms(1) by (auto simp: turn_free_def exchange_connect_def Let_def split: prod.splits)
  then obtain ex' where ex': "exchange_connect (fst (ai_opts i)) (ai_server i) (ai_ip i) ex = Some ex'" by blast
  with connect_good [OF assms(2) ex'] that True assms(1) show thesis
    by (fastforce simp: exchange_ready_def turn_free_def)
next
  case False
  with that assms show thesis by (auto simp: exchange_ready_def)
qed

lemma attempt_answers:
  assumes "turn_free ex i" "exchange_good ex" "net_answers (ai_net i) m"
  shows "fst (dns_attempt Fqdn q i (opts, ex)) =
    AttemptResult (let o' = (if ex_conn ex = None then fst (ai_opts i) else opts) in
      dns_answer o' (dns_target Fqdn (dt_Redirects o') (qu_Fqdn q)) (qu_Fqdn q) (qu_Message q) (ai_now i) m)"
proof -
  obtain opts' ex' c where r: "exchange_ready i (opts, ex) = Some (opts', ex')" "ex_conn ex' = Some c"
    "opts' = (if ex_conn ex = None then fst (ai_opts i) else opts)"
    by (rule turn_ready [OF assms(1,2)])
  obtain calls where "dns_ask (ai_net i) (ex_server ex') c = (calls, Some m)"
    using ask_answers [OF assms(3)] by (metis prod.collapse)
  with r(1,2) assms(1) show ?thesis by (simp add: dns_attempt_def turn_free_def r(3) [symmetric] Let_def)
qed

lemma attempt_fails:
  assumes "turn_free ex i" "exchange_good ex" "nt_Unpack (ai_net i) = None"
  shows "\<exists>opts' ex' calls. dns_attempt Fqdn q i (opts, ex) = (AttemptAgain, (opts', ex'), calls) \<and>
    ex_conn ex' = None \<and> ex_Route ex' = ex_Route ex \<and> exchange_good ex'"
proof -
  obtain opts' ex' c where r: "exchange_ready i (opts, ex) = Some (opts', ex')" "ex_conn ex' = Some c" "ex_Route ex' = ex_Route ex"
    by (rule turn_ready [OF assms(1,2)])
  obtain calls where "dns_ask (ai_net i) (ex_server ex') c = (calls, None)"
    using ask_fails [OF assms(3)] by (metis prod.collapse)
  with r(1,2) assms(1) have a: "dns_attempt Fqdn q i (opts, ex) = (AttemptAgain, (opts', closeConnection ex'), calls)"
    by (simp add: dns_attempt_def turn_free_def)
  with attempt_good [OF assms(2) a] show ?thesis by (simp add: closeConnection_def)
qed

lemma attempts_answer:
  assumes "exchange_good ex" "turn_free ex i" "net_answers (ai_net i) m"
    and "\<forall>j \<in> set fails. turn_free ex j \<and> nt_Unpack (ai_net j) = None"
  shows "fst (dns_attempts Fqdn q (fails @ [i]) (opts, ex)) =
    AttemptResult (let o' = (if ex_conn ex = None \<or> fails \<noteq> [] then fst (ai_opts i) else opts) in
      dns_answer o' (dns_target Fqdn (dt_Redirects o') (qu_Fqdn q)) (qu_Fqdn q) (qu_Message q) (ai_now i) m)"
  using assms
proof (induction fails arbitrary: opts ex)
  case Nil
  obtain res oe calls where "dns_attempt Fqdn q i (opts, ex) = (res, oe, calls)" by (metis prod_cases3)
  with attempt_answers [OF Nil.prems(2,1,3), of Fqdn q opts] show ?case by (simp add: Let_def)
next
  case (Cons j fails)
  obtain opts' ex' calls where one: "dns_attempt Fqdn q j (opts, ex) = (AttemptAgain, (opts', ex'), calls)"
    "ex_conn ex' = None" "ex_Route ex' = ex_Route ex" "exchange_good ex'"
    using attempt_fails [of ex j Fqdn q opts] Cons.prems(1,4) by auto
  have free: "turn_free ex' = turn_free ex" using one(3) by (auto simp: turn_free_def exchange_servers_def fun_eq_iff)
  from Cons.IH [OF one(4), of opts'] Cons.prems one(1,2) free show ?case by (auto split: prod.splits)
qed

text \<open>
  C40. A query does not fail because an attempt fails: the exchange closes the connection and tries
  again, and answers with the first answer that the network gives, processed with the options
  that it read when it last connected. Every turn needs a server to choose from.
\<close>
theorem exchange_answers:
  assumes "list_all (turn_free (dns_newExchange r)) (fails @ [i])"
    and "list_all (\<lambda>j. nt_Unpack (ai_net j) = None) fails" and "net_answers (ai_net i) m"
  shows "fst (dns_attempts Fqdn q (fails @ [i]) (opts, dns_newExchange r)) =
    AttemptResult (dns_answer (fst (ai_opts i)) (dns_target Fqdn (dt_Redirects (fst (ai_opts i))) (qu_Fqdn q)) (qu_Fqdn q)
      (qu_Message q) (ai_now i) m)"
  using attempts_answer [OF newExchange_good(1), of r i m fails Fqdn q opts] assms by (auto simp: list_all_iff Let_def)

text \<open>
  Without a server to choose from, the exchange returns and the query is left without an answer: nothing
  is sent on the query's channel, which stays open.
\<close>

lemma no_servers_no_answer:
  assumes "exchange_servers (fst (ai_opts i)) ex = []" "ex_conn ex = None" "\<not> ai_query_err i"
  shows "dns_attempt Fqdn q i (opts, ex) = (AttemptReturn, (opts, ex), [])"
  using assms by (simp add: dns_attempt_def exchange_ready_def exchange_connect_def Let_def)


text \<open>One server, \<open>::1\<close> over TLS: the first read fails, then an answer comes.\<close>

definition example_dns_options :: "unit dns_options" where
  "example_dns_options = (dns_zero ())\<lparr>dt_Servers :=
     [\<lparr>dn_Name = ''a'', dn_IP = [''::1''], dn_Over = ''TLS'', dn_Port = 0, dn_Path = [], dn_Method = []\<rparr>]\<rparr>"

definition example_turn :: "dns_msg option \<Rightarrow> unit attempt_input" where
  "example_turn a = \<lparr>ai_ctx_err = False, ai_query_err = False, ai_opts = (example_dns_options, True), ai_server = 0, ai_ip = 0,
     ai_net = \<lparr>nt_NewRequest = True, nt_RoundTrip = True, nt_Response = True, nt_Pack = True, nt_Write = True, nt_Read = a \<noteq> None,
       nt_Unpack = a\<rparr>, ai_now = 0\<rparr>"

definition example_query :: dns_query where
  "example_query = \<lparr>qu_Message = example_msg, qu_Fqdn = ''b.'', qu_Qtype = 1\<rparr>"

lemma exchange_answers_witness:
  "\<exists>r. fst (dns_attempts (\<lambda>s. s) example_query [example_turn None, example_turn (Some example_msg)]
      (example_dns_options, dns_newExchange None)) = AttemptResult r"
  using exchange_answers [of None "[example_turn None]" "example_turn (Some example_msg)" example_msg "\<lambda>s. s" example_query
      example_dns_options]
  by (simp add: turn_free_def example_turn_def exchange_servers_def dns_newExchange_def example_dns_options_def
      net_answers_def)

lemma exchange_address_roundtrip_witness:
  "\<exists>opts' ex c. fst (snd (dns_attempts (\<lambda>s. s) example_query [example_turn (Some example_msg)]
      (example_dns_options, dns_newExchange None))) = (opts', ex) \<and> ex_conn ex = Some c \<and>
     dc_hostport c = ''[::1]:853'' \<and>
     (\<exists>host port. SplitHostPort (dc_hostport c) = Some (host, Itoa port) \<and> host = ''::1'' \<and> port = 853)"
proof -
  have digits: "Itoa 853 = ''853''" by code_simp
  obtain ex where run: "fst (snd (dns_attempts (\<lambda>s. s) example_query [example_turn (Some example_msg)]
      (example_dns_options, dns_newExchange None))) = (example_dns_options, ex)"
    and ex: "ex_server ex = hd (dt_Servers example_dns_options)"
    "ex_conn ex = Some \<lparr>dc_hostport = ''[::1]:853'', dc_tls = Some (''a'', False), dc_ReadTimeout = 2 * second, dc_WriteTimeout = 3 * second\<rparr>"
    by (simp add: dns_attempt_def exchange_ready_def exchange_connect_def exchange_servers_def example_turn_def dns_newExchange_def
        example_dns_options_def dns_zero_def dns_ask_def use_tls_def dns_hostport_def JoinHostPort_def dns_port_def defaultPort_def
        pos_or_def dnsReadTimeout_def dnsWriteTimeout_def digits Let_def del: Itoa.simps)
  have "list_all plain_host (dn_Name (ex_server ex) # dn_IP (ex_server ex))"
    by (simp add: ex(1) example_dns_options_def plain_host_def)
  from exchange_address_roundtrip [OF run ex(2) this] run ex show ?thesis
    by (auto simp: example_dns_options_def defaultPort_def)
qed

end
