(* ===== verification/Dns_Tun.thy ===== *)
theory Dns_Tun
  imports Dns_Exchange
begin

text \<open>
  The goroutines of a \<open>dnstun\<close> job together: the loop of the job with its reloads, the worker that
  chooses routes and hands queries to exchanges, and the exchanges, which store answers in the cache.
  They share the caches through pointers, which options copied before a reload still hold; so the
  caches are in a store, by pointer. A step is what happens between two operations on channels.
\<close>

section \<open>Routes\<close>

type_synonym 'p route_map = "(string \<times> 'p dns_route option) list"

text \<open>The first route that allows a name after redirects.\<close>

definition dns_first_route :: "'p dns_options \<Rightarrow> string \<Rightarrow> 'p dns_route option" where
  "dns_first_route opts domain =
     (let v = map_get (dt_Redirects opts) domain; dn = (if v \<noteq> [] then v else domain)
      in find (\<lambda>r. dns_Allow (dnl_list (dr_AllowList r)) dn) (dt_routes opts))"

text \<open>The worker's lookup, through the route cache.\<close>

definition dns_find_route ::
  "'p dns_options \<Rightarrow> string \<Rightarrow> (nat \<Rightarrow> 'p route_map) \<Rightarrow> 'p dns_route option \<times> (nat \<Rightarrow> 'p route_map)" where
  "dns_find_route opts domain maps =
     (case dt_routeCache opts of
        None \<Rightarrow> (None, maps)
      | Some p \<Rightarrow>
          (case map_of (maps p) domain of
             Some r \<Rightarrow> (r, maps)
           | None \<Rightarrow>
               let r = dns_first_route opts domain
               in (r, maps(p := AList.update domain r (maps p)))))"

section \<open>The state\<close>

datatype 'p ex_state =
    Gone                                              \<comment> \<open>not started, or returned\<close>
  | Idle "'p dns_exchange"
  | Busy "'p dns_options" dns_query "'p dns_exchange"

text \<open>The worker waits for a query, or for an exchange (by number; is it a new one?) to take one.\<close>

datatype 'p worker =
    WaitQuery
  | WaitSend dns_query "'p dns_route option" nat bool

record 'p dns_system =
  sy_job :: "'p dns_options job"
  sy_route_maps :: "nat \<Rightarrow> 'p route_map"
  sy_dns_maps :: "nat \<Rightarrow> dns_cache"
  sy_worker :: "'p worker"
  sy_sex :: "('p dns_route option \<times> nat) list"      \<comment> \<open>\<open>sex\<close>: routes and numbers of exchanges\<close>
  sy_ex :: "nat \<Rightarrow> 'p ex_state"
  sy_next :: nat                                     \<comment> \<open>exchanges started so far\<close>
  sy_clients :: "nat \<Rightarrow> 'p dns_options option"        \<comment> \<open>connections, with the options they read when accepted\<close>
  sy_now :: int

definition dns_system_start :: "'p \<Rightarrow> 'p dns_system" where
  "dns_system_start p =
     \<lparr>sy_job = job_start (dns_zero p), sy_route_maps = \<lambda>_. [], sy_dns_maps = \<lambda>_. [], sy_worker = WaitQuery, sy_sex = [],
      sy_ex = \<lambda>_. Gone, sy_next = 0, sy_clients = Map.empty, sy_now = 0\<rparr>"

text \<open>Routes are compared by pointer.\<close>

definition same_route :: "'p dns_route option \<Rightarrow> 'p dns_route option \<Rightarrow> bool" where
  "same_route a b \<longleftrightarrow> map_option dr_ptr a = map_option dr_ptr b"

fun index_of :: "('a \<Rightarrow> bool) \<Rightarrow> 'a list \<Rightarrow> nat option" where
  "index_of P [] = None"
| "index_of P (x # xs) = (if P x then Some 0 else map_option Suc (index_of P xs))"

definition swap_delete :: "nat \<Rightarrow> 'a list \<Rightarrow> 'a list" where
  "swap_delete i xs = butlast (xs[i := last xs])"

section \<open>The worker\<close>

text \<open>Drop the exchanges that returned, and start a new one.\<close>

definition worker_new :: "dns_query \<Rightarrow> 'p dns_route option \<Rightarrow> 'p dns_system \<Rightarrow> 'p dns_system" where
  "worker_new q r s =
     s\<lparr>sy_sex := filter (\<lambda>(_, i). sy_ex s i \<noteq> Gone) (sy_sex s) @ [(r, sy_next s)],
       sy_ex := (sy_ex s)(sy_next s := Idle (dns_newExchange r)),
       sy_next := sy_next s + 1,
       sy_worker := WaitSend q r (sy_next s) True\<rparr>"

text \<open>A query arrives that the cache does not answer.\<close>

definition worker_route :: "dns_query \<Rightarrow> 'p dns_system \<Rightarrow> 'p dns_system" where
  "worker_route q s =
     (let (r, maps) = dns_find_route (jb_opts (sy_job s)) (TrimSuffix (qu_Fqdn q) ''.'') (sy_route_maps s);
          s1 = s\<lparr>sy_route_maps := maps\<rparr>
      in case index_of (\<lambda>(r', _). same_route r' r) (sy_sex s) of
           Some i \<Rightarrow> s1\<lparr>sy_worker := WaitSend q r (snd (sy_sex s ! i)) False\<rparr>
         | None \<Rightarrow> worker_new q r s1)"

definition options_lookup :: "'p dns_options \<Rightarrow> dns_query \<Rightarrow> 'p dns_system \<Rightarrow> dns_result option" where
  "options_lookup opts q s =
     (case dt_dnsCache opts of
        None \<Rightarrow> None
      | Some p \<Rightarrow> cache_lookup (sy_now s) (qu_Fqdn q, qu_Qtype q) (sy_dns_maps s p))"

text \<open>
  The handler of a connection answers a query for IPv6 addresses itself when there are to be none, or
  from the cache; else the query goes to the worker. The type 28 is AAAA; \<open>SetReply\<close> makes a reply
  without records, so the age of this one does not matter.
\<close>

definition client_lookup :: "(dns_msg \<Rightarrow> dns_msg) \<Rightarrow> 'p dns_options \<Rightarrow> dns_query \<Rightarrow> 'p dns_system \<Rightarrow> dns_result option" where
  "client_lookup SetReply opts q s =
     (if dt_IPv4_Only opts \<and> qu_Qtype q = 28
      then Some \<lparr>dq_Message = SetReply (qu_Message q), dq_IPList = [], dq_Time = 0, dq_Deadline = None\<rparr>
      else options_lookup opts q s)"

definition worker_receive :: "dns_query \<Rightarrow> 'p dns_system \<Rightarrow> dns_result option \<times> 'p dns_system" where
  "worker_receive q s =
     (case options_lookup (jb_opts (sy_job s)) q s of
        Some r \<Rightarrow> (Some r, s)
      | None \<Rightarrow> (None, worker_route q s))"

text \<open>The exchange that the worker waits for returned.\<close>

definition worker_gone :: "'p dns_system \<Rightarrow> 'p dns_system" where
  "worker_gone s =
     (case sy_worker s of
        WaitQuery \<Rightarrow> s
      | WaitSend q r i fresh \<Rightarrow>
          if fresh then s\<lparr>sy_worker := WaitQuery\<rparr>
          else case index_of (\<lambda>(r', _). same_route r' r) (sy_sex s) of
                 None \<Rightarrow> s
               | Some j \<Rightarrow> worker_new q r (s\<lparr>sy_sex := swap_delete j (sy_sex s)\<rparr>))"

section \<open>Exchanges\<close>

text \<open>An idle exchange takes a query: it reads the options and looks into the cache.\<close>

definition exchange_take :: "nat \<Rightarrow> dns_query \<Rightarrow> 'p dns_exchange \<Rightarrow> 'p dns_system \<Rightarrow> 'p ex_state" where
  "exchange_take i q ex s =
     (if \<not> jb_alive (sy_job s) then Gone
      else case options_lookup (jb_opts (sy_job s)) q s of
             Some r \<Rightarrow> Idle ex
           | None \<Rightarrow> Busy (jb_opts (sy_job s)) q ex)"

definition exchange_turn ::
  "(string \<Rightarrow> string) \<Rightarrow> 'p attempt_input \<Rightarrow> nat \<Rightarrow> 'p dns_system \<Rightarrow> dns_result option \<times> 'p dns_system" where
  "exchange_turn Fqdn inp i s =
     (case sy_ex s i of
        Busy opts0 q ex0 \<Rightarrow>
          (case dns_attempt Fqdn q (inp\<lparr>ai_opts := opts_out opts0 (sy_job s), ai_now := sy_now s\<rparr>) (opts0, ex0) of
             (AttemptReturn, _, _) \<Rightarrow> (None, s\<lparr>sy_ex := (sy_ex s)(i := Gone)\<rparr>)
           | (AttemptCancelled, (opts, ex), _) \<Rightarrow> (None, s\<lparr>sy_ex := (sy_ex s)(i := Idle ex)\<rparr>)
           | (AttemptAgain, (opts, ex), _) \<Rightarrow> (None, s\<lparr>sy_ex := (sy_ex s)(i := Busy opts q ex)\<rparr>)
           | (AttemptResult r, (opts, ex), _) \<Rightarrow>
               (Some r, s\<lparr>sy_ex := (sy_ex s)(i := Idle ex),
                          sy_dns_maps := (case dt_dnsCache opts of
                            None \<Rightarrow> sy_dns_maps s
                          | Some p \<Rightarrow> (sy_dns_maps s)(p := cache_store (qu_Fqdn q, qu_Qtype q) r (sy_dns_maps s p)))\<rparr>))
      | _ \<Rightarrow> (None, s))"

section \<open>Steps\<close>

text \<open>
  \<open>ok\<close> restricts the options that are loaded (to any, or to those with the same redirects, say);
  the files that rules include may change from load to load.
\<close>

inductive dns_sys_step ::
  "('p \<Rightarrow> string) \<Rightarrow> (string \<Rightarrow> string) \<Rightarrow> ('p dns_options \<Rightarrow> bool) \<Rightarrow> 'p dns_system \<Rightarrow> 'p dns_system \<Rightarrow> bool"
  for psum :: "'p \<Rightarrow> string" and Fqdn :: "string \<Rightarrow> string" and ok :: "'p dns_options \<Rightarrow> bool"
where
  job: "input_ok ok i \<Longrightarrow>
    dns_sys_step psum Fqdn ok s (s\<lparr>sy_job := dns_step psum k env sha1 listen i (sy_job s)\<rparr>)"
| accept: "jb_alive (sy_job s) \<Longrightarrow>
    dns_sys_step psum Fqdn ok s (s\<lparr>sy_clients := (sy_clients s)(c := Some (jb_opts (sy_job s)))\<rparr>)"
| hangup: "dns_sys_step psum Fqdn ok s (s\<lparr>sy_clients := (sy_clients s)(c := None)\<rparr>)"
| time: "0 \<le> d \<Longrightarrow> dns_sys_step psum Fqdn ok s (s\<lparr>sy_now := sy_now s + d\<rparr>)"
| query: "sy_worker s = WaitQuery \<Longrightarrow> jb_alive (sy_job s) \<Longrightarrow>
    dns_sys_step psum Fqdn ok s (snd (worker_receive q s))"
| cancel: "sy_worker s = WaitSend q r i fresh \<Longrightarrow> dns_sys_step psum Fqdn ok s (s\<lparr>sy_worker := WaitQuery\<rparr>)"
| gone: "sy_worker s = WaitSend q r i fresh \<Longrightarrow> sy_ex s i = Gone \<Longrightarrow> dns_sys_step psum Fqdn ok s (worker_gone s)"
| send: "sy_worker s = WaitSend q r i fresh \<Longrightarrow> sy_ex s i = Idle ex \<Longrightarrow>
    dns_sys_step psum Fqdn ok s (s\<lparr>sy_worker := WaitQuery, sy_ex := (sy_ex s)(i := exchange_take i q ex s)\<rparr>)"
| attempt: "sy_ex s i = Busy opts q ex \<Longrightarrow> dns_sys_step psum Fqdn ok s (snd (exchange_turn Fqdn inp i s))"
| timeout: "sy_ex s i = Idle ex \<Longrightarrow> dns_sys_step psum Fqdn ok s (s\<lparr>sy_ex := (sy_ex s)(i := Gone)\<rparr>)"

definition dns_reachable ::
  "('p \<Rightarrow> string) \<Rightarrow> (string \<Rightarrow> string) \<Rightarrow> ('p dns_options \<Rightarrow> bool) \<Rightarrow> 'p \<Rightarrow> 'p dns_system \<Rightarrow> bool" where
  "dns_reachable psum Fqdn ok p s \<longleftrightarrow> (dns_sys_step psum Fqdn ok)\<^sup>*\<^sup>* (dns_system_start p) s"

lemma dns_reachable_induct [consumes 1, case_names start step]:
  assumes "dns_reachable psum Fqdn ok p s" and "I (dns_system_start p)"
    and "\<And>s s'. I s \<Longrightarrow> dns_sys_step psum Fqdn ok s s' \<Longrightarrow> I s'"
  shows "I s"
  using assms(1) unfolding dns_reachable_def
  by (induction rule: rtranclp_induct) (use assms(2,3) in auto)

section \<open>One exchange per route\<close>

lemma index_of_Some: "index_of P xs = Some i \<Longrightarrow> i < length xs \<and> P (xs ! i)"
  by (induction xs arbitrary: i) (auto split: if_splits)

lemma index_of_None: "index_of P xs = None \<longleftrightarrow> (\<forall>x \<in> set xs. \<not> P x)"
  by (induction xs) auto

lemma swap_delete_map:
  assumes "distinct (map f xs)" "i < length xs"
  shows "distinct (map f (swap_delete i xs)) \<and> set (swap_delete i xs) = set xs - {xs ! i}"
proof (cases xs rule: rev_cases)
  case Nil
  with assms(2) show ?thesis by simp
next
  case (snoc ys z)
  have dist: "distinct (map f ys)" "distinct ys" "z \<notin> set ys" "f z \<notin> f ` set ys"
    using assms(1) snoc by (auto simp: distinct_map)
  show ?thesis
  proof (cases "i = length ys")
    case True
    with snoc dist show ?thesis by (auto simp: swap_delete_def)
  next
    case False
    then have i: "i < length ys" using assms(2) snoc by simp
    then have "swap_delete i xs = ys[i := z]" by (simp add: swap_delete_def snoc list_update_append)
    moreover have "distinct (map f (ys[i := z]))"
      using dist by (auto simp: map_update intro!: distinct_list_update)
    moreover have "set (ys[i := z]) = insert z (set ys - {ys ! i})" by (rule set_update_distinct [OF dist(2) i])
    moreover have "xs ! i = ys ! i" "ys ! i \<noteq> z" using i dist(3) by (auto simp: snoc nth_append)
    ultimately show ?thesis using snoc by auto
  qed
qed

text \<open>The key that routes are compared by, and the exchange in a state that is not \<open>Gone\<close>.\<close>

abbreviation sex_key :: "'p dns_route option \<times> nat \<Rightarrow> (nat \<times> nat) option" where
  "sex_key e \<equiv> map_option dr_ptr (fst e)"

fun ex_of :: "'p ex_state \<Rightarrow> 'p dns_exchange option" where
  "ex_of Gone = None"
| "ex_of (Idle ex) = Some ex"
| "ex_of (Busy _ _ ex) = Some ex"

lemma ex_of_None [simp]: "ex_of st = None \<longleftrightarrow> st = Gone"
  by (cases st) simp_all

definition sex_good :: "'p dns_system \<Rightarrow> bool" where
  "sex_good s \<longleftrightarrow>
     distinct (map sex_key (sy_sex s)) \<and> distinct (map snd (sy_sex s)) \<and>
     (\<forall>e \<in> set (sy_sex s). snd e < sy_next s) \<and>
     (\<forall>i ex. ex_of (sy_ex s i) = Some ex \<longrightarrow> (\<exists>e \<in> set (sy_sex s). snd e = i \<and> sex_key e = map_option dr_ptr (ex_Route ex)))"

definition worker_good :: "'p dns_system \<Rightarrow> bool" where
  "worker_good s \<longleftrightarrow>
     (\<forall>q r i fresh. sy_worker s = WaitSend q r i fresh \<longrightarrow>
        (\<exists>e \<in> set (sy_sex s). snd e = i \<and> sex_key e = map_option dr_ptr r))"

lemma worker_new_good:
  assumes good: "sex_good s" and new: "\<forall>e \<in> set (sy_sex s). sy_ex s (snd e) \<noteq> Gone \<longrightarrow> sex_key e \<noteq> map_option dr_ptr r"
  shows "sex_good (worker_new q r s) \<and> worker_good (worker_new q r s)"
proof -
  have gone: "sy_ex s i = Gone" if "i \<ge> sy_next s" for i
  proof (rule ccontr)
    assume "sy_ex s i \<noteq> Gone"
    then obtain ex where "ex_of (sy_ex s i) = Some ex" by (cases "sy_ex s i") simp_all
    with good that show False by (fastforce simp: sex_good_def)
  qed
  have live: "(\<exists>e \<in> set (filter (\<lambda>(_, i). sy_ex s i \<noteq> Gone) (sy_sex s)). snd e = i \<and> sex_key e = k) \<longleftrightarrow>
      sy_ex s i \<noteq> Gone \<and> (\<exists>e \<in> set (sy_sex s). snd e = i \<and> sex_key e = k)" for i k
    by force
  have "distinct (map sex_key (sy_sex (worker_new q r s)))" "distinct (map snd (sy_sex (worker_new q r s)))"
    using good new by (fastforce simp: sex_good_def worker_new_def distinct_map inj_on_def)+
  moreover have "\<forall>e \<in> set (sy_sex (worker_new q r s)). snd e < sy_next (worker_new q r s)"
    using good by (auto simp: sex_good_def worker_new_def)
  moreover have "\<exists>e \<in> set (sy_sex (worker_new q r s)). snd e = i \<and> sex_key e = map_option dr_ptr (ex_Route ex)"
    if "ex_of (sy_ex (worker_new q r s) i) = Some ex" for i ex
  proof (cases "i = sy_next s")
    case True
    with that show ?thesis by (auto simp: worker_new_def)
  next
    case False
    with that have ex: "ex_of (sy_ex s i) = Some ex" by (simp add: worker_new_def)
    then have "sy_ex s i \<noteq> Gone" by auto
    with ex good live [of i "map_option dr_ptr (ex_Route ex)"] show ?thesis
      by (auto simp: sex_good_def worker_new_def)
  qed
  ultimately show ?thesis by (auto simp: sex_good_def worker_good_def worker_new_def)
qed

lemma sex_good_change:
  assumes "sex_good s" "sy_sex s' = sy_sex s" "sy_next s' = sy_next s"
    and "\<And>i ex. ex_of (sy_ex s' i) = Some ex \<Longrightarrow> \<exists>ex0. ex_of (sy_ex s i) = Some ex0 \<and> ex_Route ex0 = ex_Route ex"
  shows "sex_good s'"
  using assms unfolding sex_good_def by metis

lemma worker_good_change:
  assumes "worker_good s" "sy_sex s' = sy_sex s" "sy_worker s' = sy_worker s \<or> sy_worker s' = WaitQuery"
  shows "worker_good s'"
  using assms unfolding worker_good_def by auto


lemma worker_route_good:
  assumes "sex_good s"
  shows "sex_good (worker_route q s) \<and> worker_good (worker_route q s)"
proof -
  obtain r maps where fr: "dns_find_route (jb_opts (sy_job s)) (TrimSuffix (qu_Fqdn q) ''.'') (sy_route_maps s) = (r, maps)"
    by fastforce
  have good1: "sex_good (s\<lparr>sy_route_maps := maps\<rparr>)" using assms by (rule sex_good_change) auto
  show ?thesis
  proof (cases "index_of (\<lambda>(r', _). same_route r' r) (sy_sex s)")
    case None
    then have "\<forall>e \<in> set (sy_sex s). sex_key e \<noteq> map_option dr_ptr r"
      unfolding index_of_None by (auto simp: same_route_def)
    with worker_new_good [OF good1, of r q] fr None show ?thesis by (simp add: worker_route_def)
  next
    case (Some i)
    have "sy_sex s ! i \<in> set (sy_sex s)" "sex_key (sy_sex s ! i) = map_option dr_ptr r"
      using index_of_Some [OF Some] by (auto simp: same_route_def case_prod_unfold)
    with fr Some good1 show ?thesis
      by (auto simp: worker_route_def worker_good_def intro: sex_good_change)
  qed
qed

lemma worker_gone_good:
  assumes "sex_good s" "worker_good s" "sy_worker s = WaitSend q r i fresh" "sy_ex s i = Gone"
  shows "sex_good (worker_gone s) \<and> worker_good (worker_gone s)"
proof (cases fresh)
  case True
  then have "worker_gone s = s\<lparr>sy_worker := WaitQuery\<rparr>" using assms(3) by (simp add: worker_gone_def)
  with assms(1,2) show ?thesis by (auto intro: sex_good_change worker_good_change)
next
  case False
  obtain e where e: "e \<in> set (sy_sex s)" "snd e = i" "sex_key e = map_option dr_ptr r"
    using assms(2,3) by (auto simp: worker_good_def)
  then obtain j where j: "index_of (\<lambda>(r', _). same_route r' r) (sy_sex s) = Some j"
    by (cases "index_of (\<lambda>(r', _). same_route r' r) (sy_sex s)") (auto simp: index_of_None same_route_def)
  note jj = index_of_Some [OF j]
  have dist: "distinct (map sex_key (sy_sex s))" "distinct (map snd (sy_sex s))" using assms(1) by (simp_all add: sex_good_def)
  have "sex_key (sy_sex s ! j) = sex_key e" using jj e(3) by (simp add: same_route_def case_prod_unfold)
  then have ej: "e = sy_sex s ! j" using dist(1) e(1) jj by (metis inj_onD distinct_map nth_mem)
  let ?s = "s\<lparr>sy_sex := swap_delete j (sy_sex s)\<rparr>"
  note d1 = swap_delete_map [OF dist(1) jj [THEN conjunct1]] and d2 = swap_delete_map [OF dist(2) jj [THEN conjunct1]]
  have "\<exists>e' \<in> set (sy_sex ?s). snd e' = i' \<and> sex_key e' = map_option dr_ptr (ex_Route ex)" if ex: "ex_of (sy_ex ?s i') = Some ex" for i' ex
  proof -
    have "ex_of (sy_ex s i') = Some ex" using ex by simp
    then obtain e' where e': "e' \<in> set (sy_sex s)" "snd e' = i'" "sex_key e' = map_option dr_ptr (ex_Route ex)"
      using assms(1) unfolding sex_good_def by blast
    moreover have "e' \<noteq> e" using e(2) e'(2) ex assms(4) by auto
    ultimately show ?thesis using d1 ej by auto
  qed
  then have good: "sex_good ?s" using assms(1) d1 d2 by (auto simp: sex_good_def)
  have others: "sex_key e' \<noteq> map_option dr_ptr r" if "e' \<in> set (sy_sex ?s)" for e'
  proof
    assume "sex_key e' = map_option dr_ptr r"
    moreover have e': "e' \<in> set (sy_sex s)" "e' \<noteq> e" using that d1 ej by auto
    ultimately show False using inj_onD [of sex_key "set (sy_sex s)" e' e] dist(1) e(1,3) by (simp add: distinct_map)
  qed
  with worker_new_good [OF good, of r q] others False assms(3) j show ?thesis by (simp add: worker_gone_def)
qed


lemma exchange_turn_route:
  assumes "ex_of (sy_ex (snd (exchange_turn Fqdn inp i s)) j) = Some ex"
  shows "\<exists>ex0. ex_of (sy_ex s j) = Some ex0 \<and> ex_Route ex0 = ex_Route ex"
proof (cases "sy_ex s i")
  case (Busy opts0 q ex0)
  obtain res opts1 ex1 calls where a: "dns_attempt Fqdn q (inp\<lparr>ai_opts := opts_out opts0 (sy_job s), ai_now := sy_now s\<rparr>) (opts0, ex0)
      = (res, (opts1, ex1), calls)" by (metis prod_cases3 prod.collapse)
  have "ex_Route ex1 = ex_Route ex0"
    using a
  proof (cases rule: dns_attempt_cases)
    case (fails opts ex' c)
    have "ex_Route ex' = ex_Route ex0"
      using fails(1) by (auto simp: exchange_ready_def exchange_connect_def Let_def split: if_splits prod.splits)
    with fails show ?thesis by (simp add: closeConnection_def)
  next
    case (succeeds opts ex' c m)
    then show ?thesis
      by (auto simp: exchange_ready_def exchange_connect_def Let_def split: if_splits prod.splits)
  qed simp
  with assms a Busy show ?thesis
    by (cases "j = i"; cases res) (auto simp: exchange_turn_def)
qed (use assms in \<open>auto simp: exchange_turn_def\<close>)

lemma exchange_turn_frame [simp]:
  "sy_sex (snd (exchange_turn Fqdn inp i s)) = sy_sex s" "sy_next (snd (exchange_turn Fqdn inp i s)) = sy_next s"
  "sy_worker (snd (exchange_turn Fqdn inp i s)) = sy_worker s" "sy_job (snd (exchange_turn Fqdn inp i s)) = sy_job s"
  "sy_now (snd (exchange_turn Fqdn inp i s)) = sy_now s" "sy_clients (snd (exchange_turn Fqdn inp i s)) = sy_clients s"
  "sy_route_maps (snd (exchange_turn Fqdn inp i s)) = sy_route_maps s"
  by (auto simp: exchange_turn_def split: ex_state.split prod.split attempt_result.split)

lemma dns_step_sex:
  assumes "dns_sys_step psum Fqdn ok s s'" "sex_good s \<and> worker_good s"
  shows "sex_good s' \<and> worker_good s'"
  using assms(1)
proof (cases rule: dns_sys_step.cases)
  case (query q)
  show ?thesis
  proof (cases "options_lookup (jb_opts (sy_job s)) q s")
    case None
    with query(1) have "s' = worker_route q s" by (simp add: worker_receive_def)
    with worker_route_good [of s q] assms(2) show ?thesis by blast
  qed (use query assms(2) in \<open>simp add: worker_receive_def\<close>)
next
  case (gone q r i fresh)
  with worker_gone_good assms(2) show ?thesis by blast
next
  case (attempt i opts q ex inp)
  have "sex_good s'" unfolding attempt(1)
    by (rule sex_good_change [OF assms(2) [THEN conjunct1]]) (simp_all add: exchange_turn_route)
  moreover have "worker_good s'" unfolding attempt(1)
    by (rule worker_good_change [OF assms(2) [THEN conjunct2]]) simp_all
  ultimately show ?thesis ..
next
  case (send q r i fresh ex)
  have take: "ex_of (exchange_take i q ex s) = Some ex' \<Longrightarrow> ex' = ex" for ex'
    by (auto simp: exchange_take_def split: if_splits option.splits)
  have "sex_good s'" unfolding send(1)
    by (rule sex_good_change [OF assms(2) [THEN conjunct1]]) (use send(3) take in \<open>auto split: if_splits\<close>)
  moreover have "worker_good s'" unfolding send(1)
    by (rule worker_good_change [OF assms(2) [THEN conjunct2]]) simp_all
  ultimately show ?thesis ..
next
  case (cancel q r i fresh)
  with assms(2) show ?thesis by (auto intro: sex_good_change worker_good_change)
next
  case (timeout i ex)
  have "sex_good s'" unfolding timeout(1)
    by (rule sex_good_change [OF assms(2) [THEN conjunct1]]) (auto split: if_splits)
  moreover have "worker_good s'" unfolding timeout(1)
    by (rule worker_good_change [OF assms(2) [THEN conjunct2]]) simp_all
  ultimately show ?thesis ..
qed (use assms(2) in \<open>auto intro: sex_good_change worker_good_change\<close>)

lemma sex_reachable: "dns_reachable psum Fqdn ok p s \<Longrightarrow> sex_good s \<and> worker_good s"
proof (induction rule: dns_reachable_induct)
  case start
  show ?case by (simp add: sex_good_def worker_good_def dns_system_start_def)
next
  case (step s s')
  then show ?case using dns_step_sex by blast
qed

text \<open>
  C31. Whatever reloads, queries, timeouts and failures come in whatever order: two exchanges that run
  never serve the same route, and the exchange that the worker waits for, if it still runs, serves the
  route that was chosen for the query.
\<close>
theorem one_exchange_per_route:
  assumes "dns_reachable psum Fqdn ok p s"
  shows "(ex_of (sy_ex s i) = Some ex1 \<and> ex_of (sy_ex s j) = Some ex2 \<and> same_route (ex_Route ex1) (ex_Route ex2) \<longrightarrow> i = j) \<and>
    (sy_worker s = WaitSend q r i fresh \<and> ex_of (sy_ex s i) = Some ex1 \<longrightarrow> same_route (ex_Route ex1) r)"
proof (intro conjI impI)
  note good = sex_reachable [OF assms]
  have mem: "\<exists>e \<in> set (sy_sex s). snd e = i \<and> sex_key e = map_option dr_ptr (ex_Route ex)" if "ex_of (sy_ex s i) = Some ex" for i ex
    using good that unfolding sex_good_def by blast
  have dist: "inj_on sex_key (set (sy_sex s))" "inj_on snd (set (sy_sex s))" using good by (simp_all add: sex_good_def distinct_map)
  {
    assume h: "ex_of (sy_ex s i) = Some ex1 \<and> ex_of (sy_ex s j) = Some ex2 \<and> same_route (ex_Route ex1) (ex_Route ex2)"
    obtain e1 where e1: "e1 \<in> set (sy_sex s)" "snd e1 = i" "sex_key e1 = map_option dr_ptr (ex_Route ex1)" using mem h by blast
    obtain e2 where e2: "e2 \<in> set (sy_sex s)" "snd e2 = j" "sex_key e2 = map_option dr_ptr (ex_Route ex2)" using mem h by blast
    have "e1 = e2" using inj_onD [OF dist(1) _ e1(1) e2(1)] e1(3) e2(3) h by (simp add: same_route_def)
    with e1(2) e2(2) show "i = j" by simp
  next
    assume h: "sy_worker s = WaitSend q r i fresh \<and> ex_of (sy_ex s i) = Some ex1"
    obtain e1 where e1: "e1 \<in> set (sy_sex s)" "snd e1 = i" "sex_key e1 = map_option dr_ptr (ex_Route ex1)" using mem h by blast
    obtain e2 where e2: "e2 \<in> set (sy_sex s)" "snd e2 = i" "sex_key e2 = map_option dr_ptr r"
      using good h unfolding worker_good_def by blast
    have "e1 = e2" using inj_onD [OF dist(2) _ e1(1) e2(1)] e1(2) e2(2) by simp
    with e1(3) e2(3) show "same_route (ex_Route ex1) r" by (simp add: same_route_def)
  }
qed

definition example_state :: "unit dns_system" where
  "example_state = worker_new example_query None (dns_system_start ())"

lemma dns_example_reachable: "dns_reachable (\<lambda>_. []) (\<lambda>s. s) (\<lambda>_. True) () example_state"
proof -
  have "snd (worker_receive example_query (dns_system_start ())) = example_state"
    by (simp add: worker_receive_def options_lookup_def worker_route_def dns_find_route_def example_state_def
        dns_system_start_def job_start_def dns_zero_def)
  moreover have "dns_sys_step (\<lambda>_. []) (\<lambda>s. s) (\<lambda>_. True) (dns_system_start ()) (snd (worker_receive example_query (dns_system_start ())))"
    by (rule dns_sys_step.query) (simp_all add: dns_system_start_def job_start_def)
  ultimately show ?thesis by (simp add: dns_reachable_def)
qed

lemma one_exchange_per_route_witness:
  "sy_worker example_state = WaitSend example_query None 0 True \<and>
   ex_of (sy_ex example_state 0) = Some (dns_newExchange None) \<and> same_route (ex_Route (dns_newExchange (None :: unit dns_route option))) None"
  using one_exchange_per_route [OF dns_example_reachable, of 0 "dns_newExchange None" 0 "dns_newExchange None" example_query None True]
  by (simp add: example_state_def worker_new_def dns_system_start_def)

section \<open>The cache\<close>

text \<open>What the processing of an answer depends on.\<close>

type_synonym dns_settings = "bool \<times> int \<times> int \<times> (string \<rightharpoonup> string)"

definition settings_of :: "'p dns_options \<Rightarrow> dns_settings" where
  "settings_of o1 = (dt_IPv4_Only o1, dt_TTL_Min o1, dt_TTL_Max o1, map_of (dt_Redirects o1))"

definition entry_fits :: "(string \<Rightarrow> string) \<Rightarrow> int \<Rightarrow> dns_settings \<Rightarrow> dns_key \<Rightarrow> dns_result \<Rightarrow> 'p itself \<Rightarrow> bool" where
  "entry_fits Fqdn now st key r _ \<longleftrightarrow>
     (\<exists>(o1 :: 'p dns_options) q t m. settings_of o1 = st \<and> t \<le> now \<and>
        r = dns_answer o1 (dns_target Fqdn (dt_Redirects o1) (fst key)) (fst key) q t m)"

definition holders :: "'p dns_system \<Rightarrow> 'p dns_options set" where
  "holders s = insert (jb_opts (sy_job s)) ({opts. \<exists>i q ex. sy_ex s i = Busy opts q ex} \<union> ran (sy_clients s))"

definition dns_cache_good :: "(string \<Rightarrow> string) \<Rightarrow> (nat \<Rightarrow> dns_settings) \<Rightarrow> 'p dns_system \<Rightarrow> bool" where
  "dns_cache_good Fqdn \<sigma> s \<longleftrightarrow>
     (\<forall>o1 \<in> holders s. \<forall>p. dt_dnsCache o1 = Some p \<longrightarrow> \<sigma> p = settings_of o1 \<and> p < dt_allocs (jb_opts (sy_job s))) \<and>
     (\<forall>p key r. map_of (sy_dns_maps s p) key = Some r \<longrightarrow> entry_fits Fqdn (sy_now s) (\<sigma> p) key r TYPE('p)) \<and>
     (\<forall>p \<ge> dt_allocs (jb_opts (sy_job s)). sy_dns_maps s p = []) \<and>
     (dt_dnsCache (jb_opts (sy_job s)) \<noteq> None \<longrightarrow> dt_Cache (jb_opts (sy_job s)))"

lemma dns_cache_goodD:
  assumes "dns_cache_good Fqdn \<sigma> (s :: 'p dns_system)"
  shows "o1 \<in> holders s \<Longrightarrow> dt_dnsCache o1 = Some p \<Longrightarrow> \<sigma> p = settings_of o1 \<and> p < dt_allocs (jb_opts (sy_job s))"
    and "map_of (sy_dns_maps s p) key = Some r \<Longrightarrow> entry_fits Fqdn (sy_now s) (\<sigma> p) key r TYPE('p)"
    and "p \<ge> dt_allocs (jb_opts (sy_job s)) \<Longrightarrow> sy_dns_maps s p = []"
    and "dt_dnsCache (jb_opts (sy_job s)) \<noteq> None \<Longrightarrow> dt_Cache (jb_opts (sy_job s))"
  using assms unfolding dns_cache_good_def by blast+

lemma map_DeepEqual_iff: "map_DeepEqual a b \<longleftrightarrow> map_of a = map_of b"
proof
  assume eq: "map_DeepEqual a b"
  have "map_of a k = map_of b k" for k
  proof (cases "k \<in> set (map fst (a @ b))")
    case True
    with eq show ?thesis by (auto simp: map_DeepEqual_def list_all_iff)
  next
    case False
    then have "map_of a k = None" "map_of b k = None" by (auto simp: map_of_eq_None_iff)
    then show ?thesis by simp
  qed
  then show "map_of a = map_of b" ..
qed (simp add: map_DeepEqual_def list_all_iff)

lemma dns_checked_frame:
  assumes "dns_checked k env sha1 new = Some new'"
  shows "dt_dnsCache new' = dt_dnsCache new" "dt_allocs new' = dt_allocs new" "dt_routes new' = dt_routes new"
    "dt_routeCache new' = dt_routeCache new" "dt_allowListMap new' = dt_allowListMap new" "dt_Redirects new' = dt_Redirects new"
    "dt_ListenAddr new' = dt_ListenAddr new" "dt_Cache new' = dt_Cache new" "settings_of new' = settings_of new"
  using assms by (auto simp: dns_checked_def Let_def settings_of_def split: option.splits if_splits)

lemma dns_load_routes_frame:
  assumes "dns_load_routes psum k env old new = Some new'"
  shows "dt_dnsCache new' = dt_dnsCache new" "dt_allocs new \<le> dt_allocs new'" "dt_Redirects new' = dt_Redirects new"
    "dt_ListenAddr new' = dt_ListenAddr new" "dt_Cache new' = dt_Cache new" "settings_of new' = settings_of new"
  using assms by (auto simp: dns_load_routes_def settings_of_def split: option.splits if_splits)

lemma dns_load_cache_pointer:
  fixes old new :: "'p dns_options" and psum :: "'p \<Rightarrow> string"
  assumes "dt_dnsCache new = dt_dnsCache old" "dt_dnsCache old \<noteq> None \<longrightarrow> dt_Cache old"
  defines "new' \<equiv> dns_load_cache psum old new"
  shows "dt_dnsCache new' = None \<and> dt_allocs new' = dt_allocs new \<or>
    dt_dnsCache new' = dt_dnsCache old \<and> dt_Cache new' \<and> settings_of new' = settings_of old \<and> dt_allocs new' = dt_allocs new \<or>
    dt_dnsCache new' = Some (dt_allocs new) \<and> dt_Cache new' \<and> dt_allocs new' = dt_allocs new + 1"
  using assms
  by (auto simp: dns_load_cache_def Let_def shouldResetDNSCache_def settings_of_def map_DeepEqual_iff)

lemma dns_load_pointer:
  assumes "dns_load psum k env sha1 old new0 = Some new'" "dt_dnsCache old \<noteq> None \<longrightarrow> dt_Cache old"
  shows "dt_allocs old \<le> dt_allocs new' \<and> (dt_dnsCache new' \<noteq> None \<longrightarrow> dt_Cache new') \<and>
    (dt_dnsCache new' = None \<or> dt_dnsCache new' = dt_dnsCache old \<and> settings_of new' = settings_of old \<or>
     (\<exists>p. dt_dnsCache new' = Some p \<and> dt_allocs old \<le> p \<and> p < dt_allocs new'))"
proof -
  define new where "new = new0\<lparr>dt_routes := dt_routes old, dt_routeCache := dt_routeCache old,
    dt_allowListMap := dt_allowListMap old, dt_dnsCache := dt_dnsCache old, dt_allocs := dt_allocs old\<rparr>"
  obtain new1 new2 where n: "dns_checked k env sha1 new = Some new1" "dns_load_routes psum k env old new1 = Some new2"
    "new' = dns_load_cache psum old new2"
    using assms(1) by (auto simp: dns_load_def new_def [symmetric] Let_def split: option.splits)
  note f1 = dns_checked_frame [OF n(1)] and f2 = dns_load_routes_frame [OF n(2)]
  have "dt_dnsCache new2 = dt_dnsCache old" "dt_allocs old \<le> dt_allocs new2"
    using f1 f2 by (simp_all add: new_def)
  with dns_load_cache_pointer [of new2 old psum] assms(2) show ?thesis unfolding n(3) by auto
qed

lemma job_step_opts:
  "jb_opts (job_step on load listen i j) = jb_opts j \<or>
   (\<exists>new. i = Received (LoadEvent new) \<and> load (jb_opts j) new = Some (jb_opts (job_step on load listen i j)))"
proof (cases i)
  case (Received e)
  then show ?thesis by (cases e) (auto simp: job_defs Let_def split: option.split)
qed (auto simp: job_defs)

lemma entry_fits_later: "entry_fits Fqdn now st key r T \<Longrightarrow> now \<le> now' \<Longrightarrow> entry_fits Fqdn now' st key r T"
  unfolding entry_fits_def by (metis order_trans)

lemma cache_good_job:
  assumes good: "dns_cache_good Fqdn \<sigma> s"
  shows "\<exists>\<sigma>'. dns_cache_good Fqdn \<sigma>' (s\<lparr>sy_job := dns_step psum k env sha1 listen i (sy_job s)\<rparr>)"
proof -
  define j where "j = dns_step psum k env sha1 listen i (sy_job s)"
  define old where "old = jb_opts (sy_job s)"
  consider (same) "jb_opts j = old" | (load) new0 where "dns_load psum k env sha1 old new0 = Some (jb_opts j)"
    using job_step_opts [of dt_ListenAddr "dns_load psum k env sha1" listen i "sy_job s"]
    by (auto simp: j_def old_def dns_step_def)
  then show ?thesis
  proof cases
    case same
    with good have "dns_cache_good Fqdn \<sigma> (s\<lparr>sy_job := j\<rparr>)" by (simp add: dns_cache_good_def holders_def old_def)
    then show ?thesis unfolding j_def by blast
  next
    case load
    have on: "dt_dnsCache old \<noteq> None \<longrightarrow> dt_Cache old" using good by (simp add: dns_cache_good_def old_def)
    note ptr = dns_load_pointer [OF load on]
    define \<sigma>' where "\<sigma>' = (case dt_dnsCache (jb_opts j) of
      Some p \<Rightarrow> if dt_allocs old \<le> p then \<sigma>(p := settings_of (jb_opts j)) else \<sigma> | None \<Rightarrow> \<sigma>)"
    have below: "\<sigma>' p = \<sigma> p" if "p < dt_allocs old" for p using that by (auto simp: \<sigma>'_def split: option.split)
    have held: "\<sigma> p = settings_of o1 \<and> p < dt_allocs old" if "o1 \<in> holders s" "dt_dnsCache o1 = Some p" for o1 p
      using good that by (auto simp: dns_cache_good_def old_def)
    have own: "\<sigma>' p = settings_of (jb_opts j) \<and> p < dt_allocs (jb_opts j)" if p: "dt_dnsCache (jb_opts j) = Some p" for p
    proof -
      have oldp: "dt_dnsCache old = Some p \<Longrightarrow> \<sigma> p = settings_of old \<and> p < dt_allocs old"
        using held [of old p] by (simp add: holders_def old_def)
      show ?thesis using ptr p oldp below [of p] by (auto simp: \<sigma>'_def)
    qed
    have "\<sigma>' p = settings_of o1 \<and> p < dt_allocs (jb_opts j)"
      if "o1 \<in> holders (s\<lparr>sy_job := j\<rparr>)" "dt_dnsCache o1 = Some p" for o1 p
    proof (cases "o1 = jb_opts j")
      case True
      with own that show ?thesis by blast
    next
      case False
      then have "o1 \<in> holders s" using that(1) by (auto simp: holders_def)
      with held [OF this that(2)] below [of p] ptr show ?thesis by auto
    qed
    moreover have "sy_dns_maps s p = []" if "p \<ge> dt_allocs old" for p
      using good that by (auto simp: dns_cache_good_def old_def)
    moreover have "entry_fits Fqdn (sy_now s) (\<sigma>' p) key r TYPE('a)" if e: "map_of (sy_dns_maps s p) key = Some r" for p key r
    proof -
      have "p < dt_allocs old" using e calculation(2) [of p] by (cases "p < dt_allocs old") auto
      with dns_cache_goodD(2) [OF good e] below show ?thesis by simp
    qed
    ultimately have "dns_cache_good Fqdn \<sigma>' (s\<lparr>sy_job := j\<rparr>)"
      unfolding dns_cache_good_def using ptr by simp
    then show ?thesis unfolding j_def by blast
  qed
qed

lemma cache_good_change:
  assumes "dns_cache_good Fqdn \<sigma> s" "sy_job s' = sy_job s" "sy_dns_maps s' = sy_dns_maps s" "sy_now s \<le> sy_now s'"
    and "holders s' \<subseteq> holders s"
  shows "dns_cache_good Fqdn \<sigma> s'"
  unfolding dns_cache_good_def assms(2,3)
  using dns_cache_goodD [OF assms(1)] assms(4,5) entry_fits_later by blast

lemma cache_good_store:
  assumes good: "dns_cache_good Fqdn \<sigma> s" and o1: "o1 \<in> holders s" "dt_dnsCache o1 = Some p"
    and fits: "entry_fits Fqdn (sy_now s) (settings_of o1) key r TYPE('p)"
  shows "dns_cache_good Fqdn \<sigma> (s\<lparr>sy_dns_maps := (sy_dns_maps s)(p := cache_store key r (sy_dns_maps s p))\<rparr> :: 'p dns_system)"
    (is "dns_cache_good Fqdn \<sigma> ?s")
proof -
  note p = dns_cache_goodD(1) [OF good o1]
  have "entry_fits Fqdn (sy_now s) (\<sigma> p') key' r' TYPE('p)" if e: "map_of (sy_dns_maps ?s p') key' = Some r'" for p' key' r'
  proof (cases "map_of (sy_dns_maps s p') key' = Some r'")
    case True
    with dns_cache_goodD(2) [OF good True] show ?thesis by simp
  next
    case False
    with e have "p' = p" "key' = key" "r' = r" by (auto simp: cache_store_def update_conv' split: if_splits)
    with fits p show ?thesis by simp
  qed
  moreover have "sy_dns_maps ?s p' = []" if "p' \<ge> dt_allocs (jb_opts (sy_job s))" for p'
    using dns_cache_goodD(3) [OF good that] p that by auto
  moreover have "holders ?s = holders s" by (simp add: holders_def)
  ultimately show ?thesis
    using dns_cache_goodD(1,4) [OF good] unfolding dns_cache_good_def by simp
qed

lemma attempt_options:
  assumes "dns_attempt Fqdn q inp (opts0, ex0) = (res, (opts, ex), calls)"
  shows "opts = opts0 \<or> opts = fst (ai_opts inp) \<and> snd (ai_opts inp)"
    and "res = AttemptResult r \<Longrightarrow>
      \<exists>m. r = dns_answer opts (dns_target Fqdn (dt_Redirects opts) (qu_Fqdn q)) (qu_Fqdn q) (qu_Message q) (ai_now inp) m"
proof -
  have ready: "opts' = opts0 \<or> opts' = fst (ai_opts inp) \<and> snd (ai_opts inp)"
    if "exchange_ready inp (opts0, ex0) = Some (opts', ex')" for opts' ex'
    using that by (auto simp: exchange_ready_def split: if_splits)
  show "opts = opts0 \<or> opts = fst (ai_opts inp) \<and> snd (ai_opts inp)"
    using assms by (cases rule: dns_attempt_cases) (auto dest: ready)
  show "res = AttemptResult r \<Longrightarrow>
      \<exists>m. r = dns_answer opts (dns_target Fqdn (dt_Redirects opts) (qu_Fqdn q)) (qu_Fqdn q) (qu_Message q) (ai_now inp) m"
    using assms by (cases rule: dns_attempt_cases) auto
qed

lemma cache_good_turn:
  assumes good: "dns_cache_good Fqdn \<sigma> s" and busy: "sy_ex s i = Busy opts0 q ex0"
  shows "dns_cache_good Fqdn \<sigma> (snd (exchange_turn Fqdn inp0 i s))"
proof -
  define inp where "inp = inp0\<lparr>ai_opts := opts_out opts0 (sy_job s), ai_now := sy_now s\<rparr>"
  obtain res opts ex calls where a: "dns_attempt Fqdn q inp (opts0, ex0) = (res, (opts, ex), calls)"
    by (metis prod_cases3 prod.collapse)
  have o1: "opts \<in> holders s"
    using attempt_options(1) [OF a] busy by (auto simp: holders_def inp_def opts_out_def split: if_splits)
  have sub: "holders (s\<lparr>sy_ex := (sy_ex s)(i := st)\<rparr>) \<subseteq> holders s" if "st = Busy opts q ex \<or> st = Gone \<or> st = Idle ex" for st
    using that o1 by (auto simp: holders_def split: if_splits)
  have good1: "dns_cache_good Fqdn \<sigma> (s\<lparr>sy_ex := (sy_ex s)(i := st)\<rparr>)" if "st = Busy opts q ex \<or> st = Gone \<or> st = Idle ex" for st
    by (rule cache_good_change [OF good]) (use sub [OF that] in simp_all)
  show ?thesis
  proof (cases res)
    case (AttemptResult r)
    obtain m where r: "r = dns_answer opts (dns_target Fqdn (dt_Redirects opts) (qu_Fqdn q)) (qu_Fqdn q) (qu_Message q) (sy_now s) m"
      using attempt_options(2) [OF a AttemptResult] by (auto simp: inp_def)
    have turn: "snd (exchange_turn Fqdn inp0 i s) = s\<lparr>sy_ex := (sy_ex s)(i := Idle ex),
        sy_dns_maps := (case dt_dnsCache opts of None \<Rightarrow> sy_dns_maps s
          | Some p \<Rightarrow> (sy_dns_maps s)(p := cache_store (qu_Fqdn q, qu_Qtype q) r (sy_dns_maps s p)))\<rparr>"
      using a busy AttemptResult by (simp add: exchange_turn_def inp_def)
    show ?thesis
    proof (cases "dt_dnsCache opts")
      case None
      with turn good1 show ?thesis by simp
    next
      case (Some p)
      have "entry_fits Fqdn (sy_now s) (settings_of opts) (qu_Fqdn q, qu_Qtype q) r TYPE('a)"
        unfolding entry_fits_def using r by auto
      from cache_good_store [OF good o1 Some this] have
        g: "dns_cache_good Fqdn \<sigma> (s\<lparr>sy_dns_maps := (sy_dns_maps s)(p := cache_store (qu_Fqdn q, qu_Qtype q) r (sy_dns_maps s p))\<rparr>)" .
      have "holders (snd (exchange_turn Fqdn inp0 i s)) \<subseteq> holders s" using sub [of "Idle ex"] by (simp add: turn holders_def)
      with turn Some show ?thesis by (intro cache_good_change [OF g]) (simp_all add: holders_def)
    qed
  qed (use a busy good1 in \<open>simp_all add: exchange_turn_def inp_def\<close>)
qed

lemma worker_frame [simp]:
  "sy_job (worker_route q s) = sy_job s" "sy_dns_maps (worker_route q s) = sy_dns_maps s" "sy_now (worker_route q s) = sy_now s"
  "sy_clients (worker_route q s) = sy_clients s" "sy_clients (worker_gone s) = sy_clients s"
  "sy_job (worker_gone s) = sy_job s" "sy_dns_maps (worker_gone s) = sy_dns_maps s" "sy_now (worker_gone s) = sy_now s"
  by (auto simp: worker_route_def worker_gone_def worker_new_def Let_def split: prod.split option.split worker.split)

lemma worker_busy:
  "sy_ex (worker_route q s) i = Busy o1 q' ex \<Longrightarrow> sy_ex s i = Busy o1 q' ex"
  "sy_ex (worker_gone s) i = Busy o1 q' ex \<Longrightarrow> sy_ex s i = Busy o1 q' ex"
  by (auto simp: worker_route_def worker_gone_def worker_new_def Let_def
      split: prod.splits option.splits worker.splits if_splits)

lemma worker_holders: "holders (worker_route q s) \<subseteq> holders s" "holders (worker_gone s) \<subseteq> holders s"
  by (auto simp: holders_def dest: worker_busy)

lemma cache_good_step:
  assumes "dns_sys_step psum Fqdn ok s s'" "dns_cache_good Fqdn \<sigma> s"
  shows "\<exists>\<sigma>'. dns_cache_good Fqdn \<sigma>' s'"
  using assms(1)
proof (cases rule: dns_sys_step.cases)
  case (job i k env sha1 listen)
  then show ?thesis using cache_good_job [OF assms(2)] by blast
next
  case (accept c)
  then have "dns_cache_good Fqdn \<sigma> s'" by (intro cache_good_change [OF assms(2)]) (auto simp: holders_def ran_def)
  then show ?thesis by blast
next
  case (hangup c)
  then have "dns_cache_good Fqdn \<sigma> s'" by (intro cache_good_change [OF assms(2)]) (auto simp: holders_def ran_def)
  then show ?thesis by blast
next
  case (time d)
  then have "dns_cache_good Fqdn \<sigma> s'" by (intro cache_good_change [OF assms(2)]) (auto simp: holders_def)
  then show ?thesis by blast
next
  case (query q)
  have "dns_cache_good Fqdn \<sigma> (worker_route q s)"
    by (rule cache_good_change [OF assms(2)]) (simp_all add: worker_holders)
  with query(1) assms(2) show ?thesis by (cases "options_lookup (jb_opts (sy_job s)) q s") (auto simp: worker_receive_def)
next
  case (cancel q r i fresh)
  then have "dns_cache_good Fqdn \<sigma> s'" by (intro cache_good_change [OF assms(2)]) (auto simp: holders_def)
  then show ?thesis by blast
next
  case (gone q r i fresh)
  have "dns_cache_good Fqdn \<sigma> s'" unfolding gone(1)
    by (rule cache_good_change [OF assms(2)]) (simp_all add: worker_holders)
  then show ?thesis by blast
next
  case (send q r i fresh ex)
  have "exchange_take i q ex s \<in> {Gone, Idle ex, Busy (jb_opts (sy_job s)) q ex}"
    by (simp add: exchange_take_def split: option.split)
  with send(1) have "dns_cache_good Fqdn \<sigma> s'"
    by (intro cache_good_change [OF assms(2)]) (auto simp: holders_def split: if_splits)
  then show ?thesis by blast
next
  case (attempt i opts q ex inp)
  with cache_good_turn [OF assms(2)] show ?thesis by blast
next
  case (timeout i ex)
  then have "dns_cache_good Fqdn \<sigma> s'"
    by (intro cache_good_change [OF assms(2)]) (auto simp: holders_def split: if_splits)
  then show ?thesis by blast
qed

lemma cache_reachable: "dns_reachable psum Fqdn ok p s \<Longrightarrow> \<exists>\<sigma>. dns_cache_good Fqdn \<sigma> s"
proof (induction rule: dns_reachable_induct)
  case start
  have "dns_cache_good Fqdn (\<lambda>_. (False, 0, 0, Map.empty)) (dns_system_start p)"
    by (auto simp: dns_cache_good_def holders_def dns_system_start_def job_start_def dns_zero_def)
  then show ?case by blast
next
  case (step s s')
  then show ?case using cache_good_step by blast
qed

lemma dns_answer_settings:
  assumes "settings_of o1 = settings_of o2"
  shows "dns_answer o1 z fqdn q t m = dns_answer o2 z fqdn q t m"
    and "dns_target Fqdn (dt_Redirects o1) fqdn = dns_target Fqdn (dt_Redirects o2) fqdn"
proof -
  have "answer_header_step o1 z fqdn h = answer_header_step o2 z fqdn h" for h
    using assms by (simp add: answer_header_step_def settings_of_def)
  moreover have "answer_data_step o1 d st = answer_data_step o2 d st" for d st
    using assms by (simp add: answer_data_step_def settings_of_def split: rdata.split)
  ultimately have "answer_rr o1 z fqdn r st = answer_rr o2 z fqdn r st" for r st
    by (simp add: answer_rr_def split: option.split)
  then have "answer_loop o1 z fqdn rs st = answer_loop o2 z fqdn rs st" for rs st
    by (induction rs arbitrary: st) simp_all
  then show "dns_answer o1 z fqdn q t m = dns_answer o2 z fqdn q t m" by (simp add: dns_answer_def)
  show "dns_target Fqdn (dt_Redirects o1) fqdn = dns_target Fqdn (dt_Redirects o2) fqdn"
    using assms by (simp add: dns_target_def map_get_def settings_of_def)
qed

text \<open>An answer that the cache serves is one that was received, processed with the settings of whoever looks.\<close>

lemma cached_answer_current:
  assumes "dns_reachable psum Fqdn ok p (s :: 'p dns_system)" "opts \<in> holders s" "options_lookup opts q s = Some r"
  shows "\<exists>query t m. t \<le> sy_now s \<and>
    r = dns_answer opts (dns_target Fqdn (dt_Redirects opts) (qu_Fqdn q)) (qu_Fqdn q) query t m"
proof -
  obtain \<sigma> where good: "dns_cache_good Fqdn \<sigma> s" using cache_reachable [OF assms(1)] by blast
  obtain n where n: "dt_dnsCache opts = Some n" "map_of (sy_dns_maps s n) (qu_Fqdn q, qu_Qtype q) = Some r"
    using assms(3) by (auto simp: options_lookup_def cache_lookup_def split: option.splits if_splits)
  have "\<sigma> n = settings_of opts" using dns_cache_goodD(1) [OF good assms(2) n(1)] by simp
  with dns_cache_goodD(2) [OF good n(2)] obtain o1 :: "'p dns_options" and query t m where
    e: "settings_of o1 = settings_of opts" "t \<le> sy_now s"
      "r = dns_answer o1 (dns_target Fqdn (dt_Redirects o1) (qu_Fqdn q)) (qu_Fqdn q) query t m"
    unfolding entry_fits_def by auto
  then show ?thesis using dns_answer_settings [OF e(1)] by metis
qed

lemma rewrite_header:
  "rr_Header (rewrite_rr opts z fqdn r) = map_option (answer_header_step opts z fqdn) (rr_Header r)"
  by (simp add: rewrite_rr_def)

lemma dns_answer_settled:
  fixes opts :: "'p dns_options"
  assumes "x \<in> set (dns_RRs (dq_Message (dns_answer opts z fqdn query t m)))" "rr_Header x = Some h"
  shows "(rh_Name h = z \<longrightarrow> z = fqdn) \<and> (ttl_bounds_ok opts \<longrightarrow> ttl_within (dt_TTL_Min opts) (dt_TTL_Max opts) (rh_TTL h))"
proof -
  obtain y where "x = rewrite_rr opts z fqdn y"
    using assms(1) by (rule_tac dns_answer_parts [of opts z fqdn query t m]) auto
  then obtain h0 where "h = answer_header_step opts z fqdn h0" using assms(2) by (auto simp: rewrite_header)
  then show ?thesis by (auto simp: answer_header_step_def ttl_bounds_ok_def clamp_within)
qed

lemma dns_answer_ipv4:
  assumes "dt_IPv4_Only opts" "x \<in> set (dm_Answer (dq_Message (dns_answer opts z fqdn query t m)))"
  shows "\<not> is_AAAA (rr_data x)"
  using assms by (rule_tac dns_answer_parts [of opts z fqdn query t m]) auto

text \<open>
  C30. Under any reloads, and any races of exchanges with them, an answer from the cache obeys the
  options of whoever looks it up, the worker with those in force or a connection with those it was
  accepted under: no IPv6 address among the answers when they are to be IPv4 only, TTLs within the
  bounds, no record that still carries the name a query was redirected to; and it was received in the past.
\<close>
theorem dns_cache_current:
  assumes "dns_reachable psum Fqdn ok p s" and "opts = jb_opts (sy_job s) \<or> sy_clients s c = Some opts"
    and "options_lookup opts q s = Some r"
    and "ttl_bounds_ok opts" and "x \<in> set (dns_RRs (dq_Message r))" and "rr_Header x = Some h"
  shows "ttl_within (dt_TTL_Min opts) (dt_TTL_Max opts) (rh_TTL h) \<and>
    (rh_Name h = dns_target Fqdn (dt_Redirects opts) (qu_Fqdn q) \<longrightarrow> rh_Name h = qu_Fqdn q) \<and>
    (dt_IPv4_Only opts \<and> x \<in> set (dm_Answer (dq_Message r)) \<longrightarrow> \<not> is_AAAA (rr_data x)) \<and> dq_Time r \<le> sy_now s"
proof -
  have "opts \<in> holders s" using assms(2) by (auto simp: holders_def ran_def)
  then obtain query t m where t: "t \<le> sy_now s"
    and r: "r = dns_answer opts (dns_target Fqdn (dt_Redirects opts) (qu_Fqdn q)) (qu_Fqdn q) query t m"
    using cached_answer_current [OF assms(1) _ assms(3)] by blast
  have "dq_Time r = t" unfolding r by (rule dns_answer_parts) simp
  with dns_answer_settled [OF assms(5) [unfolded r] assms(6)] dns_answer_ipv4 [of opts x] assms(4) t r show ?thesis by auto
qed

section \<open>The route cache\<close>

definition route_cache_good :: "(string \<rightharpoonup> string) \<Rightarrow> 'p dns_system \<Rightarrow> bool" where
  "route_cache_good R s \<longleftrightarrow>
     (dt_routeCache (jb_opts (sy_job s)) = None \<longrightarrow> dt_routes (jb_opts (sy_job s)) = []) \<and>
     (\<forall>p. dt_routeCache (jb_opts (sy_job s)) = Some p \<longrightarrow>
        p < dt_allocs (jb_opts (sy_job s)) \<and> map_of (dt_Redirects (jb_opts (sy_job s))) = R \<and>
        (\<forall>d r. map_of (sy_route_maps s p) d = Some r \<longrightarrow> r = dns_first_route (jb_opts (sy_job s)) d)) \<and>
     (\<forall>p \<ge> dt_allocs (jb_opts (sy_job s)). sy_route_maps s p = [])"

lemma dns_first_route_Nil: "dt_routes opts = [] \<Longrightarrow> dns_first_route opts d = None"
  by (simp add: dns_first_route_def Let_def)

lemma dns_find_route_good:
  assumes "route_cache_good R s"
  shows "fst (dns_find_route (jb_opts (sy_job s)) d (sy_route_maps s)) = dns_first_route (jb_opts (sy_job s)) d"
  using assms by (auto simp: route_cache_good_def dns_find_route_def dns_first_route_Nil Let_def split: option.split)

lemma worker_route_maps:
  "sy_route_maps (worker_route q s) = snd (dns_find_route (jb_opts (sy_job s)) (TrimSuffix (qu_Fqdn q) ''.'') (sy_route_maps s))"
  "sy_route_maps (worker_gone s) = sy_route_maps s"
  by (auto simp: worker_route_def worker_gone_def worker_new_def Let_def split: prod.split option.split worker.split)

lemma route_cache_good_lookup:
  assumes "route_cache_good R s" "sy_job s' = sy_job s"
    "sy_route_maps s' = snd (dns_find_route (jb_opts (sy_job s)) d (sy_route_maps s))"
  shows "route_cache_good R s'"
proof (cases "dt_routeCache (jb_opts (sy_job s))")
  case None
  with assms show ?thesis by (simp add: route_cache_good_def dns_find_route_def)
next
  case (Some p)
  with assms show ?thesis
    by (auto simp: route_cache_good_def dns_find_route_def Let_def update_conv' split: option.splits if_splits)
qed

lemma route_cache_good_change:
  "route_cache_good R s \<Longrightarrow> sy_job s' = sy_job s \<Longrightarrow> sy_route_maps s' = sy_route_maps s \<Longrightarrow> route_cache_good R s'"
  by (simp add: route_cache_good_def)

lemma dns_load_cache_frame [simp]:
  "dt_routes (dns_load_cache psum old new) = dt_routes new" "dt_routeCache (dns_load_cache psum old new) = dt_routeCache new"
  "dt_Redirects (dns_load_cache psum old new) = dt_Redirects new" "dt_Routes (dns_load_cache psum old new) = dt_Routes new"
  "dt_allocs new \<le> dt_allocs (dns_load_cache psum old new)" "dt_ListenAddr (dns_load_cache psum old new) = dt_ListenAddr new"
  by (auto simp: dns_load_cache_def Let_def)

lemma dns_load_routes_pointer:
  assumes "dns_load_routes psum k env old new = Some new'"
  shows "dt_routeCache new' = dt_routeCache new \<and> dt_routes new' = dt_routes new \<or>
    dt_routeCache new' = None \<and> dt_routes new' = [] \<or>
    dt_routeCache new' = Some (dt_allocs new) \<and> dt_allocs new < dt_allocs new'"
  using assms by (auto simp: dns_load_routes_def split: if_splits option.splits)

lemma dns_load_route_pointer:
  assumes "dns_load psum k env sha1 old new0 = Some new'"
  shows "dt_allocs old \<le> dt_allocs new' \<and> dt_Redirects new' = dt_Redirects new0 \<and>
    (dt_routeCache new' = dt_routeCache old \<and> dt_routes new' = dt_routes old \<or>
     dt_routeCache new' = None \<and> dt_routes new' = [] \<or>
     dt_routeCache new' = Some (dt_allocs old) \<and> dt_allocs old < dt_allocs new')"
proof -
  define new where "new = new0\<lparr>dt_routes := dt_routes old, dt_routeCache := dt_routeCache old,
    dt_allowListMap := dt_allowListMap old, dt_dnsCache := dt_dnsCache old, dt_allocs := dt_allocs old\<rparr>"
  obtain new1 new2 where n: "dns_checked k env sha1 new = Some new1" "dns_load_routes psum k env old new1 = Some new2"
    "new' = dns_load_cache psum old new2"
    using assms(1) by (auto simp: dns_load_def new_def [symmetric] Let_def split: option.splits)
  have "dt_allocs new2 \<le> dt_allocs new'" "dt_routes new' = dt_routes new2" "dt_routeCache new' = dt_routeCache new2"
    "dt_Redirects new' = dt_Redirects new2" by (simp_all add: n(3))
  moreover have "dt_allocs new = dt_allocs old" "dt_routes new = dt_routes old" "dt_routeCache new = dt_routeCache old"
    "dt_Redirects new = dt_Redirects new0" by (simp_all add: new_def)
  ultimately show ?thesis
    using dns_checked_frame [OF n(1)] dns_load_routes_frame [OF n(2)] dns_load_routes_pointer [OF n(2)] by auto
qed

lemma dns_load_routes_kept:
  assumes "dns_load psum k env sha1 old new0 = Some new'" "dt_routeCache new' = dt_routeCache old"
    "\<forall>p. dt_routeCache old = Some p \<longrightarrow> p < dt_allocs old" "dt_routeCache old = None \<longrightarrow> dt_routes old = []"
  shows "dt_routes new' = dt_routes old"
  using dns_load_route_pointer [OF assms(1)] assms(2-4) by auto


lemma route_cache_good_job:
  assumes good: "route_cache_good R s" and ok: "input_ok (\<lambda>o1. map_of (dt_Redirects o1) = R) i"
  shows "route_cache_good R (s\<lparr>sy_job := dns_step psum k env sha1 listen i (sy_job s)\<rparr>)"
proof -
  define j where "j = dns_step psum k env sha1 listen i (sy_job s)"
  define old where "old = jb_opts (sy_job s)"
  consider (same) "jb_opts j = old"
    | (load) new0 where "i = Received (LoadEvent new0)" "dns_load psum k env sha1 old new0 = Some (jb_opts j)"
    using job_step_opts [of dt_ListenAddr "dns_load psum k env sha1" listen i "sy_job s"]
    by (auto simp: j_def old_def dns_step_def)
  then have "route_cache_good R (s\<lparr>sy_job := j\<rparr>)"
  proof cases
    case same
    with good show ?thesis by (simp add: route_cache_good_def old_def)
  next
    case load
    note ptr = dns_load_route_pointer [OF load(2)]
    have R: "map_of (dt_Redirects (jb_opts j)) = R" using ok load(1) ptr by simp
    have empty: "p \<ge> dt_allocs old \<Longrightarrow> sy_route_maps s p = []" for p using good by (simp add: route_cache_good_def old_def)
    have same_route: "dns_first_route (jb_opts j) d = dns_first_route old d"
      if "dt_routes (jb_opts j) = dt_routes old" "map_of (dt_Redirects old) = R" for d
      using that R by (simp add: dns_first_route_def map_get_def)
    from ptr consider (kept) "dt_routeCache (jb_opts j) = dt_routeCache old" "dt_routes (jb_opts j) = dt_routes old"
      | (none) "dt_routeCache (jb_opts j) = None" "dt_routes (jb_opts j) = []"
      | (fresh) "dt_routeCache (jb_opts j) = Some (dt_allocs old)" "dt_allocs old < dt_allocs (jb_opts j)"
      by auto
    then show ?thesis
    proof cases
      case kept
      have "r = dns_first_route (jb_opts j) d" if "dt_routeCache old = Some p" "map_of (sy_route_maps s p) d = Some r" for p d r
        using good that same_route [OF kept(2)] by (simp add: route_cache_good_def old_def)
      moreover have "dt_routeCache old = None \<longrightarrow> dt_routes old = []" "\<forall>p. dt_routeCache old = Some p \<longrightarrow> p < dt_allocs old"
        using good by (simp_all add: route_cache_good_def old_def)
      ultimately show ?thesis using kept R empty ptr by (auto simp: route_cache_good_def)
    next
      case none
      then show ?thesis using empty ptr by (auto simp: route_cache_good_def)
    next
      case fresh
      then show ?thesis using empty [of "dt_allocs old"] empty ptr R by (auto simp: route_cache_good_def)
    qed
  qed
  then show ?thesis by (simp add: j_def)
qed

lemma route_cache_good_step:
  assumes "dns_sys_step psum Fqdn (\<lambda>o1. map_of (dt_Redirects o1) = R) s s'" "route_cache_good R s"
  shows "route_cache_good R s'"
  using assms(1)
proof (cases rule: dns_sys_step.cases)
  case (job i k env sha1 listen)
  then show ?thesis using route_cache_good_job [OF assms(2)] by blast
next
  case (query q)
  have "route_cache_good R (worker_route q s)"
    by (rule route_cache_good_lookup [OF assms(2)]) (simp_all add: worker_route_maps)
  with query(1) assms(2) show ?thesis by (cases "options_lookup (jb_opts (sy_job s)) q s") (auto simp: worker_receive_def)
next
  case (gone q r i fresh)
  with route_cache_good_change [OF assms(2)] show ?thesis by (simp add: worker_route_maps)
next
  case (attempt i opts q ex inp)
  with route_cache_good_change [OF assms(2)] show ?thesis by simp
qed (use route_cache_good_change [OF assms(2)] in simp_all)

text \<open>
  C32. As long as reloads do not touch the redirects, the route that the worker chooses for a query,
  through its cache, is the first of the routes in force that allows the name after redirects, or none.
\<close>
theorem dns_route_current:
  assumes "dns_reachable psum Fqdn (\<lambda>o1. map_of (dt_Redirects o1) = R) p s"
  shows "fst (dns_find_route (jb_opts (sy_job s)) d (sy_route_maps s)) =
    find (\<lambda>r. dns_Allow (dnl_list (dr_AllowList r)) (case R d of Some v \<Rightarrow> if v \<noteq> [] then v else d | None \<Rightarrow> d))
      (dt_routes (jb_opts (sy_job s)))"
proof -
  have good: "route_cache_good R s \<and> (dt_routes (jb_opts (sy_job s)) \<noteq> [] \<longrightarrow> map_of (dt_Redirects (jb_opts (sy_job s))) = R)"
    using assms
  proof (induction rule: dns_reachable_induct)
    case start
    show ?case by (simp add: route_cache_good_def dns_system_start_def job_start_def dns_zero_def)
  next
    case (step s s')
    then have "route_cache_good R s'" using route_cache_good_step by blast
    then show ?case by (cases "dt_routeCache (jb_opts (sy_job s'))") (auto simp: route_cache_good_def)
  qed
  show ?thesis
  proof (cases "dt_routes (jb_opts (sy_job s)) = []")
    case True
    with dns_find_route_good [of R s d] good dns_first_route_Nil show ?thesis by simp
  next
    case False
    with dns_find_route_good [of R s d] good show ?thesis
      by (auto simp: dns_first_route_def map_get_def Let_def split: option.split intro: arg_cong2 [where f = find])
  qed
qed

text \<open>
  A reload that changes nothing but the redirects keeps the route cache, so a name that was looked up
  before keeps its route, whatever it is redirected to now.
\<close>

lemma stale_route:
  assumes "dns_load psum k env sha1 old new0 = Some new" "dt_routeCache old = Some p" "dt_routeCache new = dt_routeCache old"
    and "map_of (maps p) d = Some r"
  shows "fst (dns_find_route new d maps) = r \<and> dt_Redirects new = dt_Redirects new0"
  using assms dns_load_route_pointer [OF assms(1)] by (simp add: dns_find_route_def)

section \<open>Two runs\<close>

definition example_server :: DNServer where
  "example_server = \<lparr>dn_Name = ''a'', dn_IP = [], dn_Over = ''TCP'', dn_Port = 0, dn_Path = [], dn_Method = []\<rparr>"

text \<open>A load with a cache and TTLs of at most a minute; a query is answered after that, and cached.\<close>

definition cached_new :: "unit dns_options" where
  "cached_new = (dns_zero ())\<lparr>dt_ListenAddr := '':1'', dt_Servers := [example_server], dt_Cache := True, dt_TTL_Max := 60 * second\<rparr>"

definition cached_opts :: "unit dns_options" where
  "cached_opts = cached_new\<lparr>dt_dnsCache := Some 0, dt_allocs := 1\<rparr>"

lemma example_check: "checkServers [example_server] = Some [example_server]"
  by (simp add: check_server_def example_server_def ToUpper_def upper_byte_def)

lemma cached_load: "dns_load (\<lambda>_. []) 0 env sha1 (dns_zero ()) cached_new = Some cached_opts"
  by (simp add: dns_load_def dns_checked_def example_check cached_new_def cached_opts_def dns_zero_def dns_load_routes_def
      dns_routesEqual_def dns_load_cache_def del: checkServers.simps)

definition cached_1 :: "unit dns_system" where
  "cached_1 = (dns_system_start ())\<lparr>sy_job := \<lparr>jb_opts = cached_opts, jb_server = None, jb_alive = True\<rparr>\<rparr>"

definition cached_2 :: "unit dns_system" where "cached_2 = worker_new example_query None cached_1"

definition cached_3 :: "unit dns_system" where
  "cached_3 = cached_2\<lparr>sy_worker := WaitQuery, sy_ex := (sy_ex cached_2)(0 := Busy cached_opts example_query (dns_newExchange None))\<rparr>"

definition cached_4 :: "unit dns_system" where
  "cached_4 = snd (exchange_turn (\<lambda>s. s) (example_turn (Some example_msg)) 0 cached_3)"

lemma cached_steps:
  assumes step: "\<And>s s'. P s s' = dns_sys_step (\<lambda>_. []) (\<lambda>s. s) (\<lambda>_. True) s s'"
  shows "P (dns_system_start ()) cached_1" "P cached_1 cached_2" "P cached_2 cached_3" "P cached_3 cached_4"
proof -
  have "sy_job cached_1 = dns_step (\<lambda>_. []) 0 example_env (\<lambda>s. s) (\<lambda>_. True) (Received (LoadEvent cached_new)) (job_start (dns_zero ()))"
    using cached_load [of example_env "\<lambda>s. s"]
    by (simp add: dns_step_def job_defs job_start_def cached_1_def cached_new_def dns_zero_def Let_def
        SplitHostPort_def last_index_byte_def)
  then have "cached_1 = (dns_system_start ())\<lparr>sy_job := dns_step (\<lambda>_. []) 0 example_env (\<lambda>s. s) (\<lambda>_. True)
      (Received (LoadEvent cached_new)) (sy_job (dns_system_start ()))\<rparr>"
    by (simp add: cached_1_def dns_system_start_def)
  then show "P (dns_system_start ()) cached_1" unfolding step
    by (metis dns_sys_step.job input_ok_any)
  have "snd (worker_receive example_query cached_1) = cached_2"
    by (simp add: worker_receive_def options_lookup_def cache_lookup_def worker_route_def dns_find_route_def cached_2_def cached_1_def
        dns_system_start_def cached_opts_def cached_new_def dns_zero_def)
  then show "P cached_1 cached_2" unfolding step
    using dns_sys_step.query [of cached_1 "\<lambda>_. []" "\<lambda>s. s" "\<lambda>_. True" example_query]
    by (simp add: cached_1_def dns_system_start_def)
  have "exchange_take 0 example_query (dns_newExchange None) cached_2 = Busy cached_opts example_query (dns_newExchange None)"
    by (simp add: exchange_take_def options_lookup_def cache_lookup_def cached_2_def worker_new_def cached_1_def dns_system_start_def
        cached_opts_def)
  then show "P cached_2 cached_3" unfolding step
    using dns_sys_step.send [of cached_2 example_query None 0 True "dns_newExchange None" "\<lambda>_. []" "\<lambda>s. s" "\<lambda>_. True"]
    by (simp add: cached_3_def cached_2_def worker_new_def cached_1_def dns_system_start_def)
  show "P cached_3 cached_4" unfolding step cached_4_def
    by (rule dns_sys_step.attempt [of _ _ cached_opts example_query "dns_newExchange None"]) (simp add: cached_3_def)
qed

lemma cached_reachable: "dns_reachable (\<lambda>_. []) (\<lambda>s. s) (\<lambda>_. True) () cached_4"
  unfolding dns_reachable_def
  using cached_steps [OF refl] by (meson converse_rtranclp_into_rtranclp rtranclp.rtrancl_refl)

definition cached_rr :: rr where
  "cached_rr = \<lparr>rr_Header = Some \<lparr>rh_Name = ''b.'', rh_TTL = 60\<rparr>, rr_data = RR_A (Addr4 1)\<rparr>"

definition cached_answer :: dns_result where
  "cached_answer = \<lparr>dq_Message = \<lparr>dm_ID = 7, dm_Question = [(''a.'', 1)], dm_Answer = [cached_rr], dm_rest = []\<rparr>,
     dq_IPList = [Addr4 1], dq_Time = 0, dq_Deadline = Some (60 * second)\<rparr>"

lemma cached_attempt:
  "\<exists>ex calls. dns_attempt (\<lambda>s. s) example_query ((example_turn (Some example_msg))\<lparr>ai_opts := (cached_opts, True), ai_now := 0\<rparr>)
      (cached_opts, dns_newExchange None) = (AttemptResult cached_answer, (cached_opts, ex), calls)"
proof -
  have "dns_answer cached_opts ''b.'' ''b.'' example_msg 0 example_msg = cached_answer"
    by (simp add: dns_answer_def example_msg_def dns_RRs_def answer_rr_def answer_header_step_def answer_data_step_def clamp_ttl_def
        cached_opts_def cached_new_def dns_zero_def MaxUint32_def addr_IsValid_def cached_answer_def cached_rr_def)
  moreover have "dns_target (\<lambda>s. s) (dt_Redirects cached_opts) ''b.'' = ''b.''"
    by (simp add: dns_target_def map_get_def cached_opts_def cached_new_def dns_zero_def)
  ultimately show ?thesis
    by (simp add: dns_attempt_def exchange_ready_def exchange_connect_def exchange_servers_def example_turn_def dns_newExchange_def
        dns_ask_def example_query_def example_server_def Let_def cached_opts_def cached_new_def)
qed

lemma cached_result:
  "options_lookup cached_opts example_query cached_4 = Some cached_answer" "jb_opts (sy_job cached_4) = cached_opts"
proof -
  show jb: "jb_opts (sy_job cached_4) = cached_opts"
    by (simp add: cached_4_def cached_3_def cached_2_def worker_new_def cached_1_def)
  obtain ex calls where "dns_attempt (\<lambda>s. s) example_query ((example_turn (Some example_msg))\<lparr>ai_opts := (cached_opts, True), ai_now := 0\<rparr>)
      (cached_opts, dns_newExchange None) = (AttemptResult cached_answer, (cached_opts, ex), calls)"
    using cached_attempt by blast
  then have c4: "cached_4 = cached_3\<lparr>sy_ex := (sy_ex cached_3)(0 := Idle ex),
      sy_dns_maps := (sy_dns_maps cached_3)(0 := [((''b.'', 1), cached_answer)])\<rparr>"
    by (simp add: cached_4_def exchange_turn_def cached_3_def cached_2_def worker_new_def cached_1_def dns_system_start_def
        opts_out_def cached_opts_def cache_store_def example_query_def cached_answer_def)
  show "options_lookup cached_opts example_query cached_4 = Some cached_answer"
    unfolding c4
    by (simp add: options_lookup_def cache_lookup_def cached_opts_def example_query_def cached_3_def cached_2_def worker_new_def
        cached_1_def dns_system_start_def cached_answer_def)
qed

lemma dns_cache_current_witness: "ttl_within 0 (60 * second) 60 \<and> dq_Time cached_answer \<le> sy_now cached_4"
proof -
  have "ttl_bounds_ok cached_opts"
    by (simp add: ttl_bounds_ok_def cached_opts_def cached_new_def dns_zero_def MaxUint32_def)
  moreover have "cached_rr \<in> set (dns_RRs (dq_Message cached_answer))" by (simp add: cached_answer_def dns_RRs_def)
  moreover have "rr_Header cached_rr = Some \<lparr>rh_Name = ''b.'', rh_TTL = 60\<rparr>" by (simp add: cached_rr_def)
  ultimately show ?thesis
    using dns_cache_current [OF cached_reachable _ cached_result(1), of 0 cached_rr "\<lparr>rh_Name = ''b.'', rh_TTL = 60\<rparr>"] cached_result(2)
    by (simp add: cached_opts_def cached_new_def dns_zero_def)
qed

text \<open>A load with one route, whose only rule is \<open>*\<close>.\<close>

definition routed_new :: "unit dns_options" where
  "routed_new = (dns_zero ())\<lparr>dt_ListenAddr := '':1'',
     dt_Routes := [\<lparr>do_Name = ''r'', do_What = ''*'', do_Checksum = [], do_Proxy = (), do_Servers = [example_server]\<rparr>]\<rparr>"

lemma star_scan: "scan_tokens ''*'' = ([''*''], False)"
  by (rule scan_short_lines; simp add: max_token_def rule_lines_def no_rule_def drop_cr_def TrimSpace_def is_space_def HasPrefix_def)

lemma star_list: "\<exists>l. dns_Init 0 env ''*'' = Some (Inr l)"
proof -
  have "\<exists>ms. add_all ms_empty [(''*'', ())] = Some ms"
    by (simp add: example_parse example_compile ms_Add_def wf_atoms_def src_ok_def
      is_star_def ends_star_dot_def suffix_to_prefix del: encode_runes_simps One_nat_def)
  then show ?thesis
    by (auto simp: dns_Init_def dns_parse_lines_def star_scan HasPrefix_def dns_rule_def dns_pattern_def port_suffix_def
        last_index_byte_def)
qed

lemma routed_load:
  "\<exists>l. dns_load (\<lambda>_. []) 0 env (\<lambda>s. s) (dns_zero ()) routed_new =
    Some (routed_new\<lparr>dt_Routes := [\<lparr>do_Name = ''r'', do_What = ''*'', do_Checksum = ''*'' @ [newline], do_Proxy = (), do_Servers = [example_server]\<rparr>],
      dt_routes := [\<lparr>dr_Name = ''r'', dr_AllowList = \<lparr>dnl_Checksum = ''*'' @ [newline], dnl_list = l\<rparr>, dr_Proxy = (),
        dr_Servers = [example_server], dr_ptr = (0, 0)\<rparr>], dt_routeCache := Some 0,
      dt_allowListMap := [(''r'', \<lparr>dnl_Checksum = ''*'' @ [newline], dnl_list = l\<rparr>)], dt_allocs := 1\<rparr>)"
proof -
  obtain l where l: "dns_Init 0 env ''*'' = Some (Inr l)" using star_list by blast
  have "dns_checksum 0 env ''*'' = Some (Inr (''*'' @ [newline]))"
    by (simp add: dns_checksum_def checksum_def star_scan HasPrefix_def)
  then show ?thesis
    by (intro exI [of _ l])
      (simp add: dns_load_def dns_checked_def routed_new_def dns_zero_def example_check dns_route_name_def dns_load_routes_def
        dns_routesEqual_def dns_route_list_def l dns_load_cache_def Let_def del: checkServers.simps(2))
qed

lemma dns_route_current_witness:
  "\<exists>(s :: unit dns_system) r. dt_routes (jb_opts (sy_job s)) = [r] \<and> dr_Name r = ''r'' \<and>
     fst (dns_find_route (jb_opts (sy_job s)) ''b'' (sy_route_maps s)) =
       (if dns_Allow (dnl_list (dr_AllowList r)) ''b'' then Some (r :: unit dns_route) else None)"
proof -
  obtain opts r where load: "dns_load (\<lambda>_. []) 0 example_env (\<lambda>s. s) (dns_zero ()) routed_new = Some opts"
    and r: "dt_routes opts = [r]" "dr_Name r = ''r''"
    using routed_load [of example_env] by force
  define j where "j = dns_step (\<lambda>_. []) 0 example_env (\<lambda>s. s) (\<lambda>_. True) (Received (LoadEvent routed_new)) (job_start (dns_zero ()))"
  define s where "s = (dns_system_start ())\<lparr>sy_job := j\<rparr>"
  have j: "jb_opts j = opts"
    using load by (simp add: j_def dns_step_def job_defs job_start_def routed_new_def dns_zero_def Let_def
        SplitHostPort_def last_index_byte_def)
  have "dns_sys_step (\<lambda>_. []) (\<lambda>s. s) (\<lambda>o1. map_of (dt_Redirects o1) = Map.empty) (dns_system_start ()) s"
    using dns_sys_step.job [of "\<lambda>o1. map_of (dt_Redirects o1) = Map.empty" "Received (LoadEvent routed_new)" "\<lambda>_. []" "\<lambda>s. s"
        "dns_system_start ()" 0 example_env "\<lambda>s. s" "\<lambda>_. True"]
    by (simp add: s_def j_def dns_system_start_def routed_new_def dns_zero_def)
  then have "dns_reachable (\<lambda>_. []) (\<lambda>s. s) (\<lambda>o1. map_of (dt_Redirects o1) = Map.empty) () s"
    by (simp add: dns_reachable_def r_into_rtranclp)
  from dns_route_current [OF this, of "''b''"] show ?thesis
    by (intro exI [of _ s] exI [of _ r]) (simp add: s_def j r)
qed

section \<open>Loaded options are well formed\<close>

text \<open>A server that \<open>checkServers\<close> lets pass, and options whose servers are such, for every route some.\<close>

definition server_ok :: "DNServer \<Rightarrow> bool" where
  "server_ok s \<longleftrightarrow> (dn_Name s \<noteq> [] \<or> dn_IP s \<noteq> []) \<and> dn_Over s \<in> {[], ''TCP'', ''TLS'', ''HTTPS'', ''HTTP''} \<and>
     dn_Method s \<in> {[], ''GET'', ''POST''} \<and> (dn_Over s = ''TLS'' \<or> dn_Over s = ''HTTPS'' \<longrightarrow> dn_Name s \<noteq> [])"

definition servers_ok :: "'p dns_options \<Rightarrow> bool" where
  "servers_ok opts \<longleftrightarrow> list_all server_ok (dt_Servers opts) \<and>
     list_all (\<lambda>r. do_Servers r \<noteq> [] \<and> list_all server_ok (do_Servers r)) (dt_Routes opts) \<and>
     list_all (\<lambda>r. dr_Servers r \<noteq> [] \<and> list_all server_ok (dr_Servers r)) (dt_routes opts)"

lemma check_server_ok: "check_server s = Some s' \<Longrightarrow> server_ok s'"
  by (auto simp: check_server_def server_ok_def Let_def split: if_splits)

lemma checkServers_ok: "checkServers ss = Some ss' \<Longrightarrow> list_all server_ok ss' \<and> length ss' = length ss"
  by (induction ss arbitrary: ss') (auto split: option.splits dest: check_server_ok)

lemma prepare_routes_ok:
  "dns_prepare_routes k env sha1 i rs = Some rs' \<Longrightarrow> list_all (\<lambda>r. do_Servers r \<noteq> [] \<and> list_all server_ok (do_Servers r)) rs'"
proof (induction rs arbitrary: i rs')
  case (Cons r rs)
  then obtain servers rs'' where "do_Servers r \<noteq> []" "checkServers (do_Servers r) = Some servers"
    "dns_prepare_routes k env sha1 (i + 1) rs = Some rs''" "do_Servers (hd rs') = servers" "tl rs' = rs''" "rs' \<noteq> []"
    by (auto split: option.splits sum.splits if_splits)
  with Cons.IH checkServers_ok [of "do_Servers r" servers] show ?case by (cases rs') auto
qed simp

lemma build_routes_servers:
  "dns_build_routes k env olds a ros (routes, amap) = Some (routes', amap') \<Longrightarrow>
     list_all (\<lambda>r. do_Servers r \<noteq> [] \<and> list_all server_ok (do_Servers r)) ros \<Longrightarrow>
     list_all (\<lambda>r. dr_Servers r \<noteq> [] \<and> list_all server_ok (dr_Servers r)) routes \<Longrightarrow>
     list_all (\<lambda>r. dr_Servers r \<noteq> [] \<and> list_all server_ok (dr_Servers r)) routes'"
  by (induction ros arbitrary: routes amap) (auto split: option.splits)

lemma dns_load_servers:
  assumes "servers_ok old" "dns_load psum k env sha1 old new0 = Some new'"
  shows "servers_ok new'"
proof -
  define new where "new = new0\<lparr>dt_routes := dt_routes old, dt_routeCache := dt_routeCache old,
    dt_allowListMap := dt_allowListMap old, dt_dnsCache := dt_dnsCache old, dt_allocs := dt_allocs old\<rparr>"
  obtain new1 new2 where n: "dns_checked k env sha1 new = Some new1" "dns_load_routes psum k env old new1 = Some new2"
    "new' = dns_load_cache psum old new2"
    using assms(2) by (auto simp: dns_load_def new_def [symmetric] Let_def split: option.splits)
  have 1: "list_all server_ok (dt_Servers new1)"
    "list_all (\<lambda>r. do_Servers r \<noteq> [] \<and> list_all server_ok (do_Servers r)) (dt_Routes new1)" "dt_routes new1 = dt_routes old"
    using n(1) by (auto simp: dns_checked_def new_def Let_def split: option.splits if_splits dest: checkServers_ok prepare_routes_ok check_server_ok)
  have "servers_ok new2"
    using n(2) 1 assms(1) build_routes_servers [of k env _ _ "dt_Routes new1" "[]" "[]"]
    by (fastforce simp: dns_load_routes_def servers_ok_def split: if_splits option.splits)
  moreover have "dt_Servers new' = dt_Servers new2" by (auto simp: n(3) dns_load_cache_def Let_def)
  ultimately show ?thesis by (simp add: servers_ok_def n(3))
qed

lemma dns_load_on: "dns_load psum k env sha1 old new = Some new' \<Longrightarrow> dt_ListenAddr new' = dt_ListenAddr new"
  using dns_checked_frame(7) dns_load_routes_frame(4)
  by (fastforce simp: dns_load_def Let_def split: option.splits)

interpretation dnstun: derived_service dt_ListenAddr "dns_load psum k env sha1" "\<lambda>_. True" servers_ok
  by unfold_locales (auto intro: dns_load_on dns_load_servers)

text \<open>
  Whatever options a job was given, those it runs with are well formed: every server has a name or
  an address, a known protocol and method, and a name where TLS needs one; every route has at least
  one server, also in the routes in force.
\<close>
theorem dns_options_wellformed:
  "servers_ok (jb_opts (job_run dt_ListenAddr (dns_load psum k env sha1) inputs (job_start (dns_zero p))))"
proof (rule dnstun.run_good)
  show "servers_ok (jb_opts (job_start (dns_zero p)))" by (simp add: servers_ok_def job_start_def dns_zero_def)
qed (auto simp: list_all_iff)

end
