(* ===== verification/Socks5_Client.thy ===== *)
theory Socks5_Client
  imports Go_Text
begin

text \<open>
  The SOCKS5 client of \<open>proxy/x_net_socks.go\<close>: \<open>connect\<close> with its two or three exchanges
  (method selection, credentials, request), the dialer around it and the addresses in its
  errors. \<open>net.ParseIP\<close> is the parameter \<open>ParseIP\<close>; it yields the 16 bytes of an address, the
  IPv4 ones in their mapped form.

  What the proxy server sends is a stream of bytes that is there from the start: \<open>sc_in\<close>. It ends
  where a read fails, whatever the reason (the server closed, the deadline passed, the context
  was cancelled and \<open>aLongTimeAgo\<close> became the deadline). \<open>sc_writes\<close> bounds the writes that
  succeed in the same way. As the stream is arbitrary, this covers servers that choose what to
  send by what they received.
\<close>

unbundle bit_operations_syntax

section \<open>Errors, commands, replies, addresses\<close>

datatype socks_error =
    BadAddress                 \<comment> \<open>of \<open>net.SplitHostPort\<close>\<close>
  | BadPort                    \<comment> \<open>of \<open>strconv.Atoi\<close>\<close>
  | PortOutOfRange string
  | TooManyMethods
  | WriteFailed
  | ReadFailed
  | UnexpectedVersion nat
  | NoAcceptableMethods
  | UnknownAddressType nat
  | FQDNTooLong
  | ReplyError string
  | NonZeroReserved
  | InvalidCredentials
  | InvalidAuthVersion
  | AuthenticationFailed
  | UnsupportedMethod nat
  | Cancelled                  \<comment> \<open>\<open>ctx.Err()\<close>\<close>
  | NetworkNotImplemented
  | CommandNotImplemented
  | NilContext
  | ProxyDialFailed            \<comment> \<open>of \<open>ProxyDial\<close>\<close>

definition socks_Version5 :: u8 where "socks_Version5 = 0x05"
definition socks_AddrTypeIPv4 :: u8 where "socks_AddrTypeIPv4 = 0x01"
definition socks_AddrTypeFQDN :: u8 where "socks_AddrTypeFQDN = 0x03"
definition socks_AddrTypeIPv6 :: u8 where "socks_AddrTypeIPv6 = 0x04"
definition socks_CmdConnect :: nat where "socks_CmdConnect = 1"
definition socks_cmdBind :: nat where "socks_cmdBind = 2"
definition socks_AuthMethodNotRequired :: nat where "socks_AuthMethodNotRequired = 0x00"
definition socks_AuthMethodUsernamePassword :: nat where "socks_AuthMethodUsernamePassword = 0x02"
definition socks_AuthMethodNoAcceptableMethods :: nat where "socks_AuthMethodNoAcceptableMethods = 0xff"
definition socks_StatusSucceeded :: nat where "socks_StatusSucceeded = 0x00"
definition socks_authUsernamePasswordVersion :: u8 where "socks_authUsernamePasswordVersion = 0x01"
definition socks_authStatusSucceeded :: u8 where "socks_authStatusSucceeded = 0x00"

lemmas socks_constants =
  socks_Version5_def socks_AddrTypeIPv4_def socks_AddrTypeFQDN_def socks_AddrTypeIPv6_def
  socks_CmdConnect_def socks_cmdBind_def socks_AuthMethodNotRequired_def
  socks_AuthMethodUsernamePassword_def socks_AuthMethodNoAcceptableMethods_def
  socks_StatusSucceeded_def socks_authUsernamePasswordVersion_def socks_authStatusSucceeded_def

definition socks_Command_String :: "nat \<Rightarrow> string" where
  "socks_Command_String cmd =
     (if cmd = socks_CmdConnect then ''socks connect''
      else if cmd = socks_cmdBind then ''socks bind''
      else ''socks '' @ Itoa cmd)"

definition socks_Reply_String :: "nat \<Rightarrow> string" where
  "socks_Reply_String code =
     (if code = socks_StatusSucceeded then ''succeeded''
      else if code = 1 then ''general SOCKS server failure''
      else if code = 2 then ''connection not allowed by ruleset''
      else if code = 3 then ''network unreachable''
      else if code = 4 then ''host unreachable''
      else if code = 5 then ''connection refused''
      else if code = 6 then ''TTL expired''
      else if code = 7 then ''command not supported''
      else if code = 8 then ''address type not supported''
      else ''unknown code: '' @ Itoa code)"

text \<open>\<open>net.IP\<close>: a slice of 4 or 16 bytes, or nil.\<close>

definition v4_prefix :: bytes where
  "v4_prefix = replicate 10 0 @ [0xff, 0xff]"

definition ip_To4 :: "bytes \<Rightarrow> bytes option" where
  "ip_To4 ip =
     (if length ip = 4 then Some ip
      else if length ip = 16 \<and> take 12 ip = v4_prefix then Some (drop 12 ip)
      else None)"

definition ip_To16 :: "bytes \<Rightarrow> bytes option" where
  "ip_To16 ip =
     (if length ip = 4 then Some (v4_prefix @ ip) else if length ip = 16 then Some ip else None)"

record socks_Addr =
  sa_Name :: string
  sa_IP :: "bytes option"
  sa_Port :: nat

definition socks_Addr_String :: "(bytes \<Rightarrow> string) \<Rightarrow> socks_Addr option \<Rightarrow> string" where
  "socks_Addr_String IP_String a =
     (case a of
        None \<Rightarrow> ''<nil>''
      | Some a \<Rightarrow>
          (case sa_IP a of
             None \<Rightarrow> JoinHostPort (sa_Name a) (Itoa (sa_Port a))
           | Some ip \<Rightarrow> JoinHostPort (IP_String ip) (Itoa (sa_Port a))))"

definition socks_splitHostPort :: "string \<Rightarrow> socks_error + string \<times> nat" where
  "socks_splitHostPort address =
     (case SplitHostPort address of
        None \<Rightarrow> Inl BadAddress
      | Some (host, port) \<Rightarrow>
          (case Atoi port of
             None \<Rightarrow> Inl BadPort
           | Some portnum \<Rightarrow>
               if 1 > portnum \<or> portnum > 0xffff then Inl (PortOutOfRange port)
               else Inr (host, nat portnum)))"

section \<open>The connection to the proxy server\<close>

datatype deadline = NoDeadline | Deadline int | LongAgo

record sconn =
  sc_in :: bytes
  sc_out :: bytes
  sc_writes :: "nat option"   \<comment> \<open>how many more writes succeed; \<open>None\<close>: all\<close>
  sc_deadline :: deadline
  sc_closed :: bool

type_synonym 'a sio = "sconn \<Rightarrow> (socks_error + 'a) \<times> sconn"

definition io_return :: "'a \<Rightarrow> 'a sio" where
  "io_return x c = (Inr x, c)"

definition io_fail :: "socks_error \<Rightarrow> 'a sio" where
  "io_fail e c = (Inl e, c)"

definition io_bind :: "'a sio \<Rightarrow> ('a \<Rightarrow> 'b sio) \<Rightarrow> 'b sio" where
  "io_bind m f c = (case m c of (Inl e, c') \<Rightarrow> (Inl e, c') | (Inr x, c') \<Rightarrow> f x c')"

definition io_lift :: "socks_error + 'a \<Rightarrow> 'a sio" where
  "io_lift r c = (r, c)"

text \<open>\<open>c.Write(b)\<close>.\<close>

definition io_write :: "bytes \<Rightarrow> unit sio" where
  "io_write b c =
     (case sc_writes c of
        None \<Rightarrow> (Inr (), c\<lparr>sc_out := sc_out c @ b\<rparr>)
      | Some 0 \<Rightarrow> (Inl WriteFailed, c)
      | Some (Suc n) \<Rightarrow> (Inr (), c\<lparr>sc_out := sc_out c @ b, sc_writes := Some n\<rparr>))"

text \<open>\<open>io.ReadFull(c, b)\<close> for \<open>len(b) = n\<close>.\<close>

definition io_ReadFull :: "nat \<Rightarrow> bytes sio" where
  "io_ReadFull n c =
     (if n \<le> length (sc_in c)
      then (Inr (take n (sc_in c)), c\<lparr>sc_in := drop n (sc_in c)\<rparr>)
      else (Inl ReadFailed, c\<lparr>sc_in := []\<rparr>))"

section \<open>Authentication\<close>

record socks_UsernamePassword =
  up_Username :: string
  up_Password :: string

definition auth_request :: "socks_UsernamePassword \<Rightarrow> bytes" where
  "auth_request up =
     [socks_authUsernamePasswordVersion] @ [byte (length (up_Username up))] @ bytes_of (up_Username up) @
     [byte (length (up_Password up))] @ bytes_of (up_Password up)"

definition socks_Authenticate :: "socks_UsernamePassword \<Rightarrow> nat \<Rightarrow> unit sio" where
  "socks_Authenticate up auth =
     (if auth = socks_AuthMethodNotRequired then io_return ()
      else if auth = socks_AuthMethodUsernamePassword then
        (if length (up_Username up) = 0 \<or> length (up_Username up) > 255 \<or> length (up_Password up) > 255
         then io_fail InvalidCredentials
         else
           io_bind (io_write (auth_request up)) (\<lambda>_.
           io_bind (io_ReadFull 2) (\<lambda>b.
           if b ! 0 \<noteq> socks_authUsernamePasswordVersion then io_fail InvalidAuthVersion
           else if b ! 1 \<noteq> socks_authStatusSucceeded then io_fail AuthenticationFailed
           else io_return ())))
      else io_fail (UnsupportedMethod auth))"

section \<open>\<open>connect\<close>\<close>

text \<open>
  The dialer. \<open>Authenticate\<close> is only ever set to \<open>up.Authenticate\<close> for some credentials; they
  stand for it here.
\<close>

record socks_Dialer =
  sd_cmd :: nat
  sd_proxyNetwork :: string
  sd_proxyAddress :: string
  sd_AuthMethods :: "nat list"
  sd_Authenticate :: "socks_UsernamePassword option"

definition socks_NewDialer :: "string \<Rightarrow> string \<Rightarrow> socks_Dialer" where
  "socks_NewDialer network address =
     \<lparr>sd_cmd = socks_CmdConnect, sd_proxyNetwork = network, sd_proxyAddress = address,
      sd_AuthMethods = [], sd_Authenticate = None\<rparr>"

definition socks_greeting :: "socks_Dialer \<Rightarrow> socks_error + bytes" where
  "socks_greeting d =
     (if length (sd_AuthMethods d) = 0 \<or> sd_Authenticate d = None
      then Inr ([socks_Version5] @ [1, byte socks_AuthMethodNotRequired])
      else if length (sd_AuthMethods d) > 255 then Inl TooManyMethods
      else Inr ([socks_Version5] @ [byte (length (sd_AuthMethods d))] @ map byte (sd_AuthMethods d)))"

definition socks_target :: "(string \<Rightarrow> bytes option) \<Rightarrow> string \<Rightarrow> socks_error + bytes" where
  "socks_target ParseIP host =
     (case ParseIP host of
        Some ip \<Rightarrow>
          (case ip_To4 ip of
             Some ip4 \<Rightarrow> Inr (socks_AddrTypeIPv4 # ip4)
           | None \<Rightarrow>
               (case ip_To16 ip of
                  Some ip6 \<Rightarrow> Inr (socks_AddrTypeIPv6 # ip6)
                | None \<Rightarrow> Inl (UnknownAddressType 0)))
      | None \<Rightarrow>
          if length host > 255 then Inl FQDNTooLong
          else Inr (socks_AddrTypeFQDN # byte (length host) # bytes_of host))"

definition socks_request :: "(string \<Rightarrow> bytes option) \<Rightarrow> nat \<Rightarrow> string \<Rightarrow> nat \<Rightarrow> socks_error + bytes" where
  "socks_request ParseIP cmd host port =
     (case socks_target ParseIP host of
        Inl e \<Rightarrow> Inl e
      | Inr a \<Rightarrow> Inr ([socks_Version5, byte cmd, 0] @ a @ [byte (port div 256), byte port]))"

definition reply_address :: "u8 \<Rightarrow> socks_Addr sio" where
  "reply_address atyp =
     (let finish = (\<lambda>is_ip l.
        io_bind (io_ReadFull l) (\<lambda>b. io_return
          \<lparr>sa_Name = (if is_ip then [] else string_of (take (l - 2) b)),
           sa_IP = (if is_ip then Some (take (l - 2) b) else None),
           sa_Port = push_bit 8 (unat (b ! (l - 2))) OR unat (b ! (l - 1))\<rparr>))
      in if atyp = socks_AddrTypeIPv4 then finish True (2 + 4)
         else if atyp = socks_AddrTypeIPv6 then finish True (2 + 16)
         else if atyp = socks_AddrTypeFQDN
         then io_bind (io_ReadFull 1) (\<lambda>b. finish False (2 + unat (b ! 0)))
         else io_fail (UnknownAddressType (unat atyp)))"

definition socks_reply :: "socks_Addr sio" where
  "socks_reply =
     io_bind (io_ReadFull 4) (\<lambda>b.
     if b ! 0 \<noteq> socks_Version5 then io_fail (UnexpectedVersion (unat (b ! 0)))
     else if unat (b ! 1) \<noteq> socks_StatusSucceeded
     then io_fail (ReplyError (socks_Reply_String (unat (b ! 1))))
     else if b ! 2 \<noteq> 0 then io_fail NonZeroReserved
     else reply_address (b ! 3))"

definition socks_dialogue ::
  "(string \<Rightarrow> bytes option) \<Rightarrow> socks_Dialer \<Rightarrow> string \<Rightarrow> nat \<Rightarrow> socks_Addr sio" where
  "socks_dialogue ParseIP d host port =
     io_bind (io_lift (socks_greeting d)) (\<lambda>hello.
     io_bind (io_write hello) (\<lambda>_.
     io_bind (io_ReadFull 2) (\<lambda>b.
     if b ! 0 \<noteq> socks_Version5 then io_fail (UnexpectedVersion (unat (b ! 0)))
     else if unat (b ! 1) = socks_AuthMethodNoAcceptableMethods then io_fail NoAcceptableMethods
     else
       io_bind (case sd_Authenticate d of
                  None \<Rightarrow> io_return ()
                | Some up \<Rightarrow> socks_Authenticate up (unat (b ! 1))) (\<lambda>_.
       io_bind (io_lift (socks_request ParseIP (sd_cmd d) host port)) (\<lambda>req.
       io_bind (io_write req) (\<lambda>_. socks_reply))))))"

text \<open>
  The context: its deadline, whether it is \<open>context.Background()\<close>, and whether the goroutine that
  watches it saw it done before \<open>connect\<close> had closed \<open>done\<close>.
\<close>

record dial_context =
  cx_Deadline :: "int option"
  cx_background :: bool
  cx_done :: bool

definition Background :: dial_context where
  "Background = \<lparr>cx_Deadline = None, cx_background = True, cx_done = False\<rparr>"

text \<open>
  With an error already returned, nothing waits for the goroutine, and \<open>aLongTimeAgo\<close> may come
  after the deadline was taken back; the connection is of no use then.
\<close>

definition socks_connect ::
  "(string \<Rightarrow> bytes option) \<Rightarrow> dial_context \<Rightarrow> socks_Dialer \<Rightarrow> string \<Rightarrow> socks_Addr sio" where
  "socks_connect ParseIP ctx d address c =
     (case socks_splitHostPort address of
        Inl e \<Rightarrow> (Inl e, c)
      | Inr (host, port) \<Rightarrow>
          let c1 = (case cx_Deadline ctx of None \<Rightarrow> c | Some t \<Rightarrow> c\<lparr>sc_deadline := Deadline t\<rparr>);
              (r, c2) = socks_dialogue ParseIP d host port c1;
              seen = \<not> cx_background ctx \<and> cx_done ctx;
              c3 = (if seen then c2\<lparr>sc_deadline := LongAgo\<rparr> else c2);
              r' = (if seen \<and> \<not> isl r then Inl Cancelled else r)
          in (r', if cx_Deadline ctx = None then c3 else c3\<lparr>sc_deadline := NoDeadline\<rparr>))"

section \<open>The dialer\<close>

record OpError =
  oe_Op :: string
  oe_Net :: string
  oe_Source :: "socks_Addr option"
  oe_Addr :: "socks_Addr option"
  oe_Err :: socks_error

definition socks_validateTarget :: "socks_Dialer \<Rightarrow> string \<Rightarrow> socks_error option" where
  "socks_validateTarget d network =
     (if network \<notin> {''tcp'', ''tcp6'', ''tcp4''} then Some NetworkNotImplemented
      else if sd_cmd d \<noteq> socks_CmdConnect \<and> sd_cmd d \<noteq> socks_cmdBind then Some CommandNotImplemented
      else None)"

definition path_addr :: "(string \<Rightarrow> bytes option) \<Rightarrow> string \<times> nat \<Rightarrow> socks_Addr" where
  "path_addr ParseIP = (\<lambda>(host, port).
     \<lparr>sa_Name = (if ParseIP host = None then host else []), sa_IP = ParseIP host, sa_Port = port\<rparr>)"

text \<open>An address that does not parse makes both results nil.\<close>

definition socks_pathAddrs ::
  "(string \<Rightarrow> bytes option) \<Rightarrow> socks_Dialer \<Rightarrow> string \<Rightarrow> socks_Addr option \<times> socks_Addr option" where
  "socks_pathAddrs ParseIP d address =
     (case socks_splitHostPort (sd_proxyAddress d) of
        Inl _ \<Rightarrow> (None, None)
      | Inr p \<Rightarrow>
          (case socks_splitHostPort address of
             Inl _ \<Rightarrow> (None, None)
           | Inr q \<Rightarrow> (Some (path_addr ParseIP p), Some (path_addr ParseIP q))))"

definition op_error ::
  "(string \<Rightarrow> bytes option) \<Rightarrow> socks_Dialer \<Rightarrow> string \<Rightarrow> string \<Rightarrow> socks_error \<Rightarrow> OpError" where
  "op_error ParseIP d network address e =
     \<lparr>oe_Op = socks_Command_String (sd_cmd d), oe_Net = network,
      oe_Source = fst (socks_pathAddrs ParseIP d address),
      oe_Addr = snd (socks_pathAddrs ParseIP d address), oe_Err = e\<rparr>"

definition io_Close :: "sconn \<Rightarrow> sconn" where
  "io_Close c = c\<lparr>sc_closed := True\<rparr>"

text \<open>
  \<open>socks_Dialer.DialContext\<close>; \<open>None\<close> is a nil context. \<open>dialed\<close> is what \<open>ProxyDial\<close> returns when
  it is called; the connection in the result is the one that \<open>ProxyDial\<close> made, if it was called,
  and its final state.
\<close>

definition socks_DialContext ::
  "(string \<Rightarrow> bytes option) \<Rightarrow> dial_context option \<Rightarrow> sconn option \<Rightarrow> socks_Dialer \<Rightarrow> string \<Rightarrow> string \<Rightarrow>
     (OpError + socks_Addr) \<times> sconn option" where
  "socks_DialContext ParseIP ctx dialed d network address =
     (let err = op_error ParseIP d network address in
      case (socks_validateTarget d network, ctx) of
        (Some e, _) \<Rightarrow> (Inl (err e), None)
      | (None, None) \<Rightarrow> (Inl (err NilContext), None)
      | (None, Some ctx) \<Rightarrow>
          (case dialed of
             None \<Rightarrow> (Inl (err ProxyDialFailed), None)
           | Some c \<Rightarrow>
               (case socks_connect ParseIP ctx d address c of
                  (Inl e, c') \<Rightarrow> (Inl (err e), Some (io_Close c'))
                | (Inr a, c') \<Rightarrow> (Inr a, Some c'))))"

definition socks_DialWithConn ::
  "(string \<Rightarrow> bytes option) \<Rightarrow> dial_context option \<Rightarrow> socks_Dialer \<Rightarrow> string \<Rightarrow> string \<Rightarrow> sconn \<Rightarrow>
     (OpError + socks_Addr) \<times> sconn" where
  "socks_DialWithConn ParseIP ctx d network address c =
     (let err = op_error ParseIP d network address in
      case (socks_validateTarget d network, ctx) of
        (Some e, _) \<Rightarrow> (Inl (err e), c)
      | (None, None) \<Rightarrow> (Inl (err NilContext), c)
      | (None, Some ctx) \<Rightarrow>
          (case socks_connect ParseIP ctx d address c of
             (Inl e, c') \<Rightarrow> (Inl (err e), c')
           | (Inr a, c') \<Rightarrow> (Inr a, c')))"

text \<open>\<open>socks_Dialer.Dial\<close>.\<close>

definition socks_Dial ::
  "(string \<Rightarrow> bytes option) \<Rightarrow> sconn option \<Rightarrow> socks_Dialer \<Rightarrow> string \<Rightarrow> string \<Rightarrow>
     (OpError + unit) \<times> sconn option" where
  "socks_Dial ParseIP dialed d network address =
     (let err = op_error ParseIP d network address in
      case socks_validateTarget d network of
        Some e \<Rightarrow> (Inl (err e), None)
      | None \<Rightarrow>
          (case dialed of
             None \<Rightarrow> (Inl (err ProxyDialFailed), None)
           | Some c \<Rightarrow>
               (case socks_DialWithConn ParseIP (Some Background) d network address c of
                  (Inl e, c') \<Rightarrow> (Inl e, Some (io_Close c'))
                | (Inr a, c') \<Rightarrow> (Inr (), Some c'))))"

text \<open>\<open>proxy_SOCKS5\<close> of \<open>x_net_proxy.go\<close>; the forwarder becomes \<open>ProxyDial\<close>.\<close>

definition proxy_SOCKS5 :: "string \<Rightarrow> string \<Rightarrow> (string \<times> string) option \<Rightarrow> socks_Dialer" where
  "proxy_SOCKS5 network address auth =
     (case auth of
        None \<Rightarrow> socks_NewDialer network address
      | Some (user, password) \<Rightarrow>
          (socks_NewDialer network address)
            \<lparr>sd_AuthMethods := [socks_AuthMethodNotRequired, socks_AuthMethodUsernamePassword],
             sd_Authenticate := Some \<lparr>up_Username = user, up_Password = password\<rparr>\<rparr>)"

lemma join_port: "push_bit 8 (unat (h :: u8)) OR unat (l :: u8) = unat h * 256 + unat l"
proof -
  have l: "unat l < 256" using unsigned_less [of l] by simp
  have "push_bit 8 (unat h) + unat l = push_bit 8 (unat h) OR unat l"
  proof (rule disjunctive_add_eq_or)
    have m: "unat l = take_bit 8 (unat l)" using l by (simp add: take_bit_nat_eq_self)
    show "push_bit 8 (unat h) AND unat l = 0"
      by (subst m) (auto simp: bit_eq_iff bit_simps)
  qed
  then show ?thesis by (simp add: push_bit_eq_mult)
qed

section \<open>Requests, as a server reads them\<close>

text \<open>The destination of a request and its reader, after RFC 1928.\<close>

datatype destination = DestIPv4 bytes | DestIPv6 bytes | DestName string

definition take_exact :: "nat \<Rightarrow> bytes \<Rightarrow> (bytes \<times> bytes) option" where
  "take_exact n bs = (if n \<le> length bs then Some (take n bs, drop n bs) else None)"

lemma take_exact_append [simp]: "n = length a \<Longrightarrow> take_exact n (a @ b) = Some (a, b)"
  by (simp add: take_exact_def)

fun read_destination :: "bytes \<Rightarrow> (destination \<times> bytes) option" where
  "read_destination (t # bs) =
     (if t = 1 then map_option (map_prod DestIPv4 id) (take_exact 4 bs)
      else if t = 4 then map_option (map_prod DestIPv6 id) (take_exact 16 bs)
      else if t = 3 then
        (case bs of
           [] \<Rightarrow> None
         | n # cs \<Rightarrow> map_option (map_prod (DestName \<circ> string_of) id) (take_exact (unat n) cs))
      else None)"
| "read_destination [] = None"

fun read_request :: "bytes \<Rightarrow> (nat \<times> destination \<times> nat \<times> bytes) option" where
  "read_request (ver # cmd # rsv # bs) =
     (if ver \<noteq> 5 \<or> rsv \<noteq> 0 then None
      else (case read_destination bs of
              Some (dst, h # l # rest) \<Rightarrow> Some (unat cmd, dst, unat h * 256 + unat l, rest)
            | _ \<Rightarrow> None))"
| "read_request _ = None"

text \<open>The destination that a client means by a host.\<close>

definition destination_of :: "(string \<Rightarrow> bytes option) \<Rightarrow> string \<Rightarrow> destination" where
  "destination_of ParseIP host =
     (case ParseIP host of
        None \<Rightarrow> DestName host
      | Some ip \<Rightarrow> (case ip_To4 ip of Some ip4 \<Rightarrow> DestIPv4 ip4 | None \<Rightarrow> DestIPv6 ip))"

lemma ip_To4_length: "ip_To4 ip = Some a \<Longrightarrow> length a = 4"
  by (auto simp: ip_To4_def split: if_splits)

lemma ip_To16_only: "ip_To4 ip = None \<Longrightarrow> ip_To16 ip = Some a \<Longrightarrow> a = ip \<and> length a = 16"
  by (auto simp: ip_To4_def ip_To16_def split: if_splits)

lemma read_socks_target:
  assumes "socks_target ParseIP host = Inr a"
  shows "read_destination (a @ rest) = Some (destination_of ParseIP host, rest)"
  using assms ip_To4_length ip_To16_only
  by (fastforce simp: socks_target_def destination_of_def socks_constants unat_byte
      split: option.splits if_splits)

lemma splitHostPort_port: "socks_splitHostPort address = Inr (host, port) \<Longrightarrow> 0 < port \<and> port < 65536"
  by (auto simp: socks_splitHostPort_def split: option.splits prod.splits if_splits)

text \<open>
  C36. What the SOCKS5 client writes as its request is read by a server as the command, the
  destination and the port that it was called with: an address stands for itself (mapped IPv4
  addresses as IPv4), any other host for its name of at most 255 bytes; what follows the request
  is untouched.
\<close>
theorem request_roundtrip:
  assumes "socks_request ParseIP cmd host port = Inr b" "cmd < 256" "port < 65536"
  shows "read_request (b @ rest) = Some (cmd, destination_of ParseIP host, port, rest)"
proof -
  from assms(1) obtain a where a: "socks_target ParseIP host = Inr a"
    and b: "b = [socks_Version5, byte cmd, 0] @ a @ [byte (port div 256), byte port]"
    by (auto simp: socks_request_def split: sum.splits)
  have "read_destination (a @ byte (port div 256) # byte port # rest)
      = Some (destination_of ParseIP host, byte (port div 256) # byte port # rest)"
    by (rule read_socks_target [OF a])
  moreover have "port div 256 * 256 + unat (byte port) = port"
    using split_port [OF assms(3)] assms(3) by (simp add: unat_byte)
  ultimately show ?thesis using assms(2,3) by (simp add: b socks_constants unat_byte)
qed

theorem request_roundtrip_witness:
  "read_request ((case socks_request (\<lambda>_. None) 1 ''go.dev'' 443 of Inr b \<Rightarrow> b) @ [7])
    = Some (1, DestName ''go.dev'', 443, [7])"
proof -
  have "socks_request (\<lambda>_. None) 1 ''go.dev'' 443
      = Inr [5, 1, 0, 3, 6, 0x67, 0x6f, 0x2e, 0x64, 0x65, 0x76, 1, 0xBB]"
    by (simp add: socks_request_def socks_target_def socks_constants bytes_of_def byte_def)
  from request_roundtrip [OF this, of "[7]"] show ?thesis
    using \<open>socks_request _ _ _ _ = _\<close> by (simp add: destination_of_def)
qed

section \<open>Runs of the input/output operations\<close>

lemma io_bind_Inr:
  "io_bind m f c = (Inr y, c') \<longleftrightarrow> (\<exists>x c1. m c = (Inr x, c1) \<and> f x c1 = (Inr y, c'))"
  by (auto simp: io_bind_def split: prod.splits sum.splits)

lemma io_return_iff: "io_return x c = (r, c') \<longleftrightarrow> r = Inr x \<and> c' = c"
  by (auto simp: io_return_def)

lemma io_fail_Inr [simp]: "io_fail e c = (Inr x, c') \<longleftrightarrow> False"
  by (simp add: io_fail_def)

lemma io_lift_Inr [simp]: "io_lift r c = (Inr x, c') \<longleftrightarrow> r = Inr x \<and> c' = c"
  by (auto simp: io_lift_def)

lemma io_ReadFull_Inr:
  "io_ReadFull n c = (Inr b, c') \<longleftrightarrow>
     (\<exists>r. length b = n \<and> sc_in c = b @ r \<and> c' = c\<lparr>sc_in := r\<rparr>)"
  by (auto simp: io_ReadFull_def split: if_splits) (metis append_take_drop_id)

lemma io_write_all:
  "sc_writes c = None \<Longrightarrow> io_write b c = (Inr (), c\<lparr>sc_out := sc_out c @ b\<rparr>)"
  by (simp add: io_write_def)

lemmas io_runs = io_bind_Inr io_return_iff io_ReadFull_Inr

text \<open>Operations that leave the deadline and the connection itself alone.\<close>

definition io_frame :: "'a sio \<Rightarrow> bool" where
  "io_frame m \<longleftrightarrow> (\<forall>c. sc_deadline (snd (m c)) = sc_deadline c \<and> sc_closed (snd (m c)) = sc_closed c)"

lemma io_frameD: "io_frame m \<Longrightarrow> m c = (r, c') \<Longrightarrow> sc_deadline c' = sc_deadline c \<and> sc_closed c' = sc_closed c"
  unfolding io_frame_def by (metis snd_conv)

lemma io_frame_basic [inv_intros]:
  "io_frame (io_return x)" "io_frame (io_fail e)" "io_frame (io_lift r)"
  "io_frame (io_write b)" "io_frame (io_ReadFull n)"
  by (auto simp: io_frame_def io_return_def io_fail_def io_lift_def io_write_def io_ReadFull_def
      split: option.split nat.split)

lemma io_frame_bind [inv_intros]: "io_frame m \<Longrightarrow> (\<And>x. io_frame (f x)) \<Longrightarrow> io_frame (io_bind m f)"
  by (auto simp: io_frame_def io_bind_def split: prod.splits sum.splits) (metis snd_conv)+

lemma io_frame_if [inv_intros]: "io_frame m \<Longrightarrow> io_frame n \<Longrightarrow> io_frame (if p then m else n)"
  by simp

lemma io_frame_Authenticate [inv_intros]: "io_frame (socks_Authenticate up auth)"
  unfolding socks_Authenticate_def by (intro inv_intros)

lemma io_frame_reply [inv_intros]: "io_frame socks_reply"
  unfolding socks_reply_def reply_address_def Let_def by (intro inv_intros)

lemma io_frame_dialogue [inv_intros]: "io_frame (socks_dialogue ParseIP d host port)"
  unfolding socks_dialogue_def by (auto intro!: inv_intros split: option.split)

section \<open>What the server sends when \<open>connect\<close> succeeds\<close>

text \<open>The bound address in a reply, and the bytes of a reply that grants the request.\<close>

definition bound_ok :: "socks_Addr \<Rightarrow> bool" where
  "bound_ok a \<longleftrightarrow> sa_Port a < 65536 \<and>
     (case sa_IP a of
        None \<Rightarrow> length (sa_Name a) \<le> 255
      | Some ip \<Rightarrow> sa_Name a = [] \<and> (length ip = 4 \<or> length ip = 16))"

definition bound_bytes :: "socks_Addr \<Rightarrow> bytes" where
  "bound_bytes a =
     (case sa_IP a of
        None \<Rightarrow> 3 # byte (length (sa_Name a)) # bytes_of (sa_Name a)
      | Some ip \<Rightarrow> (if length ip = 4 then 1 else 4) # ip) @
     [byte (sa_Port a div 256), byte (sa_Port a)]"

definition granted :: "socks_Addr \<Rightarrow> bytes" where
  "granted a = [5, 0, 0] @ bound_bytes a"

lemma read_last_two:
  "(\<exists>b. length b = n + 2 \<and> s = b @ r \<and> P (take n b) (b ! n) (b ! Suc n)) \<longleftrightarrow>
   (\<exists>x h l. length x = n \<and> s = x @ h # l # r \<and> P x h l)"  (is "?L \<longleftrightarrow> ?R")
proof
  assume ?L
  then obtain b where b: "length b = n + 2" "s = b @ r" "P (take n b) (b ! n) (b ! Suc n)" by blast
  then have "b = take n b @ [b ! n, b ! Suc n]"
    by (auto simp: list_eq_iff_nth_eq nth_append less_Suc_eq)
  with b show ?R by (intro exI [of _ "take n b"] exI [of _ "b ! n"] exI [of _ "b ! Suc n"]) auto
next
  assume ?R
  then obtain x h l where "length x = n" "s = x @ h # l # r" "P x h l" by blast
  then show ?L by (intro exI [of _ "x @ [h, l]"]) (auto simp: nth_append)
qed

lemma read_bound_Inr:
  "(\<exists>b r. length b = n + 2 \<and> s = b @ r \<and> a = f (take n b) (unat (b ! n) * 256 + unat (b ! Suc n)) \<and> Q r) \<longleftrightarrow>
   (\<exists>x p r. length x = n \<and> p < 65536 \<and> s = x @ [byte (p div 256), byte p] @ r \<and> a = f x p \<and> Q r)"
proof -
  have "(\<exists>b. length b = n + 2 \<and> s = b @ r \<and> a = f (take n b) (unat (b ! n) * 256 + unat (b ! Suc n))) \<longleftrightarrow>
      (\<exists>x p. length x = n \<and> p < 65536 \<and> s = x @ [byte (p div 256), byte p] @ r \<and> a = f x p)" for r
    unfolding read_last_two [of n s r "\<lambda>x h l. a = f x (unat h * 256 + unat l)"]
    using port_bytes by (simp add: append_Cons append_Nil) (metis port_bytes)
  then show ?thesis by blast
qed

lemma read_addr_Inr:
  "io_bind (io_ReadFull (2 + n)) (\<lambda>b. io_return \<lparr>sa_Name = g (take (2 + n - 2) b), sa_IP = h (take (2 + n - 2) b),
      sa_Port = push_bit 8 (unat (b ! (2 + n - 2))) OR unat (b ! (2 + n - 1))\<rparr>) c = (Inr a, c') \<longleftrightarrow>
   (\<exists>x p r. length x = n \<and> p < 65536 \<and> sc_in c = x @ [byte (p div 256), byte p] @ r \<and>
      a = \<lparr>sa_Name = g x, sa_IP = h x, sa_Port = p\<rparr> \<and> c' = c\<lparr>sc_in := r\<rparr>)"
  using read_bound_Inr [of n "sc_in c" a "\<lambda>x p. \<lparr>sa_Name = g x, sa_IP = h x, sa_Port = p\<rparr>" "\<lambda>r. c' = c\<lparr>sc_in := r\<rparr>"]
  by (auto simp: io_runs join_port)

lemma bound_bytes_ip:
  assumes "n = 4 \<and> t = 1 \<or> n = 16 \<and> t = (4 :: u8)"
  shows "bound_ok a \<and> t # s = bound_bytes a @ r \<longleftrightarrow>
     (\<exists>x p. length x = n \<and> p < 65536 \<and> s = x @ [byte (p div 256), byte p] @ r \<and>
        a = \<lparr>sa_Name = [], sa_IP = Some x, sa_Port = p\<rparr>)"
  using assms by (cases a) (auto simp: bound_ok_def bound_bytes_def split: option.splits if_splits)

lemma bound_bytes_name:
  "bound_ok a \<and> 3 # s = bound_bytes a @ r \<longleftrightarrow>
     (\<exists>k x p. length x = unat k \<and> p < 65536 \<and> s = k # x @ [byte (p div 256), byte p] @ r \<and>
        a = \<lparr>sa_Name = string_of x, sa_IP = None, sa_Port = p\<rparr>)" (is "?L \<longleftrightarrow> ?R")
proof
  assume ?L
  then show ?R
    by (intro exI [of _ "byte (length (sa_Name a))"] exI [of _ "bytes_of (sa_Name a)"] exI [of _ "sa_Port a"],
      cases a) (auto simp: bound_ok_def bound_bytes_def unat_byte split: option.splits if_splits)
next
  assume ?R
  then obtain k x p where "length x = unat k" "p < 65536" "s = k # x @ [byte (p div 256), byte p] @ r"
    "a = \<lparr>sa_Name = string_of x, sa_IP = None, sa_Port = p\<rparr>" by blast
  moreover have "unat k < 256" using unsigned_less [of k] by simp
  ultimately show ?L by (simp add: bound_ok_def bound_bytes_def)
qed

lemma reply_address_Inr:
  "reply_address t c = (Inr a, c') \<longleftrightarrow>
     (\<exists>r. (bound_ok a \<and> t # sc_in c = bound_bytes a @ r) \<and> c' = c\<lparr>sc_in := r\<rparr>)"
proof -
  have ip: ?thesis if "n = 4 \<and> t = 1 \<or> n = 16 \<and> t = 4" for n :: nat
  proof -
    have eq: "reply_address t = io_bind (io_ReadFull (2 + n)) (\<lambda>b. io_return
        \<lparr>sa_Name = [], sa_IP = Some (take (2 + n - 2) b),
         sa_Port = push_bit 8 (unat (b ! (2 + n - 2))) OR unat (b ! (2 + n - 1))\<rparr>)"
      using that by (auto simp: reply_address_def socks_constants)
    show ?thesis
      unfolding eq read_addr_Inr [of n "\<lambda>x. []" Some c a c'] bound_bytes_ip [OF that] by blast
  qed
  consider "t = 1" | "t = 4" | (name) "t = 3" | (other) "t \<notin> {1, 3, 4}" by blast
  then show ?thesis
  proof cases
    case name
    have "reply_address t c = (Inr a, c') \<longleftrightarrow>
        (\<exists>k s. sc_in c = k # s \<and> (\<exists>x p r. length x = unat k \<and> p < 65536 \<and>
           s = x @ [byte (p div 256), byte p] @ r \<and>
           a = \<lparr>sa_Name = string_of x, sa_IP = None, sa_Port = p\<rparr> \<and> c' = c\<lparr>sc_in := r\<rparr>))"
      using read_addr_Inr [of "unat (hd (sc_in c))" string_of "\<lambda>x. None" "c\<lparr>sc_in := tl (sc_in c)\<rparr>" a c'] name
      by (cases "sc_in c") (auto simp: reply_address_def socks_constants io_bind_def io_ReadFull_def split: prod.splits)
    then show ?thesis unfolding name bound_bytes_name by blast
  next
    case other
    then show ?thesis
      by (cases a) (auto simp: reply_address_def socks_constants bound_ok_def bound_bytes_def split: option.splits if_splits)
  qed (use ip in blast)+
qed

lemma socks_reply_Inr:
  "socks_reply c = (Inr a, c') \<longleftrightarrow>
     (\<exists>r. bound_ok a \<and> sc_in c = granted a @ r \<and> c' = c\<lparr>sc_in := r\<rparr>)" (is "?L \<longleftrightarrow> ?R")
proof
  assume ?L
  then obtain b c1 where b: "io_ReadFull 4 c = (Inr b, c1)" "b ! 0 = 5" "b ! 1 = 0" "b ! 2 = 0"
    "reply_address (b ! 3) c1 = (Inr a, c')"
    by (auto simp: socks_reply_def io_bind_Inr socks_constants unat_eq_zero split: if_splits)
  from b(1) obtain s where s: "length b = 4" "sc_in c = b @ s" "c1 = c\<lparr>sc_in := s\<rparr>"
    by (auto simp: io_ReadFull_Inr)
  then have "b = [5, 0, 0, b ! 3]"
    using b(2-4) by (simp add: list_eq_iff_nth_eq less_Suc_eq numeral_eq_Suc)
  moreover from b(5) s(3) obtain r where "bound_ok a" "b ! 3 # s = bound_bytes a @ r" "c' = c\<lparr>sc_in := r\<rparr>"
    by (auto simp: reply_address_Inr)
  ultimately show ?R using s(2) by (metis append_Cons append_Nil granted_def)
next
  assume ?R
  then obtain r where r: "bound_ok a" "sc_in c = granted a @ r" "c' = c\<lparr>sc_in := r\<rparr>" by blast
  then obtain t s where t: "bound_bytes a @ r = t # s" by (cases "bound_bytes a") (auto simp: bound_bytes_def split: option.splits)
  then have i: "sc_in c = [5, 0, 0, t] @ s" using r(2) by (simp add: granted_def)
  have "reply_address t (c\<lparr>sc_in := s\<rparr>) = (Inr a, c')"
    using r t unfolding reply_address_Inr by (intro exI [of _ r]) simp
  then show ?L using i
    by (simp add: socks_reply_def io_bind_def io_ReadFull_def socks_constants numeral_eq_Suc)
qed

text \<open>What the server sends for the method \<open>m\<close> it selects, and what the client sends in between.\<close>

definition auth_answer :: "socks_Dialer \<Rightarrow> nat \<Rightarrow> bytes option" where
  "auth_answer d m =
     (case sd_Authenticate d of
        None \<Rightarrow> Some []
      | Some up \<Rightarrow>
          if m = 0 then Some []
          else if m = 2 \<and> 0 < length (up_Username up) \<and> length (up_Username up) \<le> 255 \<and>
            length (up_Password up) \<le> 255 then Some [1, 0]
          else None)"

definition auth_sent :: "socks_Dialer \<Rightarrow> nat \<Rightarrow> bytes" where
  "auth_sent d m =
     (case sd_Authenticate d of None \<Rightarrow> [] | Some up \<Rightarrow> if m = 2 then auth_request up else [])"

lemma auth_Inr:
  assumes "sc_writes c = None"
  shows "(case sd_Authenticate d of None \<Rightarrow> io_return () | Some up \<Rightarrow> socks_Authenticate up m) c = (Inr (), c') \<longleftrightarrow>
    (\<exists>s r. auth_answer d m = Some s \<and> sc_in c = s @ r \<and>
       c' = c\<lparr>sc_in := r, sc_out := sc_out c @ auth_sent d m\<rparr>)"
proof (cases "sd_Authenticate d")
  case None
  then show ?thesis by (cases c) (auto simp: auth_answer_def auth_sent_def io_return_def)
next
  case (Some up)
  have two: "io_bind (io_ReadFull 2) (\<lambda>b. if b ! 0 \<noteq> 1 then io_fail InvalidAuthVersion
        else if b ! 1 \<noteq> 0 then io_fail AuthenticationFailed else io_return ()) c1 = (Inr (), c') \<longleftrightarrow>
      (\<exists>r. sc_in c1 = [1, 0] @ r \<and> c' = c1\<lparr>sc_in := r\<rparr>)" (is "?m c1 = _ \<longleftrightarrow> ?r c1") for c1 :: sconn
  proof
    show "?m c1 = (Inr (), c') \<Longrightarrow> ?r c1"
      by (auto simp: io_runs length_Suc_conv numeral_2_eq_2 split: if_splits)
    show "?r c1 \<Longrightarrow> ?m c1 = (Inr (), c')"
      by (auto simp: io_bind_def io_ReadFull_def io_return_def)
  qed
  show ?thesis
  proof (cases "m = 2 \<and> 0 < length (up_Username up) \<and> length (up_Username up) \<le> 255 \<and> length (up_Password up) \<le> 255")
    case True
    then have "socks_Authenticate up m c =
        io_bind (io_ReadFull 2) (\<lambda>b. if b ! 0 \<noteq> 1 then io_fail InvalidAuthVersion
          else if b ! 1 \<noteq> 0 then io_fail AuthenticationFailed else io_return ())
        (c\<lparr>sc_out := sc_out c @ auth_request up\<rparr>)"
      using assms unfolding socks_Authenticate_def socks_constants
      by (simp add: io_bind_def [of "io_write _"] io_write_all)
    with True Some show ?thesis by (cases c) (auto simp: two auth_answer_def auth_sent_def)
  next
    case False
    then show ?thesis using Some
      by (cases c) (auto simp: socks_Authenticate_def socks_constants auth_answer_def auth_sent_def io_return_def)
  qed
qed


lemma dialogue_Inr:
  assumes "sc_writes c = None"
  shows "socks_dialogue ParseIP d host port c = (Inr a, c') \<longleftrightarrow>
    (\<exists>hello m s req r. socks_greeting d = Inr hello \<and> unat m \<noteq> 255 \<and> auth_answer d (unat m) = Some s \<and>
       socks_request ParseIP (sd_cmd d) host port = Inr req \<and> bound_ok a \<and>
       sc_in c = [5, m] @ s @ granted a @ r \<and>
       c' = c\<lparr>sc_in := r, sc_out := sc_out c @ hello @ auth_sent d (unat m) @ req\<rparr>)" (is "?L \<longleftrightarrow> ?R")
proof
  assume ?L
  then obtain hello c1 b c2 c3 req where
    g: "socks_greeting d = Inr hello" "c1 = c\<lparr>sc_out := sc_out c @ hello\<rparr>"
    and b: "io_ReadFull 2 c1 = (Inr b, c2)" "b ! 0 = 5" "unat (b ! 1) \<noteq> 255"
    and u: "(case sd_Authenticate d of None \<Rightarrow> io_return () | Some up \<Rightarrow> socks_Authenticate up (unat (b ! 1))) c2
        = (Inr (), c3)"
    and q: "socks_request ParseIP (sd_cmd d) host port = Inr req"
      "io_bind (io_write req) (\<lambda>_. socks_reply) c3 = (Inr a, c')"
    using assms unfolding socks_dialogue_def socks_constants
    by (fastforce simp: io_bind_Inr io_write_all split: if_splits)
  from b(1) obtain s2 where s2: "length b = 2" "sc_in c = b @ s2" "c2 = c1\<lparr>sc_in := s2\<rparr>"
    using g(2) by (auto simp: io_ReadFull_Inr)
  then have bs: "b = [5, b ! 1]" using b(2) by (simp add: list_eq_iff_nth_eq less_Suc_eq numeral_eq_Suc)
  have "sc_writes c2 = None" using assms g(2) s2(3) by simp
  from u [unfolded auth_Inr [OF this]] obtain s r3 where
    a: "auth_answer d (unat (b ! 1)) = Some s" "s2 = s @ r3"
      "c3 = c2\<lparr>sc_in := r3, sc_out := sc_out c2 @ auth_sent d (unat (b ! 1))\<rparr>"
    using s2(3) by auto
  have "sc_writes c3 = None" using assms g(2) s2(3) a(3) by simp
  with q(2) have "socks_reply (c3\<lparr>sc_out := sc_out c3 @ req\<rparr>) = (Inr a, c')"
    by (simp add: io_bind_Inr io_write_all)
  then obtain r where r: "bound_ok a" "r3 = granted a @ r" "c' = c3\<lparr>sc_out := sc_out c3 @ req, sc_in := r\<rparr>"
    using a(3) by (auto simp: socks_reply_Inr)
  have "sc_in c = b @ s @ granted a @ r" using s2(2) a(2) r(2) by simp
  then have "sc_in c = [5, b ! 1] @ s @ granted a @ r" using bs by simp
  moreover have "c' = c\<lparr>sc_in := r, sc_out := sc_out c @ hello @ auth_sent d (unat (b ! 1)) @ req\<rparr>"
    using g(2) s2(3) a(3) r(3) by simp
  ultimately show ?R using g(1) q(1) b(3) a(1) r(1) by blast
next
  assume ?R
  then obtain hello m s req r where
    h: "socks_greeting d = Inr hello" "unat m \<noteq> 255" "auth_answer d (unat m) = Some s"
      "socks_request ParseIP (sd_cmd d) host port = Inr req" "bound_ok a"
      "sc_in c = [5, m] @ s @ granted a @ r"
      "c' = c\<lparr>sc_in := r, sc_out := sc_out c @ hello @ auth_sent d (unat m) @ req\<rparr>" by blast
  define c1 where "c1 = c\<lparr>sc_out := sc_out c @ hello, sc_in := s @ granted a @ r\<rparr>"
  define c2 where "c2 = c1\<lparr>sc_in := granted a @ r, sc_out := sc_out c1 @ auth_sent d (unat m)\<rparr>"
  have "(case sd_Authenticate d of None \<Rightarrow> io_return () | Some up \<Rightarrow> socks_Authenticate up (unat ([5, m] ! 1))) c1 = (Inr (), c2)"
    using h(3) assms by (subst auth_Inr) (auto simp: c1_def c2_def)
  moreover have "socks_reply (c2\<lparr>sc_out := sc_out c2 @ req\<rparr>) = (Inr a, c')"
    using h(5,7) unfolding socks_reply_Inr by (intro exI [of _ r]) (auto simp: c1_def c2_def)
  moreover have "sc_writes c2 = None" using assms by (simp add: c1_def c2_def)
  moreover have "io_ReadFull 2 (c\<lparr>sc_out := sc_out c @ hello\<rparr>) = (Inr [5, m], c1)"
    using h(6) by (simp add: io_ReadFull_def c1_def)
  ultimately show ?L
    using h(1,2,4) assms unfolding socks_dialogue_def socks_constants
    by (simp add: io_bind_def [of "io_lift _"] io_bind_def [of "io_write _"] io_bind_def [of "io_ReadFull _"]
        io_bind_def [of "case_option _ _ _"] io_lift_def io_write_all)
qed

section \<open>\<open>connect\<close> and the dialer\<close>

definition cancelled :: "dial_context \<Rightarrow> bool" where
  "cancelled ctx \<longleftrightarrow> \<not> cx_background ctx \<and> cx_done ctx"

definition final_deadline :: "dial_context \<Rightarrow> sconn \<Rightarrow> deadline" where
  "final_deadline ctx c = (if cx_Deadline ctx = None then sc_deadline c else NoDeadline)"

lemma socks_connect_Inr:
  assumes "sc_writes c = None"
  shows "socks_connect ParseIP ctx d address c = (Inr a, c') \<longleftrightarrow>
    \<not> cancelled ctx \<and>
    (\<exists>host port hello m s req r. socks_splitHostPort address = Inr (host, port) \<and>
       socks_greeting d = Inr hello \<and> unat m \<noteq> 255 \<and> auth_answer d (unat m) = Some s \<and>
       socks_request ParseIP (sd_cmd d) host port = Inr req \<and> bound_ok a \<and>
       sc_in c = [5, m] @ s @ granted a @ r \<and>
       c' = c\<lparr>sc_in := r, sc_out := sc_out c @ hello @ auth_sent d (unat m) @ req,
              sc_deadline := final_deadline ctx c\<rparr>)"
proof (cases "socks_splitHostPort address")
  case (Inl e)
  then show ?thesis by (simp add: socks_connect_def)
next
  case (Inr hp)
  obtain host port where hp: "hp = (host, port)" by fastforce
  define c1 where "c1 = (case cx_Deadline ctx of None \<Rightarrow> c | Some t \<Rightarrow> c\<lparr>sc_deadline := Deadline t\<rparr>)"
  have c1: "sc_writes c1 = None" "sc_in c1 = sc_in c" "sc_out c1 = sc_out c"
    using assms by (simp_all add: c1_def split: option.split)
  define f :: "sconn \<Rightarrow> sconn" where "f = (\<lambda>c2. if cx_Deadline ctx = None then c2 else c2\<lparr>sc_deadline := NoDeadline\<rparr>)"
  have fin: "f (c1\<lparr>sc_in := x, sc_out := y\<rparr>) =
      c\<lparr>sc_in := x, sc_out := y, sc_deadline := final_deadline ctx c\<rparr>" for x y
    by (cases c) (simp add: c1_def f_def final_deadline_def split: option.split)
  have "socks_connect ParseIP ctx d address c = (Inr a, c') \<longleftrightarrow>
      \<not> cancelled ctx \<and> (\<exists>c2. socks_dialogue ParseIP d host port c1 = (Inr a, c2) \<and> c' = f c2)"
    using Inr hp
    by (auto simp: socks_connect_def cancelled_def f_def c1_def [symmetric] Let_def split: prod.split sum.splits)
  then show ?thesis
    unfolding dialogue_Inr [OF c1(1)] c1(2,3) fin [symmetric] Inr hp sum.inject prod.inject by blast
qed

text \<open>
  C5. \<open>connect\<close> hands over a connection exactly when the context was not done, the address has a
  host and a port from 1 to 65535, and the server selected a method other than 255, accepted the
  credentials if it selected them, and granted the request with a well-formed bound address. Then
  the client has sent the greeting, the credentials that were asked for and the request, it has
  read the server's three answers and not one byte more, so that what the target sends first is
  left to be read, and its deadline is taken back.
\<close>
theorem connect_exact:
  assumes "sc_writes c = None"
  shows "socks_connect ParseIP ctx d address c = (Inr a, c') \<longleftrightarrow>
    \<not> cancelled ctx \<and> bound_ok a \<and>
    sc_deadline c' = final_deadline ctx c \<and> sc_closed c' = sc_closed c \<and> sc_writes c' = None \<and>
    (\<exists>host port hello m s req. socks_splitHostPort address = Inr (host, port) \<and>
       socks_greeting d = Inr hello \<and> unat m \<noteq> 255 \<and> auth_answer d (unat m) = Some s \<and>
       socks_request ParseIP (sd_cmd d) host port = Inr req \<and>
       sc_in c = [5, m] @ s @ granted a @ sc_in c' \<and>
       sc_out c' = sc_out c @ hello @ auth_sent d (unat m) @ req)"
proof -
  have eq: "c' = c\<lparr>sc_in := r, sc_out := x, sc_deadline := z\<rparr> \<longleftrightarrow>
      sc_in c' = r \<and> sc_out c' = x \<and> sc_deadline c' = z \<and> sc_closed c' = sc_closed c \<and> sc_writes c' = None"
    for r x z using assms by (cases c, cases c') auto
  show ?thesis unfolding socks_connect_Inr [OF assms] eq by blast
qed

definition example_proxy :: socks_Dialer where
  "example_proxy = proxy_SOCKS5 ''tcp'' ''proxy:1080'' (Some (''me'', ''pw''))"

definition example_server :: sconn where
  "example_server = \<lparr>sc_in = [5, 2] @ [1, 0] @ [5, 0, 0, 1, 127, 0, 0, 1, 0x1F, 0x90] @ [42], sc_out = [],
     sc_writes = None, sc_deadline = NoDeadline, sc_closed = False\<rparr>"

definition example_bound :: socks_Addr where
  "example_bound = \<lparr>sa_Name = [], sa_IP = Some [127, 0, 0, 1], sa_Port = 8080\<rparr>"

theorem connect_exact_witness:
  "fst (socks_connect (\<lambda>_. None) Background example_proxy ''go:80'' example_server) = Inr example_bound \<and>
   sc_in (snd (socks_connect (\<lambda>_. None) Background example_proxy ''go:80'' example_server)) = [42]"
proof -
  have s: "SplitHostPort ''go:80'' = Some (''go'', ''80'')"
    by (simp add: SplitHostPort_def last_index_byte_def)
  have "socks_splitHostPort ''go:80'' = Inr (''go'', 80)"
    by (simp add: socks_splitHostPort_def s Atoi_def split_sign_def is_digit_def)
  then have "socks_connect (\<lambda>_. None) Background example_proxy ''go:80'' example_server =
      (Inr example_bound, example_server\<lparr>sc_in := [42],
        sc_out := [5, 2, 0, 2] @ auth_request \<lparr>up_Username = ''me'', up_Password = ''pw''\<rparr> @
          [5, 1, 0, 3, 2] @ bytes_of ''go'' @ [byte (80 div 256), byte 80]\<rparr>)"
    by (subst connect_exact)
      (auto simp: example_server_def example_proxy_def example_bound_def proxy_SOCKS5_def socks_NewDialer_def
        cancelled_def Background_def final_deadline_def bound_ok_def granted_def bound_bytes_def
        socks_greeting_def socks_constants auth_answer_def auth_sent_def socks_request_def socks_target_def
        byte_def intro!: exI [of _ 2])
  then show ?thesis by (simp add: example_server_def)
qed

lemma socks_connect_frame:
  assumes "socks_connect ParseIP ctx d address c = (r, c')"
  shows "sc_closed c' = sc_closed c"
    and "\<not> isl r \<Longrightarrow> sc_deadline c' = final_deadline ctx c \<and> \<not> cancelled ctx"
proof -
  show "sc_closed c' = sc_closed c"
    using assms io_frameD [OF io_frame_dialogue]
    by (fastforce simp: socks_connect_def Let_def split: sum.splits prod.splits option.splits if_splits)
  assume "\<not> isl r"
  then show "sc_deadline c' = final_deadline ctx c \<and> \<not> cancelled ctx"
    using assms io_frameD [OF io_frame_dialogue]
    by (fastforce simp: socks_connect_def cancelled_def final_deadline_def Let_def
        split: sum.splits prod.splits option.splits if_splits)
qed

definition dialed_ok :: "(OpError + 'a) \<times> sconn option \<Rightarrow> bool" where
  "dialed_ok res \<longleftrightarrow>
     (case res of
        (Inl e, oc) \<Rightarrow> (case oc of None \<Rightarrow> True | Some c \<Rightarrow> sc_closed c)
      | (Inr a, oc) \<Rightarrow> (case oc of None \<Rightarrow> False | Some c \<Rightarrow> \<not> sc_closed c \<and> sc_deadline c = NoDeadline))"

text \<open>
  However the exchange with the proxy server goes, \<open>DialContext\<close> and \<open>Dial\<close> of the SOCKS5
  dialer leave no connection behind: with an error, the connection that was made to the proxy
  server has been closed; without one it is open and carries no deadline.
\<close>
theorem socks_dial_no_leak:
  assumes "\<And>c. dialed = Some c \<Longrightarrow> \<not> sc_closed c \<and> sc_deadline c = NoDeadline"
  shows "dialed_ok (socks_DialContext ParseIP ctx dialed d network address) \<and>
    dialed_ok (socks_Dial ParseIP dialed d network address)"
proof (cases dialed)
  case None
  then show ?thesis
    by (simp add: dialed_ok_def socks_DialContext_def socks_Dial_def Let_def split: option.split)
next
  case (Some c)
  have fin: "final_deadline ctx' c = NoDeadline" for ctx'
    using assms Some by (simp add: final_deadline_def)
  have c: "\<not> sc_closed c'" if "socks_connect ParseIP ctx' d address c = (r, c')" for ctx' r c'
    using socks_connect_frame(1) [OF that] assms Some by simp
  have dl: "sc_deadline c' = NoDeadline" if "socks_connect ParseIP ctx' d address c = (Inr a, c')" for ctx' a c'
    using socks_connect_frame(2) [OF that] fin by simp
  show ?thesis using Some c dl
    by (auto simp: dialed_ok_def socks_DialContext_def socks_Dial_def socks_DialWithConn_def io_Close_def Let_def
        split: option.split prod.split sum.split)
qed

definition refusing_server :: sconn where
  "refusing_server = example_server\<lparr>sc_in := [5, 0xFF]\<rparr>"

theorem socks_dial_no_leak_witness:
  "dialed_ok (socks_DialContext (\<lambda>_. None) (Some Background) (Some refusing_server) example_proxy ''tcp'' ''go:80'') \<and>
   dialed_ok (socks_Dial (\<lambda>_. None) (Some refusing_server) example_proxy ''tcp'' ''go:80'')"
  by (rule socks_dial_no_leak) (auto simp: refusing_server_def example_server_def)

end
