(* ===== verification/Per_Host.thy ===== *)
theory Per_Host
  imports Socks5_Client
begin

text \<open>
  \<open>proxy_PerHost\<close> of \<open>proxy/x_net_proxy.go\<close>: the hosts that are dialed past the proxy, as the
  environment variable \<open>no_proxy\<close> lists them, and the look at environment variables that happens
  once. \<open>netip.ParseAddr\<close> (its \<open>AsSlice\<close>: 4 or 16 bytes) and \<open>net.ParseCIDR\<close> are the parameters
  \<open>ParseAddr\<close> and \<open>ParseCIDR\<close>.
\<close>

section \<open>Networks and addresses of package \<open>net\<close>\<close>

type_synonym ip_net = "bytes \<times> bytes"   \<comment> \<open>\<open>net.IPNet\<close>: address and mask\<close>

definition networkNumberAndMask :: "ip_net \<Rightarrow> (bytes \<times> bytes) option" where
  "networkNumberAndMask = (\<lambda>(a, m).
     let ip = (case ip_To4 a of Some ip4 \<Rightarrow> ip4 | None \<Rightarrow> a)
     in if length ip \<noteq> 4 \<and> length ip \<noteq> 16 then None
        else if length m = 4 then (if length ip \<noteq> 4 then None else Some (ip, m))
        else if length m = 16 then Some (ip, if length ip = 4 then drop 12 m else m)
        else None)"

definition IPNet_Contains :: "ip_net \<Rightarrow> bytes \<Rightarrow> bool" where
  "IPNet_Contains n ip0 =
     (case networkNumberAndMask n of
        None \<Rightarrow> ip0 = []
      | Some (nn, m) \<Rightarrow>
          let ip = (case ip_To4 ip0 of Some x \<Rightarrow> x | None \<Rightarrow> ip0)
          in length ip = length nn \<and>
             list_all (\<lambda>i. and (nn ! i) (m ! i) = and (ip ! i) (m ! i)) [0..<length ip])"

definition IP_Equal :: "bytes \<Rightarrow> bytes \<Rightarrow> bool" where
  "IP_Equal a b \<longleftrightarrow>
     (if length a = length b then a = b
      else if length a = 4 \<and> length b = 16 then take 12 b = v4_prefix \<and> a = drop 12 b
      else if length a = 16 \<and> length b = 4 then take 12 a = v4_prefix \<and> drop 12 a = b
      else False)"

section \<open>\<open>PerHost\<close>\<close>

record 'd proxy_PerHost =
  ph_def :: 'd
  ph_bypass :: 'd
  ph_bypassNetworks :: "ip_net list"
  ph_bypassIPs :: "bytes list"
  ph_bypassZones :: "string list"
  ph_bypassHosts :: "string list"

definition proxy_NewPerHost :: "'d \<Rightarrow> 'd \<Rightarrow> 'd proxy_PerHost" where
  "proxy_NewPerHost defaultDialer bypass =
     \<lparr>ph_def = defaultDialer, ph_bypass = bypass, ph_bypassNetworks = [], ph_bypassIPs = [],
      ph_bypassZones = [], ph_bypassHosts = []\<rparr>"

text \<open>A zone is never empty (lemma \<open>zones_nonempty\<close>), so that \<open>zone[1:]\<close> is no panic.\<close>

definition dialerForRequest :: "(string \<Rightarrow> bytes option) \<Rightarrow> 'd proxy_PerHost \<Rightarrow> string \<Rightarrow> 'd" where
  "dialerForRequest ParseAddr p host =
     (case ParseAddr host of
        Some ip \<Rightarrow>
          if list_ex (\<lambda>n. IPNet_Contains n ip) (ph_bypassNetworks p) then ph_bypass p
          else if list_ex (\<lambda>b. IP_Equal b ip) (ph_bypassIPs p) then ph_bypass p
          else ph_def p
      | None \<Rightarrow>
          if list_ex (\<lambda>zone. HasSuffix host zone \<or> host = drop 1 zone) (ph_bypassZones p) then ph_bypass p
          else if list_ex (\<lambda>h. h = host) (ph_bypassHosts p) then ph_bypass p
          else ph_def p)"

text \<open>Which dialer \<open>Dial\<close> and \<open>DialContext\<close> call; \<open>None\<close>: the address does not split.\<close>

definition PerHost_dialer :: "(string \<Rightarrow> bytes option) \<Rightarrow> 'd proxy_PerHost \<Rightarrow> string \<Rightarrow> 'd option" where
  "PerHost_dialer ParseAddr p addr =
     (case SplitHostPort addr of
        None \<Rightarrow> None
      | Some (host, _) \<Rightarrow> Some (dialerForRequest ParseAddr p host))"

definition AddIP :: "bytes \<Rightarrow> 'd proxy_PerHost \<Rightarrow> 'd proxy_PerHost" where
  "AddIP ip p = p\<lparr>ph_bypassIPs := ph_bypassIPs p @ [ip]\<rparr>"

definition AddNetwork :: "ip_net \<Rightarrow> 'd proxy_PerHost \<Rightarrow> 'd proxy_PerHost" where
  "AddNetwork n p = p\<lparr>ph_bypassNetworks := ph_bypassNetworks p @ [n]\<rparr>"

definition AddZone :: "string \<Rightarrow> 'd proxy_PerHost \<Rightarrow> 'd proxy_PerHost" where
  "AddZone zone0 p =
     (let zone = TrimSuffix zone0 ''.'';
          zone = (if \<not> HasPrefix zone ''.'' then ''.'' @ zone else zone)
      in p\<lparr>ph_bypassZones := ph_bypassZones p @ [zone]\<rparr>)"

definition AddHost :: "string \<Rightarrow> 'd proxy_PerHost \<Rightarrow> 'd proxy_PerHost" where
  "AddHost host p = p\<lparr>ph_bypassHosts := ph_bypassHosts p @ [TrimSuffix host ''.'']\<rparr>"

definition add_entry ::
  "(string \<Rightarrow> bytes option) \<Rightarrow> (string \<Rightarrow> ip_net option) \<Rightarrow> string \<Rightarrow> 'd proxy_PerHost \<Rightarrow> 'd proxy_PerHost" where
  "add_entry ParseAddr ParseCIDR entry p =
     (let host = TrimSpace entry in
      if length host = 0 then p
      else if CHR ''/'' \<in> set host then
        (case ParseCIDR host of Some n \<Rightarrow> AddNetwork n p | None \<Rightarrow> p)
      else (case ParseAddr host of
              Some ip \<Rightarrow> AddIP ip p
            | None \<Rightarrow>
                if HasPrefix host ''*.'' then AddZone (drop 1 host) p else AddHost host p))"

definition AddFromString ::
  "(string \<Rightarrow> bytes option) \<Rightarrow> (string \<Rightarrow> ip_net option) \<Rightarrow> string \<Rightarrow> 'd proxy_PerHost \<Rightarrow> 'd proxy_PerHost" where
  "AddFromString ParseAddr ParseCIDR s p = fold (add_entry ParseAddr ParseCIDR) (split_on (CHR '','') s) p"

section \<open>\<open>envOnce\<close>\<close>

record proxy_envOnce =
  eo_names :: "string list"
  eo_done :: bool
  eo_val :: string

definition proxy_allProxyEnv :: proxy_envOnce where
  "proxy_allProxyEnv = \<lparr>eo_names = [''ALL_PROXY'', ''all_proxy''], eo_done = False, eo_val = []\<rparr>"

definition proxy_noProxyEnv :: proxy_envOnce where
  "proxy_noProxyEnv = \<lparr>eo_names = [''NO_PROXY'', ''no_proxy''], eo_done = False, eo_val = []\<rparr>"

text \<open>\<open>init\<close>: the loop leaves the last value that it looked at.\<close>

fun envOnce_init :: "(string \<Rightarrow> string) \<Rightarrow> string list \<Rightarrow> string \<Rightarrow> string" where
  "envOnce_init getenv [] val = val"
| "envOnce_init getenv (n # ns) val = (if getenv n \<noteq> [] then getenv n else envOnce_init getenv ns (getenv n))"

definition envOnce_Get :: "(string \<Rightarrow> string) \<Rightarrow> proxy_envOnce \<Rightarrow> string \<times> proxy_envOnce" where
  "envOnce_Get getenv e =
     (let e' = (if eo_done e then e
                else e\<lparr>eo_done := True, eo_val := envOnce_init getenv (eo_names e) (eo_val e)\<rparr>)
      in (eo_val e', e'))"

definition envOnce_reset :: "proxy_envOnce \<Rightarrow> proxy_envOnce" where
  "envOnce_reset e = e\<lparr>eo_done := False, eo_val := []\<rparr>"

section \<open>What an entry stands for\<close>

text \<open>The zone of an entry \<open>*.zone\<close>, with one dot at the end taken off.\<close>

definition zone_match :: "string \<Rightarrow> string \<Rightarrow> bool" where
  "zone_match zone host \<longleftrightarrow> host = zone \<or> HasSuffix host (''.'' @ zone)"

definition entry_matches ::
  "(string \<Rightarrow> bytes option) \<Rightarrow> (string \<Rightarrow> ip_net option) \<Rightarrow> string \<Rightarrow> string \<Rightarrow> bool" where
  "entry_matches ParseAddr ParseCIDR host entry \<longleftrightarrow>
     (let e = TrimSpace entry in
      e \<noteq> [] \<and>
      (if CHR ''/'' \<in> set e
       then (\<exists>n ip. ParseCIDR e = Some n \<and> ParseAddr host = Some ip \<and> IPNet_Contains n ip)
       else (case ParseAddr e of
               Some a \<Rightarrow> (case ParseAddr host of Some ip \<Rightarrow> IP_Equal a ip | None \<Rightarrow> False)
             | None \<Rightarrow>
                 ParseAddr host = None \<and>
                 (if HasPrefix e ''*.'' then zone_match (drop 1 (TrimSuffix (drop 1 e) ''.'')) host
                  else host = TrimSuffix e ''.''))))"

definition zones_ok :: "'d proxy_PerHost \<Rightarrow> bool" where
  "zones_ok p \<longleftrightarrow> list_all (\<lambda>z. HasPrefix z ''.'') (ph_bypassZones p)"

lemma zones_ok_ops [inv_intros]:
  "zones_ok (proxy_NewPerHost d b)"
  "zones_ok p \<Longrightarrow> zones_ok (AddIP ip p)"
  "zones_ok p \<Longrightarrow> zones_ok (AddNetwork n p)"
  "zones_ok p \<Longrightarrow> zones_ok (AddZone z p)"
  "zones_ok p \<Longrightarrow> zones_ok (AddHost h p)"
  by (auto simp: zones_ok_def proxy_NewPerHost_def AddIP_def AddNetwork_def AddZone_def AddHost_def
      HasPrefix_def Let_def)

lemma zones_ok_add_entry [inv_intros]: "zones_ok p \<Longrightarrow> zones_ok (add_entry ParseAddr ParseCIDR e p)"
  by (auto simp: add_entry_def Let_def intro!: inv_intros split: option.split)

lemma zones_ok_fold: "zones_ok p \<Longrightarrow> zones_ok (fold (add_entry ParseAddr ParseCIDR) es p)"
  by (induction es arbitrary: p) (auto intro: inv_intros)

lemma zones_nonempty:
  assumes "zone \<in> set (ph_bypassZones (AddFromString ParseAddr ParseCIDR s (proxy_NewPerHost d b)))"
  shows "zone \<noteq> []"
proof -
  have "zones_ok (AddFromString ParseAddr ParseCIDR s (proxy_NewPerHost d b))"
    unfolding AddFromString_def by (intro zones_ok_fold inv_intros)
  with assms show ?thesis by (auto simp: zones_ok_def HasPrefix_def list_all_iff)
qed

text \<open>Whether a request goes past the proxy, without the two dialers.\<close>

definition bypasses :: "(string \<Rightarrow> bytes option) \<Rightarrow> 'd proxy_PerHost \<Rightarrow> string \<Rightarrow> bool" where
  "bypasses ParseAddr p host \<longleftrightarrow>
     (case ParseAddr host of
        Some ip \<Rightarrow> (\<exists>n\<in>set (ph_bypassNetworks p). IPNet_Contains n ip) \<or> (\<exists>b\<in>set (ph_bypassIPs p). IP_Equal b ip)
      | None \<Rightarrow> (\<exists>z\<in>set (ph_bypassZones p). HasSuffix host z \<or> host = drop 1 z) \<or> host \<in> set (ph_bypassHosts p))"

lemma dialerForRequest_eq:
  "dialerForRequest ParseAddr p host = (if bypasses ParseAddr p host then ph_bypass p else ph_def p)"
  by (auto simp: dialerForRequest_def bypasses_def list_ex_iff split: option.split)

lemma zone_part: "HasPrefix z ''.'' \<Longrightarrow> HasSuffix host z \<or> host = drop 1 z \<longleftrightarrow> zone_match (drop 1 z) host"
  by (auto simp: HasPrefix_def zone_match_def prefix_def)

lemma trim_zone:
  assumes "HasPrefix e ''*.''"
  shows "(let z = TrimSuffix (drop 1 e) ''.'' in if \<not> HasPrefix z ''.'' then ''.'' @ z else z) =
    ''.'' @ drop 1 (TrimSuffix (drop 1 e) ''.'')"
proof -
  obtain t where e: "e = CHR ''*'' # CHR ''.'' # t" using assms by (auto simp: HasPrefix_def prefix_def)
  show ?thesis by (cases t) (auto simp: e Let_def TrimSuffix_def HasPrefix_def HasSuffix_def suffix_def)
qed

lemma bypasses_add_entry:
  "bypasses ParseAddr (add_entry ParseAddr ParseCIDR e p) host \<longleftrightarrow>
     bypasses ParseAddr p host \<or> entry_matches ParseAddr ParseCIDR host e"
proof -
  define h where "h = TrimSpace e"
  consider (empty) "h = []" | (cidr) "h \<noteq> []" "CHR ''/'' \<in> set h"
    | (ip) a where "h \<noteq> []" "CHR ''/'' \<notin> set h" "ParseAddr h = Some a"
    | (zone) "h \<noteq> []" "CHR ''/'' \<notin> set h" "ParseAddr h = None" "HasPrefix h ''*.''"
    | (host) "h \<noteq> []" "CHR ''/'' \<notin> set h" "ParseAddr h = None" "\<not> HasPrefix h ''*.''"
    by (cases "ParseAddr h") auto
  then show ?thesis
  proof cases
    case zone
    have "(HasSuffix host z \<or> host = drop 1 z) \<longleftrightarrow> zone_match (drop 1 (TrimSuffix (drop 1 h) ''.'')) host"
      if "z = ''.'' @ drop 1 (TrimSuffix (drop 1 h) ''.'')" for z
      using that by (subst zone_part) (auto simp: HasPrefix_def)
    then show ?thesis using zone trim_zone [OF zone(4)]
      by (auto simp: add_entry_def entry_matches_def AddZone_def bypasses_def Let_def simp flip: h_def
          split: option.split)
  qed (auto simp: add_entry_def entry_matches_def AddNetwork_def AddIP_def AddHost_def bypasses_def Let_def
      simp flip: h_def split: option.split)
qed

lemma add_entry_dialers [simp]:
  "ph_def (add_entry ParseAddr ParseCIDR e p) = ph_def p"
  "ph_bypass (add_entry ParseAddr ParseCIDR e p) = ph_bypass p"
  by (auto simp: add_entry_def AddNetwork_def AddIP_def AddHost_def AddZone_def Let_def split: option.split)

lemma fold_add_entry:
  "bypasses ParseAddr (fold (add_entry ParseAddr ParseCIDR) es p) host \<longleftrightarrow>
     bypasses ParseAddr p host \<or> (\<exists>e\<in>set es. entry_matches ParseAddr ParseCIDR host e)"
  "ph_def (fold (add_entry ParseAddr ParseCIDR) es p) = ph_def p"
  "ph_bypass (fold (add_entry ParseAddr ParseCIDR) es p) = ph_bypass p"
  by (induction es arbitrary: p) (auto simp: bypasses_add_entry)

lemma new_PerHost [simp]:
  "\<not> bypasses ParseAddr (proxy_NewPerHost d b) host"
  "ph_def (proxy_NewPerHost d b) = d" "ph_bypass (proxy_NewPerHost d b) = b"
  by (simp_all add: bypasses_def proxy_NewPerHost_def split: option.split)

text \<open>
  C35. A \<open>PerHost\<close> made from a comma-separated list dials a host past the proxy exactly when an
  entry of the list stands for it: a range that contains the address, the address itself (in
  either form), the name, or a zone \<open>*.zone\<close> that is the name or ends it after a dot. A named
  host never matches an address, and an entry that does not parse matches nothing.
\<close>
theorem perhost_meaning:
  "dialerForRequest ParseAddr (AddFromString ParseAddr ParseCIDR s (proxy_NewPerHost d b)) host =
     (if \<exists>e\<in>set (split_on (CHR '','') s). entry_matches ParseAddr ParseCIDR host e then b else d)"
  by (simp add: dialerForRequest_eq AddFromString_def fold_add_entry)

lemma perhost_examples:
  fixes d b :: 'd
  defines "p \<equiv> AddFromString (\<lambda>_. None) (\<lambda>_. None) ''*.go.dev., x.org.'' (proxy_NewPerHost d b)"
  shows "dialerForRequest (\<lambda>_. None) p ''a.go.dev'' = b"
    and "dialerForRequest (\<lambda>_. None) p ''go.dev'' = b"
    and "dialerForRequest (\<lambda>_. None) p ''x.org'' = b"
    and "dialerForRequest (\<lambda>_. None) p ''ago.dev'' = d"
  unfolding p_def
  by (simp_all add: AddFromString_def add_entry_def AddZone_def AddHost_def dialerForRequest_def
      proxy_NewPerHost_def TrimSpace_def is_space_def HasPrefix_def HasSuffix_def TrimSuffix_def Let_def
      suffix_def prefix_def)

section \<open>Once is enough\<close>

text \<open>After the first look, the environment plays no part.\<close>

lemma envOnce_stable:
  assumes "envOnce_Get getenv e = (v, e')"
  shows "envOnce_Get getenv' e' = (v, e')"
  using assms by (auto simp: envOnce_Get_def Let_def split: if_splits)

lemma envOnce_init_first:
  "envOnce_init getenv ns [] =
     (case List.find (\<lambda>n. getenv n \<noteq> []) ns of None \<Rightarrow> [] | Some n \<Rightarrow> getenv n)"
  by (induction ns) auto

end
