(* ===== verification/Base64.thy ===== *)
theory Base64
  imports Go_Text
begin

text \<open>
  \<open>base64.StdEncoding\<close> and \<open>base64.RawStdEncoding\<close> (the form without padding), as
  \<open>proxy/shadowsocks.go\<close> and \<open>proxy/http.go\<close> use them. The decoders skip line breaks, reject
  every other character outside the alphabet, want the padding that their encoding has and take
  no notice of the unused bits of the last character.
\<close>

section \<open>The alphabet\<close>

definition b64_char :: "nat \<Rightarrow> char" where
  "b64_char n = char_of
     (if n < 26 then 65 + n
      else if n < 52 then 97 + (n - 26)
      else if n < 62 then 48 + (n - 52)
      else if n = 62 then 43 else 47 :: nat)"

definition b64_value :: "char \<Rightarrow> nat option" where
  "b64_value c =
     (let n = of_char c :: nat in
      if 65 \<le> n \<and> n \<le> 90 then Some (n - 65)
      else if 97 \<le> n \<and> n \<le> 122 then Some (n - 97 + 26)
      else if 48 \<le> n \<and> n \<le> 57 then Some (n - 48 + 52)
      else if n = 43 then Some 62
      else if n = 47 then Some 63
      else None)"

abbreviation "pad \<equiv> CHR ''=''"

lemma b64_value_char: "n < 64 \<Longrightarrow> b64_value (b64_char n) = Some n"
  by (auto simp: b64_value_def b64_char_def Let_def)

lemma b64_value_range: "b64_value c = Some n \<Longrightarrow> n < 64"
  by (auto simp: b64_value_def Let_def split: if_splits)

lemma b64_char_neq: "n < 64 \<Longrightarrow> b64_char n \<noteq> pad \<and> of_char (b64_char n) \<noteq> (10 :: nat) \<and> of_char (b64_char n) \<noteq> (13 :: nat)"
proof -
  assume n: "n < 64"
  have "b64_value pad = None" by (simp add: b64_value_def Let_def)
  then have "b64_char n \<noteq> pad" using b64_value_char [OF n] by auto
  moreover have "of_char (b64_char n) \<noteq> (10 :: nat) \<and> of_char (b64_char n) \<noteq> (13 :: nat)"
    using b64_value_char [OF n] by (auto simp: b64_value_def Let_def split: if_splits)
  ultimately show ?thesis by simp
qed

section \<open>Encoding\<close>

text \<open>\<open>n\<close> bytes as \<open>n + 1\<close> characters; \<open>padded\<close> fills the last group up.\<close>

fun b64_encode :: "bool \<Rightarrow> bytes \<Rightarrow> string" where
  "b64_encode padded [] = []"
| "b64_encode padded [a] =
     [b64_char (unat a div 4), b64_char (unat a mod 4 * 16)] @ (if padded then [pad, pad] else [])"
| "b64_encode padded [a, b] =
     [b64_char (unat a div 4), b64_char (unat a mod 4 * 16 + unat b div 16),
      b64_char (unat b mod 16 * 4)] @ (if padded then [pad] else [])"
| "b64_encode padded (a # b # c # bs) =
     [b64_char (unat a div 4), b64_char (unat a mod 4 * 16 + unat b div 16),
      b64_char (unat b mod 16 * 4 + unat c div 64), b64_char (unat c mod 64)] @ b64_encode padded bs"

section \<open>Decoding\<close>

definition three_bytes :: "nat \<Rightarrow> nat \<Rightarrow> nat \<Rightarrow> nat \<Rightarrow> bytes" where
  "three_bytes p q r s =
     [byte (p * 4 + q div 16), byte (q mod 16 * 16 + r div 4), byte (r mod 4 * 64 + s)]"

fun b64_quads :: "bool \<Rightarrow> string \<Rightarrow> bytes option" where
  "b64_quads padded [] = Some []"
| "b64_quads padded (w # x # y # z # cs) =
     (case (b64_value w, b64_value x) of
        (Some p, Some q) \<Rightarrow>
          if padded \<and> y = pad then (if z = pad \<and> cs = [] then Some (take 1 (three_bytes p q 0 0)) else None)
          else (case b64_value y of
                  None \<Rightarrow> None
                | Some r \<Rightarrow>
                    if padded \<and> z = pad then (if cs = [] then Some (take 2 (three_bytes p q r 0)) else None)
                    else (case (b64_value z, b64_quads padded cs) of
                            (Some s, Some bs) \<Rightarrow> Some (three_bytes p q r s @ bs)
                          | _ \<Rightarrow> None))
      | _ \<Rightarrow> None)"
| "b64_quads padded [w, x] =
     (if padded then None
      else (case (b64_value w, b64_value x) of
              (Some p, Some q) \<Rightarrow> Some (take 1 (three_bytes p q 0 0)) | _ \<Rightarrow> None))"
| "b64_quads padded [w, x, y] =
     (if padded then None
      else (case (b64_value w, b64_value x, b64_value y) of
              (Some p, Some q, Some r) \<Rightarrow> Some (take 2 (three_bytes p q r 0)) | _ \<Rightarrow> None))"
| "b64_quads padded [w] = None"

definition is_break :: "char \<Rightarrow> bool" where
  "is_break c \<longleftrightarrow> of_char c = (10 :: nat) \<or> of_char c = (13 :: nat)"

definition b64_decode :: "bool \<Rightarrow> string \<Rightarrow> bytes option" where
  "b64_decode padded s = b64_quads padded (filter (\<lambda>c. \<not> is_break c) s)"

section \<open>Round trip\<close>

lemma u8_less: "unat (b :: u8) < 256"
  using unsigned_less [of b] by simp

lemma digit_pair:
  fixes x y :: nat
  assumes "y < k"
  shows "(x * k + y) div k = x" "(x * k + y) mod k = y"
  using assms by simp_all

lemma b64_parts:
  fixes a b c :: u8
  shows "unat a div 4 < 64" "unat a mod 4 * 16 + unat b div 16 < 64" "unat a mod 4 * 16 < 64"
    "unat b mod 16 * 4 + unat c div 64 < 64" "unat b mod 16 * 4 < 64" "unat c mod 64 < 64"
proof -
  have "unat b div 16 < 16" "unat c div 64 < 4" "unat a mod 4 < 4" "unat b mod 16 < 16"
    using u8_less [of b] u8_less [of c] by simp_all
  then show "unat a mod 4 * 16 + unat b div 16 < 64" "unat a mod 4 * 16 < 64"
    "unat b mod 16 * 4 + unat c div 64 < 64" "unat b mod 16 * 4 < 64" by linarith+
qed (use u8_less [of a] in simp_all)

lemma quad_parts:
  fixes a b c :: u8
  shows "three_bytes (unat a div 4) (unat a mod 4 * 16 + unat b div 16)
      (unat b mod 16 * 4 + unat c div 64) (unat c mod 64) = [a, b, c]"
proof -
  have l: "unat b div 16 < 16" "unat c div 64 < 4"
    using u8_less [of b] u8_less [of c] by simp_all
  show ?thesis by (simp add: three_bytes_def digit_pair [OF l(1)] digit_pair [OF l(2)]
        mod_less [OF l(1)] mod_less [OF l(2)])
qed

lemmas b64_facts = b64_value_char b64_parts b64_char_neq

lemma b64_quads_encode: "b64_quads padded (b64_encode padded bs) = Some bs"
proof (induction padded bs rule: b64_encode.induct)
  case (2 padded a)
  show ?case using quad_parts [of a 0 0] by (simp add: b64_facts three_bytes_def)
next
  case (3 padded a b)
  show ?case using quad_parts [of a b 0] by (simp add: b64_facts three_bytes_def)
next
  case (4 padded a b c bs)
  then show ?case using quad_parts [of a b c] by (simp add: b64_facts)
qed simp

lemma b64_encode_chars: "c \<in> set (b64_encode padded bs) \<Longrightarrow> \<not> is_break c"
  by (induction padded bs rule: b64_encode.induct)
    (auto simp: is_break_def b64_char_neq b64_parts split: if_splits)

lemma b64_decode_encode [simp]: "b64_decode padded (b64_encode padded bs) = Some bs"
proof -
  have "filter (\<lambda>c. \<not> is_break c) (b64_encode padded bs) = b64_encode padded bs"
    by (rule filter_True) (use b64_encode_chars in blast)
  then show ?thesis by (simp add: b64_decode_def b64_quads_encode)
qed

lemma b64_encode_length: "length (b64_encode True bs) mod 4 = 0"
  by (induction "True" bs rule: b64_encode.induct) simp_all

lemma b64_encode_raw: "length (b64_encode False bs) mod 4 = 0 \<Longrightarrow> b64_encode False bs = b64_encode True bs"
  by (induction "False" bs rule: b64_encode.induct) simp_all

lemma b64_encode_value:
  "c \<in> set (b64_encode padded bs) \<Longrightarrow> c = pad \<or> (\<exists>n<64. c = b64_char n)"
  by (induction padded bs rule: b64_encode.induct)
    (auto simp: b64_parts split: if_splits intro: b64_parts)

end
