(* ===== verification/Units.thy ===== *)
theory Units
  imports Go_Text
begin

text \<open>
  Numbers with a binary unit: \<open>Bytes.UnmarshalYAML\<close> (\<open>bytes.go\<close>) and \<open>rateLimitParseRate\<close>
  (\<open>proxy/ratelimit.go\<close>). Both shift a 64-bit integer to the left without a look at the bits
  that fall off.
\<close>

text \<open>\<open>i << n\<close> on \<open>int64\<close> (and on \<open>int\<close>, which has 64 bits here).\<close>

definition shl64 :: "int \<Rightarrow> nat \<Rightarrow> int" where
  "shl64 i n = sint (push_bit n (word_of_int i :: 64 word))"

section \<open>\<open>Bytes\<close>\<close>

definition byte_unit :: "char \<Rightarrow> nat" where
  "byte_unit c =
     (if c = CHR ''K'' then 10 else if c = CHR ''M'' then 20 else if c = CHR ''G'' then 30
      else if c = CHR ''T'' then 40 else 0)"

text \<open>On the text of the node; \<open>None\<close> is the error of \<open>strconv.ParseInt\<close>.\<close>

definition Bytes_UnmarshalYAML :: "string \<Rightarrow> int option" where
  "Bytes_UnmarshalYAML s =
     (if s = [] then Some 0
      else let n = byte_unit (last s);
               t = (if n > 0 then butlast s else s)
           in map_option (\<lambda>i. shl64 i n) (Atoi t))"

section \<open>Rates\<close>

type_synonym url_values = "(string \<times> string list) list"   \<comment> \<open>\<open>url.Values\<close>\<close>

definition Values_Get :: "url_values \<Rightarrow> string \<Rightarrow> string" where
  "Values_Get vs key = (case map_of vs key of Some (v # _) \<Rightarrow> v | _ \<Rightarrow> [])"

definition rate_unit :: "char \<Rightarrow> nat" where
  "rate_unit c =
     (if c \<in> set ''Kk'' then 10 else if c \<in> set ''Mm'' then 20 else if c \<in> set ''Gg'' then 30 else 0)"

definition TrimRight :: "string \<Rightarrow> string \<Rightarrow> string" where
  "TrimRight s cutset = rev (dropWhile (\<lambda>c. c \<in> set cutset) (rev s))"

fun rateLimitParseRate :: "url_values \<Rightarrow> string list \<Rightarrow> int" where
  "rateLimitParseRate vs [] = 0"
| "rateLimitParseRate vs (key # keys) =
     (let s = Values_Get vs key in
      if s = [] then rateLimitParseRate vs keys
      else (case Atoi (TrimRight s ''KkMmGg'') of
              None \<Rightarrow> 0
            | Some i \<Rightarrow> shl64 i (rate_unit (last s))))"

definition read_rate :: "url_values \<Rightarrow> int" where
  "read_rate vs = rateLimitParseRate vs [''r'', ''read'', ''rw'', ''readwrite'']"

definition write_rate :: "url_values \<Rightarrow> int" where
  "write_rate vs = rateLimitParseRate vs [''w'', ''write'', ''rw'', ''readwrite'']"

section \<open>What the shift does\<close>

lemma shl64_range: "- (2 ^ 63) \<le> shl64 i n \<and> shl64 i n < 2 ^ 63"
proof -
  define w where "w = push_bit n (word_of_int i :: 64 word)"
  have "- (2 ^ (LENGTH(64) - 1)) \<le> sint w" "sint w < 2 ^ (LENGTH(64) - 1)"
    by (rule sint_ge, rule sint_lt)
  then show ?thesis by (simp add: shl64_def w_def)
qed

lemma shl64_eq: "shl64 i n = signed_take_bit 63 (i * 2 ^ n)"
proof -
  have "push_bit n (word_of_int i :: 64 word) = word_of_int (i * 2 ^ n)"
    by (simp add: push_bit_eq_mult)
  then have "shl64 i n = sint (word_of_int (i * 2 ^ n) :: 64 word)" by (simp add: shl64_def)
  also have "\<dots> = signed_take_bit (LENGTH(64) - 1) (i * 2 ^ n)" by (rule sint_sbintrunc')
  finally show ?thesis by simp
qed

lemma shl64_exact: "- (2 ^ 63) \<le> i * 2 ^ n \<Longrightarrow> i * 2 ^ n < 2 ^ 63 \<Longrightarrow> shl64 i n = i * 2 ^ n"
  unfolding shl64_eq by (rule signed_take_bit_int_eq_self) simp_all

lemma shl64_cong: "shl64 i n mod 2 ^ 64 = (i * 2 ^ n) mod 2 ^ 64"
  unfolding shl64_eq using take_bit_signed_take_bit [of 64 63 "i * 2 ^ n"]
  by (simp add: take_bit_eq_mod)

text \<open>
  A number of bytes reads as a decimal number times its unit wherever that fits 64 bits;
  where it does not, the value wraps around silently, and nothing but a number with a sign, at
  most one unit, or the empty text (0) is accepted.
\<close>
theorem bytes_value:
  assumes "Bytes_UnmarshalYAML s = Some b" "s \<noteq> []"
  shows "\<exists>i. Atoi (if byte_unit (last s) > 0 then butlast s else s) = Some i \<and>
    b mod 2 ^ 64 = (i * 2 ^ byte_unit (last s)) mod 2 ^ 64 \<and>
    - (2 ^ 63) \<le> b \<and> b < 2 ^ 63 \<and>
    (- (2 ^ 63) \<le> i * 2 ^ byte_unit (last s) \<and> i * 2 ^ byte_unit (last s) < 2 ^ 63 \<longrightarrow>
       b = i * 2 ^ byte_unit (last s))"
proof -
  from assms obtain i where i: "Atoi (if byte_unit (last s) > 0 then butlast s else s) = Some i"
    "b = shl64 i (byte_unit (last s))"
    by (auto simp: Bytes_UnmarshalYAML_def Let_def)
  then show ?thesis using shl64_range [of i] shl64_exact [of i] shl64_cong [of i] by auto
qed

theorem bytes_value_witness: "\<exists>b. Bytes_UnmarshalYAML ''64K'' = Some b \<and> b = 65536"
proof -
  have a: "Atoi ''64'' = Some 64" by (simp add: Atoi_def split_sign_def is_digit_def)
  then have "Bytes_UnmarshalYAML ''64K'' = Some (shl64 64 10)"
    by (simp add: Bytes_UnmarshalYAML_def byte_unit_def)
  from bytes_value [OF this] a show ?thesis using \<open>Bytes_UnmarshalYAML _ = _\<close>
    by (auto simp: byte_unit_def)
qed

text \<open>Eight million terabytes are a negative number of bytes.\<close>

lemma bytes_overflow: "Bytes_UnmarshalYAML ''8388608T'' = Some (- (2 ^ 63))"
proof -
  have "Atoi ''8388608'' = Some 8388608" by (simp add: Atoi_def split_sign_def is_digit_def)
  then have "Bytes_UnmarshalYAML ''8388608T'' = Some (shl64 8388608 40)"
    by (simp add: Bytes_UnmarshalYAML_def byte_unit_def)
  then show ?thesis by (simp add: shl64_eq signed_take_bit_eq_if_negative)
qed

text \<open>
  Units may be stacked at the end of a rate: only the last one counts. A rate that does not fit
  comes out as any number, such as a negative one, with which there is no limit.
\<close>

lemma rate_examples:
  "rateLimitParseRate [(''r'', [''10KM''])] [''r''] = 10 * 2 ^ 20"
  "rateLimitParseRate [(''rw'', [''8589934592G''])] [''r'', ''rw''] = - (2 ^ 63)"
proof -
  have "Atoi ''10'' = Some 10" "Atoi ''8589934592'' = Some 8589934592"
    by (simp_all add: Atoi_def split_sign_def is_digit_def)
  then show "rateLimitParseRate [(''r'', [''10KM''])] [''r''] = 10 * 2 ^ 20"
    and "rateLimitParseRate [(''rw'', [''8589934592G''])] [''r'', ''rw''] = - (2 ^ 63)"
    by (simp_all add: Values_Get_def TrimRight_def rate_unit_def shl64_eq signed_take_bit_eq_if_negative
        signed_take_bit_int_eq_self)
qed

end
