(* ===== verification/Dialers.thy ===== *)
theory Dialers
  imports Socks5_Client Per_Host Base64 Units
begin

text \<open>
  The dialers of package \<open>proxy\<close> and \<open>Proxy\<close> of \<open>proxy.go\<close>: a dialer for each URL scheme
  (\<open>tcptun.go\<close>, \<open>http.go\<close>, \<open>ratelimit.go\<close>, \<open>websocket.go\<close>, \<open>socks.go\<close>, \<open>shadowsocks.go\<close>),
  their registry and \<open>FromURL\<close>, the chains that \<open>MakeProxy\<close> builds from them, and the dialer
  that the environment asks for.

  The structs of the dialers have a field \<open>Forward\<close> next to their own fields; \<open>Over\<close> joins the
  two. What a dial does to the network is its list of hops, the outermost connection first;
  \<open>up p h\<close> says whether the hop \<open>h\<close> succeeds at the end of the path \<open>p\<close>. Parameters stand for
  \<open>url.Parse\<close>, \<open>core.PickCipher\<close>, \<open>socks.ParseAddr\<close> of go-shadowsocks2, SHA-1, and what the
  websocket library does with a connection when its handshake fails.
\<close>

section \<open>URLs\<close>

record url =
  u_Scheme :: string
  u_User :: "(string \<times> string option) option"   \<comment> \<open>name and, if one is set, password\<close>
  u_Host :: string
  u_Path :: string
  u_Query :: url_values

definition valid_optional_port :: "string \<Rightarrow> bool" where
  "valid_optional_port p \<longleftrightarrow> p = [] \<or> (hd p = CHR '':'' \<and> list_all is_digit (tl p))"

text \<open>\<open>URL.Hostname\<close> and \<open>URL.Port\<close>.\<close>

definition url_split :: "string \<Rightarrow> string \<times> string" where
  "url_split h =
     (let (host, port) =
        (case last_index_byte (CHR '':'') h of
           None \<Rightarrow> (h, [])
         | Some i \<Rightarrow> if valid_optional_port (drop i h) then (take i h, drop (i + 1) h) else (h, []))
      in (if HasPrefix host ''['' \<and> HasSuffix host '']'' then butlast (drop 1 host) else host, port))"

definition url_Hostname :: "url \<Rightarrow> string" where "url_Hostname u = fst (url_split (u_Host u))"
definition url_Port :: "url \<Rightarrow> string" where "url_Port u = snd (url_split (u_Host u))"

section \<open>Dialers\<close>

type_synonym proxy_Auth = "(string \<times> string) option"

datatype 'k wrapper =
    tcptunDialer string bool              \<comment> \<open>\<open>Server\<close>, \<open>HasPort\<close>\<close>
  | httpDialer string proxy_Auth          \<comment> \<open>\<open>Server\<close>, \<open>Auth\<close>\<close>
  | rateLimitDialer int int               \<comment> \<open>\<open>ReadRate\<close>, \<open>WriteRate\<close>\<close>
  | wsDialer url
  | socksDialer socks_Dialer              \<comment> \<open>around the dialer of \<open>proxy_SOCKS5\<close>\<close>
  | socks5Dialer socks_Dialer             \<comment> \<open>the dialer of \<open>proxy_SOCKS5\<close> by itself\<close>
  | shadowsocksDialer string 'k           \<comment> \<open>\<open>Server\<close>, \<open>Cipher\<close>\<close>

datatype 'k dialer =
    Direct
  | blockOrReset bool
  | Foreign nat                           \<comment> \<open>a dialer given to \<open>ProxyFromDialer\<close>\<close>
  | Over "'k wrapper" "'k dialer"

definition url_auth :: "url \<Rightarrow> proxy_Auth" where
  "url_auth u = map_option (\<lambda>(name, pw). (name, case pw of Some p \<Rightarrow> p | None \<Rightarrow> [])) (u_User u)"

datatype dialer_error = UnknownScheme string | UnknownSS url | UnknownCipher url | BadURL

type_synonym 'k from_url = "url \<Rightarrow> 'k dialer \<Rightarrow> dialer_error + 'k dialer"

definition tcptunFromURL :: "'k from_url" where
  "tcptunFromURL u forward = Inr (Over (tcptunDialer (u_Host u) (url_Port u \<noteq> [])) forward)"

definition httpFromURL :: "'k from_url" where
  "httpFromURL u forward =
     (let host = u_Host u;
          host = (if url_Port u = [] then JoinHostPort host ''80'' else host)
      in Inr (Over (httpDialer host (url_auth u)) forward))"

definition rateLimitFromURL :: "'k from_url" where
  "rateLimitFromURL u forward =
     Inr (Over (rateLimitDialer (read_rate (u_Query u)) (write_rate (u_Query u))) forward)"

definition wsFromURL :: "'k from_url" where
  "wsFromURL u forward = Inr (Over (wsDialer u) forward)"

definition socksFromURL :: "'k from_url" where
  "socksFromURL u forward = Inr (Over (socksDialer (proxy_SOCKS5 ''tcp'' (u_Host u) (url_auth u))) forward)"

definition ReplaceAll :: "char \<Rightarrow> char \<Rightarrow> string \<Rightarrow> string" where
  "ReplaceAll old new s = map (\<lambda>c. if c = old then new else c) s"

definition decodeBase64String :: "string \<Rightarrow> bytes option" where
  "decodeBase64String s =
     (let s = ReplaceAll (CHR ''-'') (CHR ''+'') s;
          s = ReplaceAll (CHR ''_'') (CHR ''/'') s
      in b64_decode (length s mod 4 = 0) s)"

text \<open>\<open>strings.SplitN(s, ":", 2)\<close>, where it has two parts.\<close>

definition split_two :: "string \<Rightarrow> (string \<times> string) option" where
  "split_two s = map_option (\<lambda>i. (take i s, drop (i + 1) s)) (index_byte (CHR '':'') s)"

definition shadowsocksFromURL :: "(string \<Rightarrow> url option) \<Rightarrow> (string \<Rightarrow> string \<Rightarrow> 'k option) \<Rightarrow> 'k from_url" where
  "shadowsocksFromURL Parse PickCipher u0 forward =
     (let reparsed =
        (case u_User u0 of
           Some _ \<Rightarrow> Some u0
         | None \<Rightarrow>
             (case decodeBase64String (u_Host u0) of
                None \<Rightarrow> None
              | Some bs \<Rightarrow> Parse (u_Scheme u0 @ ''://'' @ string_of bs)))
      in case reparsed of
           None \<Rightarrow> Inl (UnknownSS u0)
         | Some u \<Rightarrow>
             (case u_User u of
                None \<Rightarrow> Inl (UnknownSS u0)
              | Some (name, pw) \<Rightarrow>
                  (case (case pw of
                           Some password \<Rightarrow> Some (name, password)
                         | None \<Rightarrow>
                             (case decodeBase64String name of
                                None \<Rightarrow> None
                              | Some bs \<Rightarrow> split_two (string_of bs))) of
                     None \<Rightarrow> Inl (UnknownSS u0)
                   | Some (method, password) \<Rightarrow>
                       (case PickCipher method password of
                          None \<Rightarrow> Inl (UnknownCipher u0)
                        | Some cipher \<Rightarrow> Inr (Over (shadowsocksDialer (u_Host u) cipher) forward)))))"

text \<open>\<open>proxySchemes\<close>, as the \<open>init\<close> functions of the package leave it.\<close>

definition RegisterDialerType ::
  "string \<Rightarrow> 'k from_url \<Rightarrow> (string \<rightharpoonup> 'k from_url) \<Rightarrow> (string \<rightharpoonup> 'k from_url)" where
  "RegisterDialerType scheme f m = m(scheme \<mapsto> f)"

definition proxySchemes ::
  "(string \<Rightarrow> url option) \<Rightarrow> (string \<Rightarrow> string \<Rightarrow> 'k option) \<Rightarrow> string \<rightharpoonup> 'k from_url" where
  "proxySchemes Parse PickCipher =
     RegisterDialerType ''ws'' wsFromURL
      (RegisterDialerType ''tcptun'' tcptunFromURL
      (RegisterDialerType ''socks'' socksFromURL
      (RegisterDialerType ''ss'' (shadowsocksFromURL Parse PickCipher)
      (RegisterDialerType ''ratelimit'' rateLimitFromURL
      (RegisterDialerType ''http'' httpFromURL Map.empty)))))"

definition proxy_FromURL :: "(string \<rightharpoonup> 'k from_url) \<Rightarrow> 'k from_url" where
  "proxy_FromURL schemes u forward =
     (if u_Scheme u = ''socks5'' \<or> u_Scheme u = ''socks5h'' then
        (let addr = url_Hostname u;
             port = (if url_Port u = [] then ''1080'' else url_Port u)
         in Inr (Over (socks5Dialer (proxy_SOCKS5 ''tcp'' (JoinHostPort addr port) (url_auth u))) forward))
      else (case schemes (u_Scheme u) of
              Some f \<Rightarrow> f u forward
            | None \<Rightarrow> Inl (UnknownScheme (u_Scheme u))))"

definition FromURL :: "(string \<rightharpoonup> 'k from_url) \<Rightarrow> 'k from_url" where
  "FromURL schemes u forward =
     (let u = (if u_Scheme u = ''socks5'' \<or> u_Scheme u = ''socks5h'' then u\<lparr>u_Scheme := ''socks''\<rparr> else u)
      in proxy_FromURL schemes u forward)"

section \<open>Dialing\<close>

datatype 'k hop =
    TCP string string                     \<comment> \<open>network and address of a \<open>net.Dialer\<close>\<close>
  | ForeignHop nat string string
  | Limit int int
  | HTTPConnect string proxy_Auth
  | WebSocket url
  | SOCKS5 socks_Dialer string
  | Shadowsocks 'k bytes

datatype 'k dial_error =
    NotImplemented string string          \<comment> \<open>scheme, network\<close>
  | DialError string string "'k dial_error"
  | OverError string string string        \<comment> \<open>scheme, address, server\<close>
  | ParseAddrError string
  | NetError "'k hop"
  | ContextDone
  | CloseConn

text \<open>
  What the dials meet: whether a dial or an exchange succeeds, on the hops behind it, and whether
  the connection of the exchange is open when it is over. Theory Proxy_Conn makes both from the
  code of the exchanges (\<open>dial_env_of\<close>).
\<close>

record 'k dial_env =
  de_up :: "'k hop list \<Rightarrow> 'k hop \<Rightarrow> bool"
  de_open :: "'k hop list \<Rightarrow> 'k hop \<Rightarrow> bool"
  de_ParseAddr :: "string \<Rightarrow> bytes option"

text \<open>The result of a dial and how many of the connections that it made are open afterwards.\<close>

type_synonym 'k dial_result = "('k dial_error + 'k hop list) \<times> nat"

definition is_tcp :: "string \<Rightarrow> bool" where
  "is_tcp network \<longleftrightarrow> network = ''tcp'' \<or> network = ''tcp4'' \<or> network = ''tcp6''"

definition tcptun_target :: "string \<Rightarrow> bool \<Rightarrow> string \<Rightarrow> string" where
  "tcptun_target server hasPort addr =
     (if \<not> hasPort
      then JoinHostPort server (case SplitHostPort addr of None \<Rightarrow> [] | Some (_, port) \<Rightarrow> port)
      else server)"

definition ws_url :: "url \<Rightarrow> string \<Rightarrow> url" where
  "ws_url u addr =
     (let u = (if u_Host u = [] then u\<lparr>u_Host := addr\<rparr> else u)
      in if u_Path u = [] then u\<lparr>u_Path := ''/''\<rparr> else u)"

text \<open>An exchange on the connection that was made, with its result and what is open after it.\<close>

definition add_hop :: "'k dial_env \<Rightarrow> 'k hop list \<times> nat \<Rightarrow> 'k hop \<Rightarrow> 'k dial_error \<Rightarrow> 'k dial_result" where
  "add_hop env = (\<lambda>(p, n) h e.
     (if de_up env p h then Inr (p @ [h]) else Inl e, if de_open env p h then n else n - 1))"

text \<open>\<open>socks_Dialer.DialContext\<close> (theory Socks5_Client) as a hop.\<close>

definition socks5_DialContext ::
  "'k dial_env \<Rightarrow> socks_Dialer \<Rightarrow> (string \<Rightarrow> string \<Rightarrow> 'k dial_result) \<Rightarrow> string \<Rightarrow> string \<Rightarrow> 'k dial_result" where
  "socks5_DialContext env d fwd network addr =
     (if socks_validateTarget d network \<noteq> None then (Inl (NotImplemented ''socks5'' network), 0)
      else (case fwd (sd_proxyNetwork d) (sd_proxyAddress d) of
              (Inl e, n) \<Rightarrow> (Inl (DialError ''socks5'' (sd_proxyAddress d) e), n)
            | (Inr p, n) \<Rightarrow> add_hop env (p, n) (SOCKS5 d addr) (NetError (SOCKS5 d addr))))"

text \<open>
  \<open>DialContext\<close> of each wrapper; \<open>fwd\<close> is that of its forwarder. The exchange on the connection
  is one hop here; theory Proxy_Conn has what the HTTP, SOCKS5 and Shadowsocks dialers do in it.
\<close>

definition tcptun_DialContext ::
  "string \<Rightarrow> bool \<Rightarrow> (string \<Rightarrow> string \<Rightarrow> 'k dial_result) \<Rightarrow> string \<Rightarrow> string \<Rightarrow> 'k dial_result" where
  "tcptun_DialContext server hasPort fwd network addr =
     (if \<not> is_tcp network then (Inl (NotImplemented ''tcptun'' network), 0)
      else (case fwd network (tcptun_target server hasPort addr) of
              (Inl e, n) \<Rightarrow> (Inl (DialError ''tcptun'' server e), n)
            | (Inr p, n) \<Rightarrow> (Inr p, n)))"

definition http_DialContext ::
  "'k dial_env \<Rightarrow> string \<Rightarrow> proxy_Auth \<Rightarrow> (string \<Rightarrow> string \<Rightarrow> 'k dial_result) \<Rightarrow> string \<Rightarrow> string \<Rightarrow> 'k dial_result" where
  "http_DialContext env server auth fwd network addr =
     (if \<not> is_tcp network then (Inl (NotImplemented ''http'' network), 0)
      else (case fwd network server of
              (Inl e, n) \<Rightarrow> (Inl (DialError ''http'' server e), n)
            | (Inr p, n) \<Rightarrow> add_hop env (p, n) (HTTPConnect addr auth) (OverError ''http'' addr server)))"

definition rateLimit_DialContext ::
  "int \<Rightarrow> int \<Rightarrow> (string \<Rightarrow> string \<Rightarrow> 'k dial_result) \<Rightarrow> string \<Rightarrow> string \<Rightarrow> 'k dial_result" where
  "rateLimit_DialContext r w fwd network addr =
     (if \<not> is_tcp network then (Inl (NotImplemented ''ratelimit'' network), 0)
      else (case fwd network addr of
              (Inl e, n) \<Rightarrow> (Inl (DialError ''ratelimit'' addr e), n)
            | (Inr p, n) \<Rightarrow> (Inr (if r > 0 \<or> w > 0 then p @ [Limit r w] else p), n)))"

definition ws_DialContext ::
  "'k dial_env \<Rightarrow> url \<Rightarrow> (string \<Rightarrow> string \<Rightarrow> 'k dial_result) \<Rightarrow> string \<Rightarrow> string \<Rightarrow> 'k dial_result" where
  "ws_DialContext env u fwd network addr =
     (if \<not> is_tcp network then (Inl (NotImplemented ''websocket'' network), 0)
      else (case fwd ''tcp'' addr of
              (Inl e, n) \<Rightarrow> (Inl (DialError ''websocket'' (u_Host (ws_url u addr)) e), n)
            | (Inr p, n) \<Rightarrow>
                add_hop env (p, n) (WebSocket (ws_url u addr)) (NetError (WebSocket (ws_url u addr)))))"

definition socks_over_DialContext ::
  "'k dial_env \<Rightarrow> socks_Dialer \<Rightarrow> (string \<Rightarrow> string \<Rightarrow> 'k dial_result) \<Rightarrow> string \<Rightarrow> string \<Rightarrow> 'k dial_result" where
  "socks_over_DialContext env d fwd network addr =
     (if \<not> is_tcp network then (Inl (NotImplemented ''socks'' network), 0)
      else (case socks5_DialContext env d fwd network addr of
              (Inl e, n) \<Rightarrow> (Inl (DialError ''socks'' addr e), n)
            | (Inr p, n) \<Rightarrow> (Inr p, n)))"

definition ss_DialContext ::
  "'k dial_env \<Rightarrow> string \<Rightarrow> 'k \<Rightarrow> (string \<Rightarrow> string \<Rightarrow> 'k dial_result) \<Rightarrow> string \<Rightarrow> string \<Rightarrow> 'k dial_result" where
  "ss_DialContext env server cipher fwd network addr =
     (if \<not> is_tcp network then (Inl (NotImplemented ''shadowsocks'' network), 0)
      else (case de_ParseAddr env addr of
              None \<Rightarrow> (Inl (ParseAddrError addr), 0)
            | Some remote \<Rightarrow>
                (case fwd network server of
                   (Inl e, n) \<Rightarrow> (Inl (DialError ''shadowsocks'' server e), n)
                 | (Inr p, n) \<Rightarrow>
                     add_hop env (p, n) (Shadowsocks cipher remote) (NetError (Shadowsocks cipher remote)))))"

fun wrapper_DialContext ::
  "'k dial_env \<Rightarrow> 'k wrapper \<Rightarrow> (string \<Rightarrow> string \<Rightarrow> 'k dial_result) \<Rightarrow> string \<Rightarrow> string \<Rightarrow> 'k dial_result" where
  "wrapper_DialContext env (tcptunDialer server hasPort) = tcptun_DialContext server hasPort"
| "wrapper_DialContext env (httpDialer server auth) = http_DialContext env server auth"
| "wrapper_DialContext env (rateLimitDialer r w) = rateLimit_DialContext r w"
| "wrapper_DialContext env (wsDialer u) = ws_DialContext env u"
| "wrapper_DialContext env (socks5Dialer d) = socks5_DialContext env d"
| "wrapper_DialContext env (socksDialer d) = socks_over_DialContext env d"
| "wrapper_DialContext env (shadowsocksDialer server cipher) = ss_DialContext env server cipher"

lemmas wrapper_DialContext_defs [simp] =
  tcptun_DialContext_def http_DialContext_def rateLimit_DialContext_def ws_DialContext_def
  socks_over_DialContext_def ss_DialContext_def

fun DialContext :: "'k dial_env \<Rightarrow> 'k dialer \<Rightarrow> string \<Rightarrow> string \<Rightarrow> 'k dial_result" where
  "DialContext env Direct network addr =
     (if de_up env [] (TCP network addr) then (Inr [TCP network addr], 1)
      else (Inl (NetError (TCP network addr)), 0))"
| "DialContext env (blockOrReset block) network addr =
     (if block then (Inl ContextDone, 0) else (Inl CloseConn, 0))"
| "DialContext env (Foreign i) network addr =
     (if de_up env [] (ForeignHop i network addr) then (Inr [ForeignHop i network addr], 1)
      else (Inl (NetError (ForeignHop i network addr)), 0))"
| "DialContext env (Over w forward) network addr =
     wrapper_DialContext env w (DialContext env forward) network addr"

end
