(* ===== verification/Proxy.thy ===== *)
theory Proxy
  imports Dialers
begin

text \<open>
  \<open>Proxy\<close> (\<open>proxy.go\<close>): chains of dialers made from URLs, their checksum and the comparison by
  it; the dialer of the environment (\<open>proxy_FromEnvironmentUsing\<close>); and what the chains are for:
  which hops a dial takes, and in which order.
\<close>

section \<open>\<open>strings.EqualFold\<close> with an ASCII text\<close>

function runes_of :: "bytes \<Rightarrow> rune list" where
  "runes_of bs =
     (if bs = [] then []
      else fst (decode_rune bs) # runes_of (drop (max 1 (snd (decode_rune bs))) bs))"
  by pat_completeness auto
termination by (relation "measure length") auto

declare runes_of.simps [simp del]

text \<open>
  The letters of ASCII fold to each other, and two of them to one more letter each: \<open>k\<close> to the
  Kelvin sign and \<open>s\<close> to the long s.
\<close>

definition fold_rune :: "rune \<Rightarrow> rune" where
  "fold_rune r =
     (if 65 \<le> r \<and> r \<le> 90 then r + 32 else if r = 0x212A then 107 else if r = 0x17F then 115 else r)"

definition EqualFold :: "string \<Rightarrow> string \<Rightarrow> bool" where
  "EqualFold s t \<longleftrightarrow> map fold_rune (runes_of (bytes_of s)) = map fold_rune (runes_of (bytes_of t))"

section \<open>\<open>Proxy\<close>\<close>

record 'k proxy =
  px_d :: "'k dialer option"
  px_sum :: string

definition skip_url :: "string \<Rightarrow> bool" where
  "skip_url s \<longleftrightarrow> s = [] \<or> EqualFold s ''Direct''"

fun MakeProxy_loop ::
  "(string \<Rightarrow> url option) \<Rightarrow> (string \<rightharpoonup> 'k from_url) \<Rightarrow> string list \<Rightarrow> 'k dialer \<Rightarrow> string \<Rightarrow>
     dialer_error + ('k proxy + 'k dialer \<times> string)" where
  "MakeProxy_loop Parse schemes [] fwd h = Inr (Inr (fwd, h))"
| "MakeProxy_loop Parse schemes (s # urls) fwd h =
     (if skip_url s then MakeProxy_loop Parse schemes urls fwd h
      else if EqualFold s ''Block''
      then Inr (Inl \<lparr>px_d = Some (blockOrReset True), px_sum = ''Block''\<rparr>)
      else if EqualFold s ''Reset''
      then Inr (Inl \<lparr>px_d = Some (blockOrReset False), px_sum = ''Reset''\<rparr>)
      else (case Parse s of
              None \<Rightarrow> Inl BadURL
            | Some u \<Rightarrow>
                (case FromURL schemes u fwd of
                   Inl e \<Rightarrow> Inl e
                 | Inr d \<Rightarrow> MakeProxy_loop Parse schemes urls d (h @ s @ [CHR 0x0A]))))"

definition MakeProxy ::
  "(string \<Rightarrow> string) \<Rightarrow> (string \<Rightarrow> url option) \<Rightarrow> (string \<rightharpoonup> 'k from_url) \<Rightarrow> 'k dialer option \<Rightarrow>
     string list \<Rightarrow> dialer_error + 'k proxy" where
  "MakeProxy sha1 Parse schemes fwd0 urls =
     (let fwd = (case fwd0 of None \<Rightarrow> Direct | Some d \<Rightarrow> d) in
      case MakeProxy_loop Parse schemes urls fwd [] of
        Inl e \<Rightarrow> Inl e
      | Inr (Inl p) \<Rightarrow> Inr p
      | Inr (Inr (fwd, h)) \<Rightarrow> Inr \<lparr>px_d = Some fwd, px_sum = (if fwd \<noteq> Direct then sha1 h else [])\<rparr>)"

definition ProxyFromDialer :: "'k dialer \<Rightarrow> 'k proxy" where
  "ProxyFromDialer d = \<lparr>px_d = Some d, px_sum = []\<rparr>"



definition proxy_Dialer :: "'k proxy \<Rightarrow> 'k dialer" where
  "proxy_Dialer p = (case px_d p of Some d \<Rightarrow> d | None \<Rightarrow> Direct)"

text \<open>
  The node as a list of texts, if it decodes as one, and as a text. \<open>None\<close>: \<open>errInvalidProxy\<close>;
  otherwise the error or the proxy that \<open>*p\<close> becomes.
\<close>

definition proxy_UnmarshalYAML ::
  "(string \<Rightarrow> string) \<Rightarrow> (string \<Rightarrow> url option) \<Rightarrow> (string \<rightharpoonup> 'k from_url) \<Rightarrow>
     string list option \<Rightarrow> string option \<Rightarrow> (dialer_error + 'k proxy) option" where
  "proxy_UnmarshalYAML sha1 Parse schemes as_list as_text =
     (case (case as_list of Some urls \<Rightarrow> Some urls | None \<Rightarrow> map_option (\<lambda>s. [s]) as_text) of
        None \<Rightarrow> None
      | Some urls \<Rightarrow> Some (MakeProxy sha1 Parse schemes None (reverse_slice urls)))"

text \<open>\<open>StringList.UnmarshalYAML\<close> takes nodes in the same way.\<close>

definition StringList_UnmarshalYAML :: "string list option \<Rightarrow> string option \<Rightarrow> string list option" where
  "StringList_UnmarshalYAML as_list as_text =
     (case as_list of Some xs \<Rightarrow> Some xs | None \<Rightarrow> map_option (\<lambda>s. [s]) as_text)"

section \<open>The dialer of the environment\<close>

datatype 'k env_dialer = Plain "'k dialer" | PerHost "'k dialer proxy_PerHost"

definition proxy_FromEnvironmentUsing ::
  "(string \<Rightarrow> bytes option) \<Rightarrow> (string \<Rightarrow> ip_net option) \<Rightarrow> (string \<Rightarrow> url option) \<Rightarrow> (string \<rightharpoonup> 'k from_url) \<Rightarrow>
     (string \<Rightarrow> string) \<Rightarrow> proxy_envOnce \<times> proxy_envOnce \<Rightarrow> 'k dialer \<Rightarrow>
     'k env_dialer \<times> proxy_envOnce \<times> proxy_envOnce" where
  "proxy_FromEnvironmentUsing ParseAddr ParseCIDR Parse schemes getenv st forward =
     (let (allProxy, a) = envOnce_Get getenv (fst st) in
      if length allProxy = 0 then (Plain forward, a, snd st)
      else (case Parse allProxy of
              None \<Rightarrow> (Plain forward, a, snd st)
            | Some proxyURL \<Rightarrow>
                (case proxy_FromURL schemes proxyURL forward of
                   Inl e \<Rightarrow> (Plain forward, a, snd st)
                 | Inr p \<Rightarrow>
                     (let (noProxy, n) = envOnce_Get getenv (snd st) in
                      if length noProxy = 0 then (Plain p, a, n)
                      else (PerHost (AddFromString ParseAddr ParseCIDR noProxy (proxy_NewPerHost p forward)),
                            a, n)))))"

text \<open>\<open>DialContext\<close> of the result; \<open>None\<close> is the error of \<open>SplitHostPort\<close>.\<close>

definition env_DialContext ::
  "(string \<Rightarrow> bytes option) \<Rightarrow> 'k dial_env \<Rightarrow> 'k env_dialer \<Rightarrow> string \<Rightarrow> string \<Rightarrow> 'k dial_result option" where
  "env_DialContext ParseAddr env x network addr =
     (case x of
        Plain d \<Rightarrow> Some (DialContext env d network addr)
      | PerHost p \<Rightarrow>
          map_option (\<lambda>d. DialContext env d network addr) (PerHost_dialer ParseAddr p addr))"

section \<open>The order of a chain\<close>

text \<open>
  What each proxy on the way does: the address that it wants its forwarder to dial, the network it
  asks for, and its own hops.
\<close>

fun via :: "(string \<Rightarrow> bytes option) \<Rightarrow> 'k wrapper \<Rightarrow> string \<times> string \<Rightarrow> string \<times> string" where
  "via pa (tcptunDialer server hasPort) (n, a) = (n, tcptun_target server hasPort a)"
| "via pa (httpDialer server auth) (n, a) = (n, server)"
| "via pa (rateLimitDialer r w) (n, a) = (n, a)"
| "via pa (wsDialer u) (n, a) = (''tcp'', a)"
| "via pa (socksDialer d) (n, a) = (sd_proxyNetwork d, sd_proxyAddress d)"
| "via pa (socks5Dialer d) (n, a) = (sd_proxyNetwork d, sd_proxyAddress d)"
| "via pa (shadowsocksDialer server k) (n, a) = (n, server)"

fun own_hops :: "(string \<Rightarrow> bytes option) \<Rightarrow> 'k wrapper \<Rightarrow> string \<times> string \<Rightarrow> 'k hop list" where
  "own_hops pa (tcptunDialer server hasPort) (n, a) = []"
| "own_hops pa (httpDialer server auth) (n, a) = [HTTPConnect a auth]"
| "own_hops pa (rateLimitDialer r w) (n, a) = (if r > 0 \<or> w > 0 then [Limit r w] else [])"
| "own_hops pa (wsDialer u) (n, a) = [WebSocket (ws_url u a)]"
| "own_hops pa (socksDialer d) (n, a) = [SOCKS5 d a]"
| "own_hops pa (socks5Dialer d) (n, a) = [SOCKS5 d a]"
| "own_hops pa (shadowsocksDialer server k) (n, a) = (case pa a of Some b \<Rightarrow> [Shadowsocks k b] | None \<Rightarrow> [])"

text \<open>The proxies in dial order, the first one nearest to the direct connection.\<close>

fun route_hops :: "(string \<Rightarrow> bytes option) \<Rightarrow> 'k wrapper list \<Rightarrow> string \<times> string \<Rightarrow> 'k hop list" where
  "route_hops pa [] (n, a) = [TCP n a]"
| "route_hops pa (w # ws) (n, a) = route_hops pa ws (via pa w (n, a)) @ own_hops pa w (n, a)"

definition dial_hops :: "(string \<Rightarrow> bytes option) \<Rightarrow> 'k wrapper list \<Rightarrow> string \<Rightarrow> string \<Rightarrow> 'k hop list" where
  "dial_hops pa ws n a = route_hops pa (rev ws) (n, a)"

definition chain :: "'k dialer \<Rightarrow> 'k wrapper list \<Rightarrow> 'k dialer" where
  "chain d ws = fold Over ws d"

text \<open>A dialer made by the package has no other command than \<open>CONNECT\<close> over TCP.\<close>

fun wrapper_ok :: "'k wrapper \<Rightarrow> bool" where
  "wrapper_ok (socksDialer d) \<longleftrightarrow> is_tcp (sd_proxyNetwork d) \<and> sd_cmd d = socks_CmdConnect"
| "wrapper_ok (socks5Dialer d) \<longleftrightarrow> is_tcp (sd_proxyNetwork d) \<and> sd_cmd d = socks_CmdConnect"
| "wrapper_ok _ \<longleftrightarrow> True"

definition network_up :: "'k dial_env \<Rightarrow> bool" where
  "network_up env \<longleftrightarrow> (\<forall>p h. de_up env p h \<and> de_open env p h) \<and> (\<forall>a. de_ParseAddr env a \<noteq> None)"

lemma via_tcp: "is_tcp n \<Longrightarrow> wrapper_ok w \<Longrightarrow> is_tcp (fst (via pa w (n, a)))"
  by (cases w) (auto simp: is_tcp_def)

lemma wrapper_path:
  assumes up: "network_up env" and ok: "wrapper_ok w" and n: "is_tcp n"
    and fwd: "\<And>n a. is_tcp n \<Longrightarrow> fwd n a = (Inr (f (n, a)), 1)"
  shows "wrapper_DialContext env w fwd n a =
    (Inr (f (via (de_ParseAddr env) w (n, a)) @ own_hops (de_ParseAddr env) w (n, a)), 1)"
proof -
  have up1: "de_up env p h" "de_open env p h" for p h using up by (simp_all add: network_up_def)
  obtain b where b: "de_ParseAddr env a = Some b"
    using up unfolding network_up_def by (meson not_None_eq)
  have t: "is_tcp ''tcp''" by (simp add: is_tcp_def)
  have v: "socks_validateTarget d n = None" if "sd_cmd d = socks_CmdConnect" for d
    using n that by (auto simp: socks_validateTarget_def is_tcp_def)
  show ?thesis using ok n b t v
    by (cases w) (auto simp: fwd up1 socks5_DialContext_def add_hop_def)
qed

lemma chain_path:
  assumes "network_up env" "\<forall>w\<in>set ws. wrapper_ok w" "is_tcp n"
  shows "DialContext env (foldr Over ws Direct) n a = (Inr (route_hops (de_ParseAddr env) ws (n, a)), 1)"
  using assms(2,3)
proof (induction ws arbitrary: n a)
  case Nil
  then show ?case using assms(1) by (simp add: network_up_def)
next
  case (Cons w ws)
  have "wrapper_DialContext env w (DialContext env (foldr Over ws Direct)) n a =
    (Inr (route_hops (de_ParseAddr env) ws (via (de_ParseAddr env) w (n, a)) @
      own_hops (de_ParseAddr env) w (n, a)), 1)"
    using Cons by (intro wrapper_path [OF assms(1)]) auto
  then show ?case by simp
qed

lemma chain_rev: "chain d ws = foldr Over (rev ws) d"
  by (simp add: chain_def foldr_conv_fold)

section \<open>What \<open>MakeProxy\<close> makes\<close>

definition is_wrapper_of :: "(string \<rightharpoonup> 'k from_url) \<Rightarrow> url \<Rightarrow> 'k wrapper \<Rightarrow> bool" where
  "is_wrapper_of schemes u w \<longleftrightarrow> wrapper_ok w \<and> (\<forall>fwd. FromURL schemes u fwd = Inr (Over w fwd))"

lemma wrapper_ok_SOCKS5: "wrapper_ok (socksDialer (proxy_SOCKS5 ''tcp'' a auth))"
  by (simp add: proxy_SOCKS5_def socks_NewDialer_def is_tcp_def split: option.split)

lemma FromURL_socks:
  "u_Scheme u = ''socks5'' \<or> u_Scheme u = ''socks5h'' \<or> u_Scheme u = ''socks'' \<Longrightarrow>
   FromURL (proxySchemes Parse PickCipher) u fwd = socksFromURL u fwd"
  by (auto simp: FromURL_def proxy_FromURL_def proxySchemes_def RegisterDialerType_def socksFromURL_def
      url_auth_def)

lemma FromURL_wrapper:
  assumes "FromURL (proxySchemes Parse PickCipher) u fwd = Inr d"
  shows "\<exists>w. d = Over w fwd \<and> is_wrapper_of (proxySchemes Parse PickCipher) u w"
proof -
  consider "u_Scheme u = ''ws''" | "u_Scheme u = ''tcptun''" | (ss) "u_Scheme u = ''ss''"
    | "u_Scheme u = ''ratelimit''" | "u_Scheme u = ''http''"
    | (socks) "u_Scheme u = ''socks5'' \<or> u_Scheme u = ''socks5h'' \<or> u_Scheme u = ''socks''"
    | (other) "u_Scheme u \<notin> {''ws'', ''tcptun'', ''ss'', ''ratelimit'', ''http'', ''socks5'', ''socks5h'', ''socks''}"
    by auto
  then show ?thesis
  proof cases
    case socks
    note eq = FromURL_socks [OF this]
    show ?thesis using assms
      by (auto simp: eq is_wrapper_of_def socksFromURL_def simp del: wrapper_ok.simps intro: wrapper_ok_SOCKS5)
  next
    case ss
    then have "FromURL (proxySchemes Parse PickCipher) u f = shadowsocksFromURL Parse PickCipher u f" for f
      by (simp add: FromURL_def proxy_FromURL_def proxySchemes_def RegisterDialerType_def)
    then show ?thesis using assms
      by (auto simp: is_wrapper_of_def shadowsocksFromURL_def Let_def split: option.splits prod.splits)
  next
    case other
    then show ?thesis using assms
      by (simp add: FromURL_def proxy_FromURL_def proxySchemes_def RegisterDialerType_def Let_def)
  qed (use assms in \<open>auto simp: FromURL_def proxy_FromURL_def proxySchemes_def RegisterDialerType_def Let_def
      is_wrapper_of_def tcptunFromURL_def httpFromURL_def rateLimitFromURL_def wsFromURL_def\<close>)
qed

text \<open>The URLs that count, the text that is digested, and URLs without a word that ends the chain.\<close>

definition chain_urls :: "string list \<Rightarrow> string list" where
  "chain_urls urls = filter (\<lambda>s. \<not> skip_url s) urls"

definition url_text :: "string list \<Rightarrow> string" where
  "url_text urls = concat (map (\<lambda>s. s @ [CHR 0x0A]) urls)"

definition ends_chain :: "string \<Rightarrow> bool" where
  "ends_chain s \<longleftrightarrow> EqualFold s ''Block'' \<or> EqualFold s ''Reset''"

definition wrappers_for :: "(string \<Rightarrow> url option) \<Rightarrow> (string \<rightharpoonup> 'k from_url) \<Rightarrow> string list \<Rightarrow> 'k wrapper list \<Rightarrow> bool" where
  "wrappers_for Parse schemes =
     list_all2 (\<lambda>s w. \<exists>u. Parse s = Some u \<and> is_wrapper_of schemes u w)"

lemma MakeProxy_loop_chain:
  assumes "MakeProxy_loop Parse (proxySchemes Parse PickCipher) urls fwd h = Inr (Inr (d, h'))"
  shows "\<exists>ws. d = chain fwd ws \<and> h' = h @ url_text (chain_urls urls) \<and>
    wrappers_for Parse (proxySchemes Parse PickCipher) (chain_urls urls) ws"
  using assms
proof (induction urls arbitrary: fwd h)
  case Nil
  then show ?case by (auto simp: chain_def url_text_def chain_urls_def wrappers_for_def)
next
  case (Cons s urls)
  show ?case
  proof (cases "skip_url s")
    case True
    with Cons show ?thesis by (simp add: chain_urls_def)
  next
    case False
    with Cons.prems obtain u e where u: "Parse s = Some u" "FromURL (proxySchemes Parse PickCipher) u fwd = Inr e"
      "MakeProxy_loop Parse (proxySchemes Parse PickCipher) urls e (h @ s @ [CHR 0x0A]) = Inr (Inr (d, h'))"
      by (auto split: if_splits option.splits sum.splits)
    from FromURL_wrapper [OF u(2)] obtain w where w: "e = Over w fwd"
      "is_wrapper_of (proxySchemes Parse PickCipher) u w" by blast
    from Cons.IH [OF u(3)] obtain ws where ws: "d = chain e ws"
      "h' = (h @ s @ [CHR 0x0A]) @ url_text (chain_urls urls)"
      "wrappers_for Parse (proxySchemes Parse PickCipher) (chain_urls urls) ws" by blast
    show ?thesis
      using False u(1) w ws
      by (intro exI [of _ "w # ws"]) (auto simp: chain_def chain_urls_def url_text_def wrappers_for_def)
  qed
qed

lemma MakeProxy_loop_ended:
  "MakeProxy_loop Parse schemes urls fwd h = Inr (Inl p) \<Longrightarrow>
   p = \<lparr>px_d = Some (blockOrReset True), px_sum = ''Block''\<rparr> \<or>
   p = \<lparr>px_d = Some (blockOrReset False), px_sum = ''Reset''\<rparr>"
  by (induction urls arbitrary: fwd h) (auto split: if_splits option.splits sum.splits)

lemma MakeProxy_loop_not_ended:
  "MakeProxy_loop Parse schemes urls fwd h = Inr (Inl p) \<Longrightarrow> \<exists>s\<in>set urls. ends_chain s"
  by (induction urls arbitrary: fwd h)
    (auto simp: ends_chain_def split: if_splits option.splits sum.splits)

lemma chain_Direct: "chain d ws = Direct \<longleftrightarrow> d = Direct \<and> ws = []"
proof (induction ws arbitrary: d)
  case (Cons w ws)
  then show ?case using Cons.IH [of "Over w d"] by (simp add: chain_def)
qed (simp add: chain_def)

lemma MakeProxy_cases:
  assumes "MakeProxy sha1 Parse (proxySchemes Parse PickCipher) None urls = Inr p"
  obtains (ended) "\<exists>s\<in>set urls. ends_chain s" "px_sum p = ''Block''" "px_d p = Some (blockOrReset True)"
  | (reset) "\<exists>s\<in>set urls. ends_chain s" "px_sum p = ''Reset''" "px_d p = Some (blockOrReset False)"
  | (direct) "chain_urls urls = []" "px_sum p = []" "px_d p = Some Direct"
  | (made) ws where "chain_urls urls \<noteq> []" "px_sum p = sha1 (url_text (chain_urls urls))"
      "px_d p = Some (chain Direct ws)" "ws \<noteq> []"
      "wrappers_for Parse (proxySchemes Parse PickCipher) (chain_urls urls) ws"
proof (cases "MakeProxy_loop Parse (proxySchemes Parse PickCipher) urls Direct []")
  case (Inl e)
  then show ?thesis using assms by (simp add: MakeProxy_def)
next
  case (Inr r)
  show ?thesis
  proof (cases r)
    case (Inl q)
    with Inr assms have loop: "MakeProxy_loop Parse (proxySchemes Parse PickCipher) urls Direct [] = Inr (Inl p)"
      by (simp add: MakeProxy_def)
    show ?thesis
      using MakeProxy_loop_ended [OF loop]
    proof
      assume "p = \<lparr>px_d = Some (blockOrReset True), px_sum = ''Block''\<rparr>"
      then show ?thesis using MakeProxy_loop_not_ended [OF loop] by (intro ended) simp_all
    next
      assume "p = \<lparr>px_d = Some (blockOrReset False), px_sum = ''Reset''\<rparr>"
      then show ?thesis using MakeProxy_loop_not_ended [OF loop] by (intro reset) simp_all
    qed
  next
    case (Inr dh)
    obtain d h where dh: "dh = (d, h)" by fastforce
    from \<open>MakeProxy_loop _ _ _ _ _ = _\<close> Inr dh obtain ws where ws: "d = chain Direct ws"
      "h = url_text (chain_urls urls)"
      "wrappers_for Parse (proxySchemes Parse PickCipher) (chain_urls urls) ws"
      using MakeProxy_loop_chain by (metis append_Nil)
    have p: "p = \<lparr>px_d = Some d, px_sum = (if d \<noteq> Direct then sha1 h else [])\<rparr>"
      using assms \<open>MakeProxy_loop _ _ _ _ _ = _\<close> Inr dh by (simp add: MakeProxy_def)
    have "ws = [] \<longleftrightarrow> chain_urls urls = []" using ws(3) by (auto simp: wrappers_for_def)
    then show ?thesis using p ws chain_Direct [of Direct ws]
      by (cases "ws = []") (auto intro: direct made)
  qed
qed

lemma wrappers_for_ok: "wrappers_for Parse schemes us ws \<Longrightarrow> \<forall>w\<in>set ws. wrapper_ok w"
  unfolding wrappers_for_def by (induction rule: list_all2_induct) (auto simp: is_wrapper_of_def)

lemma is_wrapper_of_unique: "is_wrapper_of schemes u v \<Longrightarrow> is_wrapper_of schemes u w \<Longrightarrow> v = w"
  unfolding is_wrapper_of_def by (metis dialer.inject(3) sum.inject(2))

lemma wrappers_for_unique:
  "wrappers_for Parse schemes us vs \<Longrightarrow> wrappers_for Parse schemes us ws \<Longrightarrow> vs = ws"
  unfolding wrappers_for_def
proof (induction us arbitrary: vs ws)
  case (Cons s us)
  then show ?case by (auto simp: list_all2_Cons1 dest: is_wrapper_of_unique)
qed simp

text \<open>
  C6. The dial order of a proxy: \<open>MakeProxy\<close> on the URLs of a YAML list, last one first, makes a
  dialer that passes through the proxies of the list from the last to the first, each one asked
  for the address that the one before it in the list needs, and the first one for the target
  (skipping empty entries and \<open>Direct\<close>): the direct connection first, then the hops of the last
  entry, and those of the first entry at the end.
\<close>
theorem yaml_dial_order:
  assumes "proxy_UnmarshalYAML sha1 Parse (proxySchemes Parse PickCipher) (Some urls) t = Some (Inr p)"
    and "\<not> (\<exists>s\<in>set urls. ends_chain s)"
  shows "\<exists>ws. wrappers_for Parse (proxySchemes Parse PickCipher) (chain_urls urls) ws \<and>
    (\<forall>env n a. network_up env \<and> is_tcp n \<longrightarrow>
       DialContext env (proxy_Dialer p) n a = (Inr (route_hops (de_ParseAddr env) ws (n, a)), 1))"
proof -
  have "MakeProxy sha1 Parse (proxySchemes Parse PickCipher) None (rev urls) = Inr p"
    using assms(1) by (simp add: proxy_UnmarshalYAML_def)
  then show ?thesis
  proof (cases rule: MakeProxy_cases)
    case direct
    have "wrappers_for Parse (proxySchemes Parse PickCipher) (chain_urls urls) ([] :: 'a wrapper list)"
      using direct(1) by (simp add: wrappers_for_def chain_urls_def rev_filter [symmetric])
    moreover have "DialContext env (proxy_Dialer p) n a = (Inr (route_hops (de_ParseAddr env) [] (n, a)), 1)"
      if "network_up env" "is_tcp n" for env n a
      using direct(3) chain_path [OF that(1) _ that(2), of "[]"] by (simp add: proxy_Dialer_def)
    ultimately show ?thesis by blast
  next
    case (made ws)
    have w: "wrappers_for Parse (proxySchemes Parse PickCipher) (chain_urls urls) (rev ws)"
      using made(5) by (simp add: wrappers_for_def chain_urls_def rev_filter [symmetric] list_all2_rev1)
    then have "\<forall>w\<in>set (rev ws). wrapper_ok w" by (rule wrappers_for_ok)
    then have "DialContext env (proxy_Dialer p) n a = (Inr (route_hops (de_ParseAddr env) (rev ws) (n, a)), 1)"
      if "network_up env" "is_tcp n" for env n a
      using chain_path [OF that(1) _ that(2), of "rev ws"] made(3) by (simp add: proxy_Dialer_def chain_rev)
    with w show ?thesis by blast
  qed (use assms(2) in auto)
qed

definition example_url :: "string \<Rightarrow> url" where
  "example_url scheme = \<lparr>u_Scheme = scheme, u_User = None, u_Host = scheme @ '':1080'', u_Path = [], u_Query = []\<rparr>"

definition example_Parse :: "string \<Rightarrow> url option" where
  "example_Parse s = (if s = ''http'' \<or> s = ''socks5'' then Some (example_url s) else None)"

lemma runes_of_ascii:
  "list_all (\<lambda>c. of_char c < (128 :: nat)) s \<Longrightarrow> runes_of (bytes_of s) = map of_char s"
proof (induction s)
  case Nil
  then show ?case by (simp add: bytes_of_def runes_of.simps)
next
  case (Cons c s)
  have "unat (of_char c :: u8) = of_char c"
    using Cons.prems unat_byte [of "of_char c"] by (simp add: byte_def of_nat_of_char)
  then have d: "decode_rune (of_char c # bs) = (of_char c, 1)" for bs
    using Cons.prems by (simp add: decode_rune_def)
  have "runes_of (of_char c # bytes_of s) = of_char c # runes_of (bytes_of s)"
    by (subst runes_of.simps) (simp add: d)
  then show ?case using Cons by (simp add: bytes_of_def)
qed

lemma EqualFold_ascii:
  assumes "list_all (\<lambda>c. of_char c < (128 :: nat)) s" "list_all (\<lambda>c. of_char c < (128 :: nat)) t"
  shows "EqualFold s t \<longleftrightarrow> map (\<lambda>c. fold_rune (of_char c)) s = map (\<lambda>c. fold_rune (of_char c)) t"
  using assms by (simp add: EqualFold_def runes_of_ascii comp_def)

lemma example_words:
  "\<not> skip_url ''http''" "\<not> skip_url ''socks5''" "\<not> ends_chain ''http''" "\<not> ends_chain ''socks5''"
  "skip_url ''dIrEcT''" "ends_chain ''BLOCK''"
  by (simp_all add: skip_url_def ends_chain_def EqualFold_ascii fold_rune_def)

text \<open>The Kelvin sign is a \<open>k\<close> as well.\<close>

lemma kelvin_block: "ends_chain (''Bloc'' @ string_of [0xE2, 0x84, 0xAA])"
proof -
  have "runes_of [0xE2, 0x84, 0xAA] = [0x212A]"
    by (subst runes_of.simps) (simp add: decode_rune_def second_ok_def cont_def runes_of.simps [of "[]"])
  moreover have "runes_of (b # bs) = unat b # runes_of bs" if "unat b < 128" for b bs
    using that by (subst runes_of.simps) (simp add: decode_rune_def)
  ultimately have "runes_of (bytes_of ''Bloc'' @ [0xE2, 0x84, 0xAA]) = [66, 108, 111, 99, 0x212A]"
    by (simp add: bytes_of_def)
  moreover have "bytes_of (''Bloc'' @ string_of [0xE2, 0x84, 0xAA]) = bytes_of ''Bloc'' @ [0xE2, 0x84, 0xAA]"
    using string_bytes [of "[0xE2, 0x84, 0xAA]"] by (simp add: bytes_of_def)
  moreover have "runes_of (bytes_of ''Block'') = [66, 108, 111, 99, 107]"
    by (subst runes_of_ascii) simp_all
  ultimately show ?thesis by (simp add: ends_chain_def EqualFold_def fold_rune_def)
qed

abbreviation "no_cipher \<equiv> \<lambda>(m :: string) (p :: string). None :: unit option"

definition all_up :: "unit dial_env" where
  "all_up = \<lparr>de_up = \<lambda>p h. True, de_open = \<lambda>p h. True, de_ParseAddr = \<lambda>a. Some (bytes_of a)\<rparr>"

theorem yaml_dial_order_witness:
  "\<exists>p. proxy_UnmarshalYAML (\<lambda>s. s) example_Parse (proxySchemes example_Parse no_cipher)
      (Some [''http'', ''socks5'']) None = Some (Inr p) \<and>
   fst (DialContext all_up (proxy_Dialer p) ''tcp'' ''go:80'') =
     Inr [TCP ''tcp'' ''socks5:1080'', SOCKS5 (proxy_SOCKS5 ''tcp'' ''socks5:1080'' None) ''http:1080'',
          HTTPConnect ''go:80'' None]"
proof -
  let ?S = "proxySchemes example_Parse no_cipher"
  have ports: "url_Port (example_url ''http'') = ''1080''"
    by (simp add: url_Port_def url_split_def example_url_def last_index_byte_def valid_optional_port_def
        is_digit_def HasPrefix_def)
  let ?w1 = "socksDialer (proxy_SOCKS5 ''tcp'' ''socks5:1080'' None) :: unit wrapper"
  let ?w2 = "httpDialer ''http:1080'' None :: unit wrapper"
  have f1: "FromURL ?S (example_url ''socks5'') f = Inr (Over ?w1 f)" for f
    by (subst FromURL_socks) (simp_all add: example_url_def socksFromURL_def url_auth_def)
  have f2: "FromURL ?S (example_url ''http'') f = Inr (Over ?w2 f)" for f
    using ports by (simp add: FromURL_def proxy_FromURL_def proxySchemes_def RegisterDialerType_def
        httpFromURL_def url_auth_def example_url_def Let_def)
  let ?p = "\<lparr>px_d = Some (Over ?w2 (Over ?w1 Direct)), px_sum = ''socks5'' @ [CHR 0x0A] @ ''http'' @ [CHR 0x0A]\<rparr>"
  have e: "\<not> EqualFold s ''Block''" "\<not> EqualFold s ''Reset''" if "s \<in> {''http'', ''socks5''}" for s
    using that example_words by (auto simp: ends_chain_def)
  have y: "proxy_UnmarshalYAML (\<lambda>s. s) example_Parse ?S (Some [''http'', ''socks5'']) None = Some (Inr ?p)"
    by (simp add: proxy_UnmarshalYAML_def MakeProxy_def example_words e f1 f2 example_Parse_def)
  have n: "\<not> (\<exists>s\<in>set [''http'', ''socks5'']. ends_chain s)" by (simp add: example_words)
  have up: "network_up all_up" by (simp add: network_up_def all_up_def)
  from yaml_dial_order [OF y n] obtain ws where ws:
    "wrappers_for example_Parse ?S (chain_urls [''http'', ''socks5'']) ws"
    "DialContext all_up (proxy_Dialer ?p) ''tcp'' ''go:80''
      = (Inr (route_hops (de_ParseAddr all_up) ws (''tcp'', ''go:80'')), 1)"
    using up by (auto simp: is_tcp_def)
  have "wrappers_for example_Parse ?S (chain_urls [''http'', ''socks5'']) [?w2, ?w1]"
    using f1 f2 by (simp add: wrappers_for_def chain_urls_def example_words example_Parse_def is_wrapper_of_def
        proxy_SOCKS5_def socks_NewDialer_def is_tcp_def)
  then have "ws = [?w2, ?w1]" using ws(1) wrappers_for_unique by blast
  with ws(2) y show ?thesis
    by (intro exI [of _ ?p]) (simp add: proxy_SOCKS5_def socks_NewDialer_def)
qed

section \<open>The comparison by checksums\<close>





section \<open>The port of a SOCKS5 URL\<close>

text \<open>
  \<open>proxy_FromURL\<close> gives a \<open>socks5\<close> URL without a port the port 1080, but \<open>FromURL\<close> renames the
  scheme first, and \<open>socksFromURL\<close> takes the host as it is: the address that is then dialed has
  no port.
\<close>

lemma socks5_without_port:
  assumes "u_Scheme u = ''socks5''" "u_Host u = ''proxy''" "u_User u = None"
  shows "FromURL (proxySchemes Parse PickCipher) u fwd =
      Inr (Over (socksDialer (socks_NewDialer ''tcp'' ''proxy'')) fwd)"
    and "proxy_FromURL (proxySchemes Parse PickCipher) u fwd =
      Inr (Over (socks5Dialer (socks_NewDialer ''tcp'' ''proxy:1080'')) fwd)"
    and "SplitHostPort ''proxy'' = None"
  using assms
  by (auto simp: FromURL_socks socksFromURL_def url_auth_def proxy_SOCKS5_def proxy_FromURL_def url_Hostname_def
      url_Port_def url_split_def last_index_byte_def HasPrefix_def JoinHostPort_def SplitHostPort_def)

section \<open>The forms of a Shadowsocks URL\<close>

definition url_safe :: "string \<Rightarrow> string" where
  "url_safe s = ReplaceAll (CHR ''/'') (CHR ''_'') (ReplaceAll (CHR ''+'') (CHR ''-'') s)"

lemma decodeBase64String_encode:
  "decodeBase64String (b64_encode padded bs) = Some bs"
  "decodeBase64String (url_safe (b64_encode padded bs)) = Some bs"
proof -
  have plain: "c \<noteq> CHR ''-'' \<and> c \<noteq> CHR ''_''" if "c \<in> set (b64_encode padded bs)" for c
  proof
    have "b64_value (CHR ''-'') = None" "b64_value (CHR ''_'') = None"
      by (simp_all add: b64_value_def)
    with b64_encode_value [OF that] b64_value_char show "c \<noteq> CHR ''-''" "c \<noteq> CHR ''_''"
      by (auto simp del: char_of_eq_iff) 
  qed
  then have id: "ReplaceAll (CHR ''_'') (CHR ''/'') (ReplaceAll (CHR ''-'') (CHR ''+'') (b64_encode padded bs)) = b64_encode padded bs"
    and safe: "ReplaceAll (CHR ''_'') (CHR ''/'') (ReplaceAll (CHR ''-'') (CHR ''+'') (url_safe (b64_encode padded bs))) = b64_encode padded bs"
    by (auto simp: ReplaceAll_def url_safe_def intro!: map_idI)
  have "b64_decode (length (b64_encode padded bs) mod 4 = 0) (b64_encode padded bs) = Some bs"
  proof (cases padded)
    case True
    then show ?thesis using b64_encode_length [of bs] by simp
  next
    case False
    then show ?thesis using b64_encode_raw [of bs]
      by (cases "length (b64_encode False bs) mod 4 = 0") simp_all
  qed
  with id safe show "decodeBase64String (b64_encode padded bs) = Some bs"
    "decodeBase64String (url_safe (b64_encode padded bs)) = Some bs"
    by (simp_all add: decodeBase64String_def Let_def)
qed

lemma split_two_join: "CHR '':'' \<notin> set a \<Longrightarrow> split_two (a @ '':'' @ b) = Some (a, b)"
  by (simp add: split_two_def)

text \<open>
  The three forms of a Shadowsocks URL make the same dialer: method and password in the clear,
  both of them in Base64 as the user name (standard or URL alphabet, padded or not), and everything
  in Base64 as the host.
\<close>
theorem ss_forms_agree:
  assumes plain: "u_User u = Some (method, Some password)" and colon: "CHR '':'' \<notin> set method"
    and coded: "s = b64_encode padded (bytes_of (method @ '':'' @ password)) \<or>
      s = url_safe (b64_encode padded (bytes_of (method @ '':'' @ password)))"
    and whole: "h = b64_encode padded' (bytes_of t) \<or> h = url_safe (b64_encode padded' (bytes_of t))"
    and parse: "Parse (u_Scheme u @ ''://'' @ t) = Some u"
    and cipher: "PickCipher method password = Some k"
  shows "shadowsocksFromURL Parse PickCipher u fwd = Inr (Over (shadowsocksDialer (u_Host u) k) fwd) \<and>
    shadowsocksFromURL Parse PickCipher (u\<lparr>u_User := Some (s, None)\<rparr>) fwd
      = shadowsocksFromURL Parse PickCipher u fwd \<and>
    shadowsocksFromURL Parse PickCipher (u\<lparr>u_User := None, u_Host := h\<rparr>) fwd
      = shadowsocksFromURL Parse PickCipher u fwd"
proof -
  have s: "decodeBase64String s = Some (bytes_of (method @ '':'' @ password))"
    using coded decodeBase64String_encode by auto
  have h: "decodeBase64String h = Some (bytes_of t)" using whole decodeBase64String_encode by auto
  show ?thesis using plain cipher parse s h split_two_join [OF colon, of password]
    by (simp add: shadowsocksFromURL_def)
qed

definition ss_url :: url where
  "ss_url = \<lparr>u_Scheme = ''ss'', u_User = Some (''rc4'', Some ''pw''), u_Host = ''h:1'', u_Path = [], u_Query = []\<rparr>"

theorem ss_forms_agree_witness:
  "shadowsocksFromURL (\<lambda>s. Some ss_url) (\<lambda>m p. Some ())
      (ss_url\<lparr>u_User := Some (b64_encode True (bytes_of ''rc4:pw''), None)\<rparr>) Direct
    = Inr (Over (shadowsocksDialer ''h:1'' ()) Direct)"
  using ss_forms_agree [of ss_url "''rc4''" "''pw''" "b64_encode True (bytes_of ''rc4:pw'')" True
      "b64_encode True (bytes_of ''x'')" True "''x''" "\<lambda>s. Some ss_url" "\<lambda>m p. Some ()" "()" Direct]
  by (simp add: ss_url_def)

section \<open>The environment\<close>

text \<open>
  With a proxy and exceptions from the environment, a dial goes to the forwarder exactly for the
  hosts that the list names.
\<close>

lemma environment_dial:
  assumes "proxy_FromEnvironmentUsing ParseAddr ParseCIDR Parse schemes getenv (proxy_allProxyEnv, proxy_noProxyEnv) forward
      = (PerHost ph, st)"
    and "SplitHostPort addr = Some (host, port)"
  shows "\<exists>p noProxy. env_DialContext ParseAddr env (PerHost ph) network addr =
    Some (DialContext env
      (if \<exists>e\<in>set (split_on (CHR '','') noProxy). entry_matches ParseAddr ParseCIDR host e then forward else p)
      network addr)"
proof -
  from assms(1) obtain p noProxy where
    "ph = AddFromString ParseAddr ParseCIDR noProxy (proxy_NewPerHost p forward)"
    by (auto simp: proxy_FromEnvironmentUsing_def Let_def split: prod.splits if_splits option.splits sum.splits)
  then show ?thesis using assms(2)
    by (intro exI [of _ p] exI [of _ noProxy]) 
      (simp add: env_DialContext_def PerHost_dialer_def dialerForRequest_eq AddFromString_def fold_add_entry)
qed

end
