(* ===== verification/Proxy_Conn.thy ===== *)
theory Proxy_Conn
  imports Proxy
begin

text \<open>
  What the dialers do on the connections they make: the \<open>CONNECT\<close> request of \<open>proxy/http.go\<close> and
  the answer it reads, the reads of a websocket (\<open>proxy/websocket.go\<close>), the rate limiter
  (\<open>proxy/ratelimit.go\<close>), the first write to a Shadowsocks server (\<open>proxy/shadowsocks.go\<close>).
\<close>

section \<open>The HTTP proxy\<close>

text \<open>\<open>req.Write\<close> on the request that the dialer makes; an empty \<open>User-Agent\<close> list writes none.\<close>

abbreviation "crlf \<equiv> [CHR 0x0D, CHR 0x0A]"

definition basic_auth :: "proxy_Auth \<Rightarrow> string" where
  "basic_auth auth =
     (case auth of
        None \<Rightarrow> []
      | Some (user, password) \<Rightarrow>
          ''Proxy-Authorization: Basic '' @ b64_encode True (bytes_of (user @ '':'' @ password)) @ crlf)"

definition connect_request :: "string \<Rightarrow> proxy_Auth \<Rightarrow> string" where
  "connect_request addr auth =
     ''CONNECT '' @ addr @ '' HTTP/1.1'' @ crlf @ ''Host: '' @ addr @ crlf @ basic_auth auth @ crlf"

text \<open>
  \<open>http.ReadResponse\<close> on a \<open>bufio.Reader\<close>: lines up to an empty one, a status line with a number
  of three digits, header lines with a colon. The connection delivers its data in chunks, one per
  \<open>Read\<close>; the buffer takes a chunk as a whole.
\<close>

fun split_line :: "string \<Rightarrow> (string \<times> string) option" where
  "split_line [] = None"
| "split_line (c # s) =
     (if c = CHR 0x0A then Some ([], s) else map_option (\<lambda>(l, r). (c # l, r)) (split_line s))"

definition trim_cr :: "string \<Rightarrow> string" where
  "trim_cr l = (if l \<noteq> [] \<and> last l = CHR 0x0D then butlast l else l)"

lemma split_line_length: "split_line s = Some (l, r) \<Longrightarrow> length r < length s"
  by (induction s arbitrary: l r) (force split: if_splits)+

function header_lines :: "string \<Rightarrow> (string list \<times> string) option" where
  "header_lines s =
     (case split_line s of
        None \<Rightarrow> None
      | Some (l, r) \<Rightarrow>
          if trim_cr l = [] then Some ([], r)
          else map_option (\<lambda>(ls, t). (trim_cr l # ls, t)) (header_lines r))"
  by pat_completeness auto
termination by (relation "measure length") (auto dest: split_line_length)

declare header_lines.simps [simp del]

text \<open>The buffer when the header is complete, and what the connection still has.\<close>

fun read_header :: "string \<Rightarrow> string list \<Rightarrow> ((string list \<times> string) \<times> string list) option" where
  "read_header buf chunks =
     (case header_lines buf of
        Some h \<Rightarrow> Some (h, chunks)
      | None \<Rightarrow> (case chunks of [] \<Rightarrow> None | c # cs \<Rightarrow> read_header (buf @ c) cs))"

declare read_header.simps [simp del]

definition valid_http_version :: "string \<Rightarrow> bool" where
  "valid_http_version v \<longleftrightarrow>
     length v = 8 \<and> HasPrefix v ''HTTP/'' \<and> is_digit (v ! 5) \<and> v ! 6 = CHR ''.'' \<and> is_digit (v ! 7)"

definition cut_space :: "string \<Rightarrow> string \<times> string" where
  "cut_space s =
     (case index_byte (CHR '' '') s of None \<Rightarrow> (s, []) | Some i \<Rightarrow> (take i s, drop (i + 1) s))"

definition status_of :: "string \<Rightarrow> int option" where
  "status_of line =
     (if CHR '' '' \<notin> set line then None
      else let (proto, status) = cut_space line;
               code = fst (cut_space (dropWhile (\<lambda>c. c = CHR '' '') status))
           in if length code \<noteq> 3 \<or> \<not> valid_http_version proto then None
              else (case Atoi code of None \<Rightarrow> None | Some n \<Rightarrow> if n < 0 then None else Some n))"

definition read_response :: "string list \<Rightarrow> (int \<times> string \<times> string list) option" where
  "read_response chunks =
     (case read_header [] chunks of
        None \<Rightarrow> None
      | Some ((lines, buffered), rest) \<Rightarrow>
          (case lines of
             [] \<Rightarrow> None
           | line # hs \<Rightarrow>
               if \<not> list_all (\<lambda>h. CHR '':'' \<in> set h) hs then None
               else map_option (\<lambda>n. (n, buffered, rest)) (status_of line)))"

record http_conn =
  hc_in :: "string list"      \<comment> \<open>what the reads will return\<close>
  hc_out :: string
  hc_write_ok :: bool
  hc_deadline :: deadline
  hc_closed :: bool

datatype connect_error = ConnectWriteFailed | BadResponse | Refused int

text \<open>
  \<open>httpDialer.DialContext\<close> once the server has been dialed. The caller that gets the connection
  has waited for the goroutine that sets \<open>aLongTimeAgo\<close> (\<open>join\<close>); the deadline is taken back last.
\<close>

definition http_connect ::
  "dial_context \<Rightarrow> string \<Rightarrow> proxy_Auth \<Rightarrow> http_conn \<Rightarrow> (connect_error + unit) \<times> http_conn" where
  "http_connect ctx addr auth c =
     (let c = (case cx_Deadline ctx of None \<Rightarrow> c | Some t \<Rightarrow> c\<lparr>hc_deadline := Deadline t\<rparr>);
          c = (if cx_done ctx \<and> \<not> cx_background ctx then c\<lparr>hc_deadline := LongAgo\<rparr> else c)
      in if \<not> hc_write_ok c then (Inl ConnectWriteFailed, c\<lparr>hc_closed := True\<rparr>)
         else
           (let c = c\<lparr>hc_out := hc_out c @ connect_request addr auth\<rparr>
            in case read_response (hc_in c) of
                 None \<Rightarrow> (Inl BadResponse, c\<lparr>hc_closed := True\<rparr>)
               | Some (status, buffered, rest) \<Rightarrow>
                   if status \<noteq> 200 then (Inl (Refused status), c\<lparr>hc_in := rest, hc_closed := True\<rparr>)
                   else (Inr (), c\<lparr>hc_in := rest, hc_deadline := NoDeadline\<rparr>)))"

lemma split_line_append: "split_line s = Some (l, r) \<Longrightarrow> split_line (s @ t) = Some (l, r @ t)"
  by (induction s arbitrary: l) (auto split: if_splits)

lemma split_line_concat: "split_line s = Some (l, r) \<Longrightarrow> s = l @ CHR 0x0A # r"
  by (induction s arbitrary: l) (auto split: if_splits)

lemma header_lines_suffix:
  "header_lines s = Some (ls, r) \<Longrightarrow> \<exists>h. s = h @ r"
proof (induction s arbitrary: ls rule: header_lines.induct)
  case (1 s)
  from "1.prems" obtain l q where q: "split_line s = Some (l, q)"
    by (auto simp: header_lines.simps [of s] split: option.splits)
  then have s: "s = l @ CHR 0x0A # q" by (rule split_line_concat)
  show ?case
  proof (cases "trim_cr l = []")
    case True
    then have "r = q" using "1.prems" q by (simp add: header_lines.simps [of s])
    then show ?thesis using s by (metis append.assoc append_Cons append_Nil)
  next
    case False
    then obtain ls' where "header_lines q = Some (ls', r)"
      using "1.prems" q by (auto simp: header_lines.simps [of s])
    from "1.IH" [OF q refl False this] obtain h where "q = h @ r" by blast
    then show ?thesis using s by (metis append.assoc append_Cons)
  qed
qed

lemma read_header_bytes:
  "read_header buf chunks = Some ((ls, buffered), rest) \<Longrightarrow>
     \<exists>h. buf @ concat chunks = h @ buffered @ concat rest \<and> header_lines (h @ buffered) = Some (ls, buffered)"
proof (induction buf chunks rule: read_header.induct)
  case (1 buf chunks)
  show ?case
  proof (cases "header_lines buf")
    case None
    then obtain c cs where c: "chunks = c # cs" "read_header (buf @ c) cs = Some ((ls, buffered), rest)"
      using "1.prems" by (auto simp: read_header.simps [of buf] split: list.splits)
    from "1.IH" [OF None c] show ?thesis using c by simp
  next
    case (Some h)
    then have "h = (ls, buffered)" "chunks = rest" using "1.prems" by (simp_all add: read_header.simps [of buf])
    with Some header_lines_suffix [of buf ls buffered] show ?thesis by auto
  qed
qed

text \<open>
  A \<open>CONNECT\<close> dial succeeds exactly when the request could be written and the answer has the
  status 200; then the connection is open and without a deadline, and otherwise it is closed. What
  the caller can read is the rest of the chunks: bytes behind the answer in the same chunk stay in
  the buffer and are lost with it.
\<close>
theorem http_connect_result:
  "(case http_connect ctx addr auth c of
      (Inl e, c') \<Rightarrow> hc_closed c' \<and>
        (hc_write_ok c \<longrightarrow> (\<nexists>b r. read_response (hc_in c) = Some (200, b, r)))
    | (Inr _, c') \<Rightarrow> hc_closed c' = hc_closed c \<and> hc_deadline c' = NoDeadline \<and> hc_write_ok c \<and>
        hc_out c' = hc_out c @ connect_request addr auth \<and>
        (\<exists>head buffered. read_response (hc_in c) = Some (200, buffered, hc_in c') \<and>
           concat (hc_in c) = head @ buffered @ concat (hc_in c') \<and>
           (\<exists>ls. header_lines (head @ buffered) = Some (ls, buffered))))"
proof -
  have r: "\<exists>head. concat (hc_in c) = head @ buffered @ concat rest \<and>
      (\<exists>ls. header_lines (head @ buffered) = Some (ls, buffered))"
    if "read_response (hc_in c) = Some (n, buffered, rest)" for n buffered rest
  proof -
    from that obtain ls where "read_header [] (hc_in c) = Some ((ls, buffered), rest)"
      by (auto simp: read_response_def split: option.splits prod.splits list.splits if_splits)
    from read_header_bytes [OF this] show ?thesis by auto
  qed
  show ?thesis
    using r by (auto simp: http_connect_def Let_def split: option.splits prod.splits if_splits)
qed

text \<open>
  A server that speaks first: its greeting comes in one chunk with the answer, and the caller, who
  has got the connection, will never see it.
\<close>

definition eager_server :: http_conn where
  "eager_server = \<lparr>hc_in = [''HTTP/1.1 200 OK'' @ crlf @ crlf @ ''SSH-2.0''], hc_out = [], hc_write_ok = True,
     hc_deadline = NoDeadline, hc_closed = False\<rparr>"

lemma early_bytes_lost:
  "fst (http_connect Background ''go:22'' None eager_server) = Inr ()"
  "hc_in (snd (http_connect Background ''go:22'' None eager_server)) = []"
proof -
  have h: "header_lines (''HTTP/1.1 200 OK'' @ crlf @ crlf @ ''SSH-2.0'') = Some ([''HTTP/1.1 200 OK''], ''SSH-2.0'')"
    by (simp add: header_lines.simps trim_cr_def)
  have "read_header [] [''HTTP/1.1 200 OK'' @ crlf @ crlf @ ''SSH-2.0''] =
      Some (([''HTTP/1.1 200 OK''], ''SSH-2.0''), [])"
    using h by (simp add: read_header.simps header_lines.simps [of "[]"])
  moreover have "status_of ''HTTP/1.1 200 OK'' = Some 200"
    by (simp add: status_of_def cut_space_def valid_http_version_def HasPrefix_def is_digit_def Atoi_def
        split_sign_def)
  ultimately have "read_response (hc_in eager_server) = Some (200, ''SSH-2.0'', [])"
    by (simp add: read_response_def eager_server_def)
  then show "fst (http_connect Background ''go:22'' None eager_server) = Inr ()"
    "hc_in (snd (http_connect Background ''go:22'' None eager_server)) = []"
    by (simp_all add: http_connect_def Background_def eager_server_def)
qed

section \<open>Reads of a websocket\<close>

text \<open>
  The connection of the library: the messages that \<open>NextReader\<close> will give, and the error after
  them. A reader returns the bytes of its message and then \<open>io.EOF\<close>. \<open>Wrapped e\<close> is an error
  that \<open>fmt.Errorf\<close> makes around \<open>e\<close>, also around no error.
\<close>

datatype ws_error = WsEOF | WsFailure | Wrapped "ws_error option"

record wsConnection =
  wc_messages :: "bytes list"
  wc_end :: ws_error
  wc_reader :: "bytes option"

function ws_Read :: "nat \<Rightarrow> wsConnection \<Rightarrow> (bytes \<times> ws_error option) \<times> wsConnection" where
  "ws_Read n c =
     (case wc_reader c of
        None \<Rightarrow>
          (case wc_messages c of
             [] \<Rightarrow> (([], Some (if wc_end c = WsEOF then WsEOF else Wrapped (Some (wc_end c)))), c)
           | m # ms \<Rightarrow> ws_Read n (c\<lparr>wc_messages := ms, wc_reader := Some m\<rparr>))
      | Some rest \<Rightarrow>
          if rest = [] then ws_Read n (c\<lparr>wc_reader := None\<rparr>)
          else ((take n rest, Some (Wrapped None)), c\<lparr>wc_reader := Some (drop n rest)\<rparr>))"
  by pat_completeness auto
termination
  by (relation "measure (\<lambda>(n, c). 2 * length (wc_messages c) + (case wc_reader c of None \<Rightarrow> 0 | Some _ \<Rightarrow> 1))")
    auto

declare ws_Read.simps [simp del]

definition ws_stream :: "wsConnection \<Rightarrow> bytes" where
  "ws_stream c = (case wc_reader c of None \<Rightarrow> [] | Some r \<Rightarrow> r) @ concat (wc_messages c)"

text \<open>
  Every read of a websocket connection reports an error, those that return data as well; the
  data are right: they are the next bytes of the messages, in order, none lost.
\<close>
theorem ws_Read_always_fails:
  "snd (fst (ws_Read n c)) \<noteq> None \<and>
   fst (fst (ws_Read n c)) @ ws_stream (snd (ws_Read n c)) = ws_stream c"
proof (induction n c rule: ws_Read.induct)
  case (1 n c)
  show ?case
  proof (cases "wc_reader c")
    case None
    show ?thesis
    proof (cases "wc_messages c")
      case (Cons m ms)
      with None "1.IH"(1) show ?thesis by (simp add: ws_Read.simps [of n c] ws_stream_def)
    qed (simp add: None ws_Read.simps [of n c] ws_stream_def)
  next
    case (Some rest)
    then show ?thesis using "1.IH"(2)
      by (cases "rest = []") (simp_all add: ws_Read.simps [of n c] ws_stream_def)
  qed
qed

section \<open>The rate limiter\<close>

text \<open>
  A limiter of \<open>golang.org/x/time/rate\<close> through its burst; \<open>WaitN b n\<close> says whether waiting for
  \<open>n\<close> tokens with the burst \<open>b\<close> and no deadline ends well.
\<close>

definition rateLimitBurst :: nat where "rateLimitBurst = 32 * 2 ^ 10"

record rateLimiter =
  rl_r :: "nat option"       \<comment> \<open>the burst of the limiter for reads, if there is one\<close>
  rl_w :: "nat option"

definition new_rateLimiter :: "int \<Rightarrow> int \<Rightarrow> rateLimiter option" where
  "new_rateLimiter readRate writeRate =
     (if readRate > 0 \<or> writeRate > 0
      then Some \<lparr>rl_r = (if readRate > 0 then Some rateLimitBurst else None),
                 rl_w = (if writeRate > 0 then Some rateLimitBurst else None)\<rparr>
      else None)"

datatype limit_error = ConnError | WaitError

definition limited :: "(nat \<Rightarrow> nat \<Rightarrow> bool) \<Rightarrow> nat \<Rightarrow> nat \<times> bool \<Rightarrow> nat option \<Rightarrow> (nat \<times> limit_error option) \<times> nat option" where
  "limited WaitN buflen = (\<lambda>(n, ok) lim.
     case lim of
       None \<Rightarrow> ((n, if ok then None else Some ConnError), lim)
     | Some burst \<Rightarrow>
         if \<not> ok then ((n, Some ConnError), lim)
         else (let burst = (if burst < buflen then buflen else burst)
               in ((n, if WaitN burst n then None else Some WaitError), Some burst)))"

text \<open>\<open>Read(b)\<close> and \<open>Write(b)\<close> with \<open>len(b) = buflen\<close>, given what the connection returns.\<close>

definition rateLimiter_Read ::
  "(nat \<Rightarrow> nat \<Rightarrow> bool) \<Rightarrow> nat \<Rightarrow> nat \<times> bool \<Rightarrow> rateLimiter \<Rightarrow> (nat \<times> limit_error option) \<times> rateLimiter" where
  "rateLimiter_Read WaitN buflen res l =
     (let (r, lim) = limited WaitN buflen res (rl_r l) in (r, l\<lparr>rl_r := lim\<rparr>))"

definition rateLimiter_Write ::
  "(nat \<Rightarrow> nat \<Rightarrow> bool) \<Rightarrow> nat \<Rightarrow> nat \<times> bool \<Rightarrow> rateLimiter \<Rightarrow> (nat \<times> limit_error option) \<times> rateLimiter" where
  "rateLimiter_Write WaitN buflen res l =
     (let (r, lim) = limited WaitN buflen res (rl_w l) in (r, l\<lparr>rl_w := lim\<rparr>))"

text \<open>
  The limiter is transparent: whatever the lengths of the buffers, a read or a write returns what
  the connection returned, and never the error that waiting for more tokens than the burst would
  be, because the burst has been raised to the length of the buffer.
\<close>
theorem limiter_transparent:
  assumes "\<And>b n. n \<le> b \<Longrightarrow> WaitN b n" "n \<le> buflen"
  shows "fst (rateLimiter_Read WaitN buflen (n, ok) l) = (n, if ok then None else Some ConnError) \<and>
    fst (rateLimiter_Write WaitN buflen (n, ok) l) = (n, if ok then None else Some ConnError)"
  using assms by (auto simp: rateLimiter_Read_def rateLimiter_Write_def limited_def Let_def split: option.split)

theorem limiter_transparent_witness:
  "fst (rateLimiter_Read (\<lambda>b n. n \<le> b) 65536 (40000, True) \<lparr>rl_r = Some rateLimitBurst, rl_w = None\<rparr>) = (40000, None)"
  using limiter_transparent [of "\<lambda>b n. n \<le> b" 40000 65536 True "\<lparr>rl_r = Some rateLimitBurst, rl_w = None\<rparr>"] by simp

section \<open>The Shadowsocks server\<close>

text \<open>
  \<open>shadowsocksDialer.DialContext\<close> once the server has been dialed; \<open>stream\<close> is what the cipher
  makes of the first write, salt included. The goroutine that watches the context is joined as
  in \<open>http_connect\<close>, and the deadline is taken back last, unless \<open>c\<close> is \<open>nil\<close> by then.
\<close>

definition ss_connect ::
  "(bytes \<Rightarrow> bytes) \<Rightarrow> dial_context \<Rightarrow> bytes \<Rightarrow> sconn \<Rightarrow> (socks_error + unit) \<times> sconn" where
  "ss_connect stream ctx remoteAddr c =
     (let c = (case cx_Deadline ctx of None \<Rightarrow> c | Some t \<Rightarrow> c\<lparr>sc_deadline := Deadline t\<rparr>);
          c = (if cx_done ctx \<and> \<not> cx_background ctx then c\<lparr>sc_deadline := LongAgo\<rparr> else c)
      in case io_write (stream remoteAddr) c of
           (Inl e, c') \<Rightarrow> (Inl e, io_Close c')
         | (Inr _, c') \<Rightarrow> (Inr (), c'\<lparr>sc_deadline := NoDeadline\<rparr>))"

text \<open>The connection that comes back is open, without a deadline, and only the address was sent.\<close>

lemma ss_connect_result:
  "case ss_connect stream ctx remoteAddr c of
     (Inl e, c') \<Rightarrow> sc_closed c' \<and> sc_out c' = sc_out c
   | (Inr _, c') \<Rightarrow> sc_closed c' = sc_closed c \<and> sc_deadline c' = NoDeadline \<and> sc_in c' = sc_in c \<and>
       sc_out c' = sc_out c @ stream remoteAddr"
  by (simp add: ss_connect_def io_write_def io_Close_def Let_def split: option.split nat.split)

section \<open>Writes of a websocket\<close>

text \<open>\<open>wsConnection.Write\<close>, given what \<open>WriteMessage\<close> on all of \<open>b\<close> returns: all or nothing.\<close>

definition ws_Write :: "bytes \<Rightarrow> ws_error option \<Rightarrow> nat \<times> ws_error option" where
  "ws_Write b err = (case err of None \<Rightarrow> (length b, None) | Some e \<Rightarrow> (0, Some (Wrapped (Some e))))"

section \<open>No connection is left behind\<close>

text \<open>
  The other ends: the context of the dials, what a dial of the net package or of the websocket
  library meets on the hops behind it, whether that library leaves the connection of a failed
  handshake open, and the connections on which the exchanges of the code take place.
\<close>

record 'k peers =
  pe_ctx :: dial_context
  pe_library :: "'k hop list \<Rightarrow> 'k hop \<Rightarrow> bool"
  pe_ws_leaves :: "'k hop list \<Rightarrow> 'k hop \<Rightarrow> bool"
  pe_http :: "'k hop list \<Rightarrow> http_conn"
  pe_conn :: "'k hop list \<Rightarrow> sconn"
  pe_ParseIP :: "string \<Rightarrow> bytes option"
  pe_ParseAddr :: "string \<Rightarrow> bytes option"
  pe_stream :: "'k \<Rightarrow> bytes \<Rightarrow> bytes"

text \<open>
  An exchange by the code of its dialer: whether it succeeds and whether its connection, open when
  the dialer gets it, is open afterwards.
\<close>

definition http_exchange :: "'k peers \<Rightarrow> 'k hop list \<Rightarrow> string \<Rightarrow> proxy_Auth \<Rightarrow> bool \<times> bool" where
  "http_exchange w p addr auth =
     (let (r, c) = http_connect (pe_ctx w) addr auth ((pe_http w p)\<lparr>hc_closed := False\<rparr>)
      in (\<not> isl r, \<not> hc_closed c))"

definition socks_exchange :: "'k peers \<Rightarrow> 'k hop list \<Rightarrow> socks_Dialer \<Rightarrow> string \<Rightarrow> bool \<times> bool" where
  "socks_exchange w p d addr =
     (let (r, c) = socks_DialContext (pe_ParseIP w) (Some (pe_ctx w)) (Some ((pe_conn w p)\<lparr>sc_closed := False\<rparr>))
                     d ''tcp'' addr
      in (\<not> isl r, (case c of Some c \<Rightarrow> \<not> sc_closed c | None \<Rightarrow> True)))"

definition ss_exchange :: "'k peers \<Rightarrow> 'k hop list \<Rightarrow> 'k \<Rightarrow> bytes \<Rightarrow> bool \<times> bool" where
  "ss_exchange w p cipher remote =
     (let (r, c) = ss_connect (pe_stream w cipher) (pe_ctx w) remote ((pe_conn w p)\<lparr>sc_closed := False\<rparr>)
      in (\<not> isl r, \<not> sc_closed c))"

fun exchange :: "'k peers \<Rightarrow> 'k hop list \<Rightarrow> 'k hop \<Rightarrow> bool \<times> bool" where
  "exchange w p (HTTPConnect addr auth) = http_exchange w p addr auth"
| "exchange w p (SOCKS5 d addr) = socks_exchange w p d addr"
| "exchange w p (Shadowsocks cipher remote) = ss_exchange w p cipher remote"
| "exchange w p (WebSocket u) =
     (pe_library w p (WebSocket u), pe_library w p (WebSocket u) \<or> pe_ws_leaves w p (WebSocket u))"
| "exchange w p h = (pe_library w p h, True)"

definition dial_env_of :: "'k peers \<Rightarrow> 'k dial_env" where
  "dial_env_of w = \<lparr>de_up = \<lambda>p h. fst (exchange w p h), de_open = \<lambda>p h. snd (exchange w p h),
     de_ParseAddr = pe_ParseAddr w\<rparr>"

lemma http_exchange_closes: "snd (http_exchange w p addr auth) = fst (http_exchange w p addr auth)"
  using http_connect_result [where ctx = "pe_ctx w" and addr = addr and auth = auth and
      c = "(pe_http w p)\<lparr>hc_closed := False\<rparr>"]
  by (auto simp: http_exchange_def split: prod.splits sum.splits)

lemma ss_exchange_closes: "snd (ss_exchange w p cipher remote) = fst (ss_exchange w p cipher remote)"
  using ss_connect_result [where stream = "pe_stream w cipher" and ctx = "pe_ctx w" and
      remoteAddr = remote and c = "(pe_conn w p)\<lparr>sc_closed := False\<rparr>"]
  by (auto simp: ss_exchange_def split: prod.splits sum.splits)

lemma validateTarget_tcp: "socks_validateTarget d n = None \<Longrightarrow> socks_validateTarget d ''tcp'' = None"
  by (auto simp: socks_validateTarget_def split: if_splits)

lemma socks_exchange_closes:
  assumes "socks_validateTarget d n = None"
  shows "snd (socks_exchange w p d addr) = fst (socks_exchange w p d addr)"
proof -
  let ?c = "(pe_conn w p)\<lparr>sc_closed := False\<rparr>"
  have "sc_closed c' = False" if "socks_connect (pe_ParseIP w) (pe_ctx w) d addr ?c = (r, c')" for r c'
    using socks_connect_frame(1) [OF that] by simp
  then show ?thesis using validateTarget_tcp [OF assms]
    by (auto simp: socks_exchange_def socks_DialContext_def io_Close_def Let_def split: prod.splits sum.splits)
qed

text \<open>The error that the dialers wrap, and a dialer whose direct connection is that of the package.\<close>

fun root_error :: "'k dial_error \<Rightarrow> 'k dial_error" where
  "root_error (DialError scheme a e) = root_error e"
| "root_error e = e"

fun own_dialer :: "'k dialer \<Rightarrow> bool" where
  "own_dialer (Foreign i) \<longleftrightarrow> False"
| "own_dialer (Over w d) \<longleftrightarrow> own_dialer d"
| "own_dialer _ \<longleftrightarrow> True"

definition settled :: "'k peers \<Rightarrow> 'k dial_result \<Rightarrow> bool" where
  "settled w r = (case r of
     (Inr p, n) \<Rightarrow> n = 1
   | (Inl e, n) \<Rightarrow> n = 0 \<or> n = 1 \<and> (\<exists>p u. root_error e = NetError (WebSocket u) \<and> pe_ws_leaves w p (WebSocket u)))"

text \<open>An exchange after whose failure nothing is open, or only what the websocket library left.\<close>

definition closing :: "'k peers \<Rightarrow> 'k hop \<Rightarrow> 'k dial_error \<Rightarrow> bool" where
  "closing w h e \<longleftrightarrow> (\<forall>p. snd (exchange w p h) = fst (exchange w p h) \<or>
     snd (exchange w p h) \<and> (\<exists>q u. root_error e = NetError (WebSocket u) \<and> pe_ws_leaves w q (WebSocket u)))"

lemma hop_settled:
  "settled w r \<Longrightarrow> closing w h e \<Longrightarrow>
   settled w (case r of (Inl e, n) \<Rightarrow> (Inl (DialError s b e), n) | (Inr p, n) \<Rightarrow> add_hop (dial_env_of w) (p, n) h e)"
  by (cases r; cases "fst r") (auto simp: settled_def closing_def add_hop_def dial_env_of_def)

lemma pass_settled:
  "settled w r \<Longrightarrow> settled w (case r of (Inl e, n) \<Rightarrow> (Inl (DialError s b e), n) | (Inr p, n) \<Rightarrow> (Inr (f p), n))"
  by (cases r; cases "fst r") (auto simp: settled_def)

lemma closing_hops:
  "closing w (HTTPConnect addr auth) e"
  "closing w (Shadowsocks cipher remote) e"
  "socks_validateTarget d n = None \<Longrightarrow> closing w (SOCKS5 d addr) e"
  "closing w (WebSocket u) (NetError (WebSocket u))"
  by (auto simp: closing_def http_exchange_closes ss_exchange_closes socks_exchange_closes)

lemma early_error_settled: "settled w (Inl e, 0)"
  by (simp add: settled_def)

lemma socks5_settled:
  assumes "\<And>n a. settled w (fwd n a)"
  shows "settled w (socks5_DialContext (dial_env_of w) d fwd network addr)"
  by (cases "socks_validateTarget d network")
    (simp_all add: socks5_DialContext_def early_error_settled hop_settled [OF assms closing_hops(3)])

lemma wrapper_settled:
  assumes "\<And>n a. settled w (fwd n a)"
  shows "settled w (wrapper_DialContext (dial_env_of w) x fwd network addr)"
  by (cases x)
    (auto split: option.split intro: early_error_settled pass_settled [where f = "\<lambda>p. p"] pass_settled
      hop_settled closing_hops assms socks5_settled)

text \<open>Every proxy made from URLs, without a forwarder of the caller, is such a dialer.\<close>

lemma MakeProxy_loop_own:
  "MakeProxy_loop Parse (proxySchemes Parse PickCipher) urls fwd h = r \<Longrightarrow> own_dialer fwd \<Longrightarrow>
   (\<forall>p. r = Inr (Inl p) \<longrightarrow> own_dialer (proxy_Dialer p)) \<and> (\<forall>d h'. r = Inr (Inr (d, h')) \<longrightarrow> own_dialer d)"
proof (induction urls arbitrary: fwd h)
  case (Cons s urls)
  then show ?case
    by (auto simp: proxy_Dialer_def dest!: FromURL_wrapper split: option.splits sum.splits if_splits)
qed auto

lemma MakeProxy_own:
  assumes "MakeProxy sha1 Parse (proxySchemes Parse PickCipher) None urls = Inr px"
  shows "own_dialer (proxy_Dialer px)"
  using assms MakeProxy_loop_own [where Parse = Parse and PickCipher = PickCipher and urls = urls and
      fwd = Direct and h = "[]", OF refl]
  by (auto simp: MakeProxy_def proxy_Dialer_def split: sum.splits)

text \<open>
  C17. Along a chain of dialers of any length, whichever dials and exchanges on the way fail, a dial
  that returns a connection leaves that one open and no other, and a dial that returns an error
  leaves none of the connections that it made open: each exchange is the code of its dialer (\<open>http_connect\<close>,
  \<open>socks_DialContext\<close>, \<open>ss_connect\<close>) on an arbitrary connection, and the closing is its
  own. The one exception is stated: the connection of a websocket handshake that failed and that
  the library left open. A dialer of the caller that has no \<open>DialContext\<close> is excluded
  (\<open>proxy_dialContext\<close> is in theory Dial_Race); those made from URLs all have one
  (\<open>MakeProxy_own\<close>).
\<close>
theorem chain_no_leak:
  assumes "own_dialer d"
  shows "case DialContext (dial_env_of w) d network addr of
    (Inr p, n) \<Rightarrow> n = 1
  | (Inl e, n) \<Rightarrow> n = 0 \<or>
      n = 1 \<and> (\<exists>p u. root_error e = NetError (WebSocket u) \<and> pe_ws_leaves w p (WebSocket u))"
proof -
  have "settled w (DialContext (dial_env_of w) d network addr)"
    using assms
  proof (induction d arbitrary: network addr)
    case (Over x d)
    then show ?case using wrapper_settled [of w "DialContext (dial_env_of w) d" x network addr] by simp
  qed (simp_all add: settled_def)
  then show ?thesis by (simp add: settled_def)
qed

text \<open>A server that refuses the second hop of a chain.\<close>

definition refused_peers :: "unit peers" where
  "refused_peers = \<lparr>pe_ctx = Background, pe_library = \<lambda>p h. True, pe_ws_leaves = \<lambda>p h. False,
     pe_http = \<lambda>p. eager_server\<lparr>hc_in := [''HTTP/1.1 403 No'' @ crlf @ crlf]\<rparr>,
     pe_conn = \<lambda>p. refusing_server, pe_ParseIP = \<lambda>a. None, pe_ParseAddr = \<lambda>a. None, pe_stream = \<lambda>k b. b\<rparr>"

definition two_proxies :: "unit dialer" where
  "two_proxies = Over (tcptunDialer ''t:1'' True) (Over (httpDialer ''p:80'' None) Direct)"

lemma refused_dial: "isl (fst (DialContext (dial_env_of refused_peers) two_proxies ''tcp'' ''go:80''))"
proof -
  have h: "header_lines (''HTTP/1.1 403 No'' @ crlf @ crlf) = Some ([''HTTP/1.1 403 No''], [])"
    by (simp add: header_lines.simps trim_cr_def)
  have "read_header [] [''HTTP/1.1 403 No'' @ crlf @ crlf] = Some (([''HTTP/1.1 403 No''], []), [])"
    using h by (simp add: read_header.simps header_lines.simps [of "[]"])
  moreover have "status_of ''HTTP/1.1 403 No'' = Some 403"
    by (simp add: status_of_def cut_space_def valid_http_version_def HasPrefix_def is_digit_def Atoi_def
        split_sign_def)
  ultimately have r: "read_response [''HTTP/1.1 403 No'' @ crlf @ crlf] = Some (403, [], [])"
    by (simp add: read_response_def)
  have "fst (http_exchange refused_peers p ''t:1'' None) = False" for p
    using r by (simp add: http_exchange_def http_connect_def refused_peers_def eager_server_def Background_def)
  then show ?thesis
    by (simp add: two_proxies_def dial_env_of_def add_hop_def is_tcp_def tcptun_target_def refused_peers_def)
qed

theorem chain_no_leak_witness:
  "\<exists>e. DialContext (dial_env_of refused_peers) two_proxies ''tcp'' ''go:80'' = (Inl e, 0)"
proof -
  have "own_dialer two_proxies" by (simp add: two_proxies_def)
  from chain_no_leak [OF this, of refused_peers "''tcp''" "''go:80''"] refused_dial show ?thesis
    by (cases "DialContext (dial_env_of refused_peers) two_proxies ''tcp'' ''go:80''"; 
        cases "fst (DialContext (dial_env_of refused_peers) two_proxies ''tcp'' ''go:80'')")
      (auto simp: refused_peers_def)
qed

end
