(* ===== verification/Dial_Race.thy ===== *)
theory Dial_Race
  imports Prelude
begin

text \<open>
  The two ways to call a dialer that knows no context: \<open>dialFallback\<close> (\<open>proxy/dial.go\<close>) and
  \<open>proxy_dialContext\<close> (\<open>proxy/x_net_proxy.go\<close>). In both a goroutine calls \<open>Dial\<close> while the caller
  waits for it or for the context, whichever comes first; the steps of the two, of \<open>Dial\<close> and of
  the context interleave freely.
\<close>

datatype outcome = Failed | Connected      \<comment> \<open>what \<open>Dial\<close> returns\<close>
datatype caller = Selecting | ReturnedErr | Returned outcome

section \<open>\<open>dialFallback\<close>\<close>

datatype goroutine = Dialing | Waiting outcome | Gone outcome

record fallback =
  fb_caller :: caller
  fb_goroutine :: goroutine
  fb_result :: "outcome option"            \<comment> \<open>the channel \<open>result\<close>, of capacity 1\<close>
  fb_done :: bool                          \<comment> \<open>\<open>done\<close> is closed\<close>
  fb_ctx :: bool                           \<comment> \<open>the context is done\<close>
  fb_closed :: bool                        \<comment> \<open>the connection has been closed\<close>

definition fb_start :: "bool \<Rightarrow> fallback" where
  "fb_start cancelled = \<lparr>fb_caller = Selecting, fb_goroutine = Dialing, fb_result = None, fb_done = False,
     fb_ctx = cancelled, fb_closed = False\<rparr>"

text \<open>
  The goroutine sends the result of \<open>Dial\<close>; the caller takes a branch of its \<open>select\<close> and closes
  \<open>done\<close> as it returns; then the goroutine looks whether its result is still there.
\<close>

inductive fb_step :: "fallback \<Rightarrow> fallback \<Rightarrow> bool" where
  dial_returns: "fb_goroutine s = Dialing \<Longrightarrow>
     fb_step s (s\<lparr>fb_goroutine := Waiting r, fb_result := Some r\<rparr>)"
| ctx_done: "fb_step s (s\<lparr>fb_ctx := True\<rparr>)"
| select_ctx: "fb_caller s = Selecting \<Longrightarrow> fb_ctx s \<Longrightarrow>
     fb_step s (s\<lparr>fb_caller := ReturnedErr, fb_done := True\<rparr>)"
| select_result: "fb_caller s = Selecting \<Longrightarrow> fb_result s = Some r \<Longrightarrow>
     fb_step s (s\<lparr>fb_caller := Returned r, fb_result := None, fb_done := True\<rparr>)"
| goroutine_ends: "fb_goroutine s = Waiting r \<Longrightarrow> fb_done s \<Longrightarrow>
     fb_step s (s\<lparr>fb_goroutine := Gone r,
       fb_closed := (if fb_result s \<noteq> None \<and> r = Connected then True else fb_closed s)\<rparr>)"

inductive_cases fb_stepE: "fb_step s s'"

abbreviation fb_reachable :: "bool \<Rightarrow> fallback \<Rightarrow> bool" where
  "fb_reachable c s \<equiv> fb_step\<^sup>*\<^sup>* (fb_start c) s"

definition fb_inv :: "fallback \<Rightarrow> bool" where
  "fb_inv s \<longleftrightarrow>
     (fb_done s \<longleftrightarrow> fb_caller s \<noteq> Selecting) \<and>
     (case fb_goroutine s of
        Dialing \<Rightarrow> fb_result s = None \<and> \<not> fb_closed s \<and> (\<forall>r. fb_caller s \<noteq> Returned r)
      | Waiting r \<Rightarrow> \<not> fb_closed s \<and>
          (if fb_result s = None then fb_caller s = Returned r
           else fb_result s = Some r \<and> (\<forall>r. fb_caller s \<noteq> Returned r))
      | Gone r \<Rightarrow> fb_done s \<and>
          (if fb_caller s = ReturnedErr then fb_closed s = (r = Connected)
           else fb_caller s = Returned r \<and> \<not> fb_closed s))"

lemma fb_inv_step: "fb_inv s \<Longrightarrow> fb_step s s' \<Longrightarrow> fb_inv s'"
  by (erule fb_stepE; cases "fb_caller s") (auto simp: fb_inv_def split: goroutine.splits if_splits)

lemma fb_inv_reachable: "fb_reachable c s \<Longrightarrow> fb_inv s"
proof (induction rule: rtranclp_induct)
  case base
  then show ?case by (simp add: fb_inv_def fb_start_def)
next
  case (step y z)
  then show ?case by (blast intro: fb_inv_step)
qed

text \<open>
  C15. \<open>dialFallback\<close> loses no connection and breaks none: in every interleaving with the context
  and with \<open>Dial\<close>, a connection that the caller has got is never closed behind its back, and once
  the goroutine has ended, a connection that was made has either been returned or been closed.
  The goroutine ends: when \<open>Dial\<close> has returned and so has the caller, its last step is enabled.
\<close>
theorem fallback_no_leak:
  assumes "fb_reachable c s"
  shows "(fb_caller s = Returned Connected \<longrightarrow> \<not> fb_closed s) \<and>
    (fb_goroutine s = Gone Connected \<longrightarrow> fb_caller s = Returned Connected \<or> fb_closed s) \<and>
    (\<forall>r. fb_goroutine s = Waiting r \<and> fb_caller s \<noteq> Selecting \<longrightarrow>
       (\<exists>s'. fb_step s s' \<and> fb_goroutine s' = Gone r))"
proof -
  have i: "fb_inv s" by (rule fb_inv_reachable [OF assms])
  have "\<exists>s'. fb_step s s' \<and> fb_goroutine s' = Gone r"
    if "fb_goroutine s = Waiting r" "fb_caller s \<noteq> Selecting" for r
    using i that goroutine_ends [of s r] by (auto simp: fb_inv_def)
  with i show ?thesis by (auto simp: fb_inv_def split: goroutine.splits if_splits)
qed

text \<open>The caller has cancelled when the connection comes.\<close>

definition fb_late :: fallback where
  "fb_late = \<lparr>fb_caller = ReturnedErr, fb_goroutine = Gone Connected, fb_result = Some Connected, fb_done = True,
     fb_ctx = True, fb_closed = True\<rparr>"

lemma fb_late_reachable: "fb_reachable True fb_late"
proof -
  let ?s1 = "(fb_start True)\<lparr>fb_caller := ReturnedErr, fb_done := True\<rparr>"
  let ?s2 = "?s1\<lparr>fb_goroutine := Waiting Connected, fb_result := Some Connected\<rparr>"
  have "fb_step (fb_start True) ?s1" by (rule select_ctx) (simp_all add: fb_start_def)
  moreover have "fb_step ?s1 ?s2" by (rule dial_returns) (simp add: fb_start_def)
  moreover have "fb_step ?s2 fb_late"
    using goroutine_ends [of ?s2 Connected] by (simp add: fb_start_def fb_late_def)
  ultimately show ?thesis by (meson rtranclp.simps converse_rtranclp_into_rtranclp)
qed

theorem fallback_no_leak_witness: "fb_goroutine fb_late = Gone Connected \<and> (fb_caller fb_late = Returned Connected \<or> fb_closed fb_late)"
  using fallback_no_leak [OF fb_late_reachable] by (simp add: fb_late_def)

section \<open>\<open>proxy_dialContext\<close>\<close>

text \<open>
  Here the goroutine leaves the result in a variable that it shares with the caller, closes
  \<open>done\<close>, and after that looks at the context.
\<close>

datatype dc_goroutine = DC_Dialing | DC_Stored outcome | DC_Signalled outcome | DC_Gone outcome

record dial_ctx =
  dc_caller :: caller
  dc_goroutine :: dc_goroutine
  dc_ctx :: bool
  dc_closed :: bool

definition dc_start :: "bool \<Rightarrow> dial_ctx" where
  "dc_start cancelled =
     \<lparr>dc_caller = Selecting, dc_goroutine = DC_Dialing, dc_ctx = cancelled, dc_closed = False\<rparr>"

inductive dc_step :: "dial_ctx \<Rightarrow> dial_ctx \<Rightarrow> bool" where
  dc_dial: "dc_goroutine s = DC_Dialing \<Longrightarrow> dc_step s (s\<lparr>dc_goroutine := DC_Stored r\<rparr>)"
| dc_signal: "dc_goroutine s = DC_Stored r \<Longrightarrow> dc_step s (s\<lparr>dc_goroutine := DC_Signalled r\<rparr>)"
| dc_check: "dc_goroutine s = DC_Signalled r \<Longrightarrow>
     dc_step s (s\<lparr>dc_goroutine := DC_Gone r,
       dc_closed := (if r = Connected \<and> dc_ctx s then True else dc_closed s)\<rparr>)"
| dc_cancel: "dc_step s (s\<lparr>dc_ctx := True\<rparr>)"
| dc_select_ctx: "dc_caller s = Selecting \<Longrightarrow> dc_ctx s \<Longrightarrow> dc_step s (s\<lparr>dc_caller := ReturnedErr\<rparr>)"
| dc_select_done: "dc_caller s = Selecting \<Longrightarrow> dc_goroutine s = DC_Signalled r \<or> dc_goroutine s = DC_Gone r \<Longrightarrow>
     dc_step s (s\<lparr>dc_caller := Returned r\<rparr>)"

text \<open>
  A leak is possible: the goroutine finds the context not done and ends; the context is cancelled
  then, and the caller, who still selects among two ready branches, takes the other one. And the
  connection of a successful call may be closed under its user, when the context is cancelled
  between the return of the caller and the goroutine's look.
\<close>

lemma dial_context_leaks:
  "\<exists>s. dc_step\<^sup>*\<^sup>* (dc_start False) s \<and> dc_goroutine s = DC_Gone Connected \<and> dc_caller s = ReturnedErr \<and>
     \<not> dc_closed s"
proof -
  let ?s1 = "(dc_start False)\<lparr>dc_goroutine := DC_Stored Connected\<rparr>"
  let ?s2 = "?s1\<lparr>dc_goroutine := DC_Signalled Connected\<rparr>"
  let ?s3 = "?s2\<lparr>dc_goroutine := DC_Gone Connected\<rparr>"
  let ?s4 = "?s3\<lparr>dc_ctx := True\<rparr>"
  let ?s5 = "?s4\<lparr>dc_caller := ReturnedErr\<rparr>"
  have "dc_step (dc_start False) ?s1" by (rule dc_dial) (simp add: dc_start_def)
  moreover have "dc_step ?s1 ?s2" by (rule dc_signal) simp
  moreover have "dc_step ?s2 ?s3" using dc_check [of ?s2 Connected] by (simp add: dc_start_def)
  moreover have "dc_step ?s3 ?s4" by (rule dc_cancel)
  moreover have "dc_step ?s4 ?s5" by (rule dc_select_ctx) (simp_all add: dc_start_def)
  ultimately have "dc_step\<^sup>*\<^sup>* (dc_start False) ?s5" by (meson converse_rtranclp_into_rtranclp rtranclp.rtrancl_refl)
  then show ?thesis by (intro exI [of _ ?s5]) (simp add: dc_start_def)
qed

lemma dial_context_closes_returned:
  "\<exists>s. dc_step\<^sup>*\<^sup>* (dc_start False) s \<and> dc_caller s = Returned Connected \<and> dc_closed s"
proof -
  let ?s1 = "(dc_start False)\<lparr>dc_goroutine := DC_Stored Connected\<rparr>"
  let ?s2 = "?s1\<lparr>dc_goroutine := DC_Signalled Connected\<rparr>"
  let ?s3 = "?s2\<lparr>dc_caller := Returned Connected\<rparr>"
  let ?s4 = "?s3\<lparr>dc_ctx := True\<rparr>"
  let ?s5 = "?s4\<lparr>dc_goroutine := DC_Gone Connected, dc_closed := True\<rparr>"
  have "dc_step (dc_start False) ?s1" by (rule dc_dial) (simp add: dc_start_def)
  moreover have "dc_step ?s1 ?s2" by (rule dc_signal) simp
  moreover have "dc_step ?s2 ?s3" by (rule dc_select_done) (simp_all add: dc_start_def)
  moreover have "dc_step ?s3 ?s4" by (rule dc_cancel)
  moreover have "dc_step ?s4 ?s5" using dc_check [of ?s4 Connected] by (simp add: dc_start_def)
  ultimately have "dc_step\<^sup>*\<^sup>* (dc_start False) ?s5" by (meson converse_rtranclp_into_rtranclp rtranclp.rtrancl_refl)
  then show ?thesis by (intro exI [of _ ?s5]) (simp add: dc_start_def)
qed

end
