(* ===== verification/Dual_Dial.thy ===== *)
theory Dual_Dial
  imports Prelude
begin

text \<open>
  The dial of \<open>service/socks/socks.go\<close> to a name that has IPv4 and IPv6 addresses: two goroutines
  dial, one each, and the first connection wins. They hand over through the unbuffered channel
  \<open>c\<close>, keep the first error in \<open>errCh\<close> (capacity 1), and the second one to finish closes \<open>c\<close>. The
  index of a goroutine is a bool: \<open>False\<close> dials \<open>getaddr1\<close>, \<open>True\<close> \<open>getaddr2\<close>. The context of the
  caller may end at any time.
\<close>

datatype dd_pc =
    Dialing
  | Offering        \<comment> \<open>at the \<open>select\<close> with a connection\<close>
  | Counting        \<comment> \<open>before \<open>n.Add(1)\<close>\<close>
  | Closing         \<comment> \<open>\<open>n.Add(1) == N\<close>, before \<open>close(c)\<close>\<close>
  | Finished

datatype dd_main =
    Receiving
  | AwaitErr        \<comment> \<open>at \<open><-errCh\<close>\<close>
  | ReturnedConn bool
  | ReturnedErr

datatype dd_conn = NoConn | Open | Closed | Taken

record dual =
  dd_main :: dd_main
  dd_pc :: "bool \<Rightarrow> dd_pc"
  dd_conn :: "bool \<Rightarrow> dd_conn"
  dd_cancelled :: "bool \<Rightarrow> bool"      \<comment> \<open>\<open>contexts[i].Cancel\<close> was called\<close>
  dd_local :: bool                    \<comment> \<open>\<open>localCtx\<close> is done\<close>
  dd_err :: bool                      \<comment> \<open>\<open>errCh\<close> holds an error\<close>
  dd_n :: nat
  dd_closed :: bool                   \<comment> \<open>\<open>c\<close> is closed\<close>

definition dd_start :: "bool \<Rightarrow> dual" where
  "dd_start done = \<lparr>dd_main = Receiving, dd_pc = \<lambda>i. Dialing, dd_conn = \<lambda>i. NoConn, dd_cancelled = \<lambda>i. False,
     dd_local = done, dd_err = False, dd_n = 0, dd_closed = False\<rparr>"

inductive dd_step :: "dual \<Rightarrow> dual \<Rightarrow> bool" where
  dial_fails: "dd_pc s i = Dialing \<Longrightarrow>
     dd_step s (s\<lparr>dd_err := True, dd_pc := (dd_pc s)(i := Counting)\<rparr>)"
| dial_connects: "dd_pc s i = Dialing \<Longrightarrow>
     dd_step s (s\<lparr>dd_conn := (dd_conn s)(i := Open), dd_pc := (dd_pc s)(i := Offering)\<rparr>)"
| hand_over: "dd_pc s i = Offering \<Longrightarrow> dd_main s = Receiving \<Longrightarrow>
     dd_step s (s\<lparr>dd_main := ReturnedConn i, dd_conn := (dd_conn s)(i := Taken),
       dd_pc := (dd_pc s)(i := Counting), dd_cancelled := (dd_cancelled s)(\<not> i := True)\<rparr>)"
| give_up: "dd_pc s i = Offering \<Longrightarrow> dd_local s \<or> dd_cancelled s i \<Longrightarrow>
     dd_step s (s\<lparr>dd_conn := (dd_conn s)(i := Closed), dd_pc := (dd_pc s)(i := Counting)\<rparr>)"
| count: "dd_pc s i = Counting \<Longrightarrow>
     dd_step s (s\<lparr>dd_n := dd_n s + 1,
       dd_pc := (dd_pc s)(i := if dd_n s + 1 = 2 then Closing else Finished)\<rparr>)"
| close_c: "dd_pc s i = Closing \<Longrightarrow>
     dd_step s (s\<lparr>dd_closed := True, dd_pc := (dd_pc s)(i := Finished)\<rparr>)"
| receive_closed: "dd_main s = Receiving \<Longrightarrow> dd_closed s \<Longrightarrow>
     dd_step s (s\<lparr>dd_main := AwaitErr, dd_cancelled := \<lambda>i. True\<rparr>)"
| receive_err: "dd_main s = AwaitErr \<Longrightarrow> dd_err s \<Longrightarrow>
     dd_step s (s\<lparr>dd_main := ReturnedErr, dd_err := False\<rparr>)"
| local_done: "\<not> dd_local s \<Longrightarrow> dd_step s (s\<lparr>dd_local := True\<rparr>)"

inductive_cases dd_stepE: "dd_step s s'"

abbreviation dd_reachable :: "bool \<Rightarrow> dual \<Rightarrow> bool" where
  "dd_reachable d s \<equiv> dd_step\<^sup>*\<^sup>* (dd_start d) s"

section \<open>The invariant\<close>

definition counted :: "dd_pc \<Rightarrow> nat" where
  "counted p = (if p = Closing \<or> p = Finished then 1 else 0)"

definition conn_fits :: "dual \<Rightarrow> bool \<Rightarrow> bool" where
  "conn_fits s i \<longleftrightarrow>
     (case dd_pc s i of
        Dialing \<Rightarrow> dd_conn s i = NoConn
      | Offering \<Rightarrow> dd_conn s i = Open
      | _ \<Rightarrow> dd_conn s i \<noteq> Open) \<and>
     (dd_conn s i = Taken \<longleftrightarrow> dd_main s = ReturnedConn i)"

text \<open>
  Once both goroutines have counted, \<open>c\<close> is closed or about to be; with \<open>c\<close> closed and no
  connection handed over, each dial has left an error or a connection that was closed as the
  context had ended.
\<close>

definition dd_inv :: "dual \<Rightarrow> bool" where
  "dd_inv s \<longleftrightarrow>
     conn_fits s False \<and> conn_fits s True \<and>
     dd_n s = counted (dd_pc s False) + counted (dd_pc s True) \<and>
     (dd_pc s False = Closing \<longrightarrow> dd_pc s True = Finished) \<and>
     (dd_pc s True = Closing \<longrightarrow> dd_pc s False = Finished) \<and>
     dd_closed s = (dd_pc s False = Finished \<and> dd_pc s True = Finished) \<and>
     (dd_main s = AwaitErr \<or> dd_main s = ReturnedErr \<longrightarrow> dd_closed s) \<and>
     (\<forall>i. dd_main s = Receiving \<longrightarrow> \<not> dd_cancelled s i) \<and>
     (\<forall>i. dd_main s = ReturnedConn i \<longrightarrow> dd_cancelled s (\<not> i)) \<and>
     (dd_main s = Receiving \<or> dd_main s = AwaitErr \<longrightarrow>
        (\<forall>i. dd_pc s i \<noteq> Dialing \<and> dd_conn s i = NoConn \<longrightarrow> dd_err s)) \<and>
     (dd_main s = Receiving \<or> dd_main s = AwaitErr \<longrightarrow> (\<forall>i. dd_conn s i = Closed \<longrightarrow> dd_local s))"

lemma dd_inv_start: "dd_inv (dd_start d)"
  by (simp add: dd_inv_def dd_start_def conn_fits_def counted_def)

lemma dd_inv_dial_fails:
  assumes "dd_inv s" "dd_pc s i = Dialing"
  shows "dd_inv (s\<lparr>dd_err := True, dd_pc := (dd_pc s)(i := Counting)\<rparr>)"
  using assms unfolding dd_inv_def conn_fits_def counted_def all_bool_eq
  by (cases i; cases "dd_pc s (\<not> i)"; auto)

lemma dd_inv_dial_connects:
  assumes "dd_inv s" "dd_pc s i = Dialing"
  shows "dd_inv (s\<lparr>dd_conn := (dd_conn s)(i := Open), dd_pc := (dd_pc s)(i := Offering)\<rparr>)"
  using assms unfolding dd_inv_def conn_fits_def counted_def all_bool_eq
  by (cases i; cases "dd_pc s (\<not> i)"; auto)

lemma dd_inv_hand_over:
  assumes "dd_inv s" "dd_pc s i = Offering" "dd_main s = Receiving"
  shows "dd_inv (s\<lparr>dd_main := ReturnedConn i, dd_conn := (dd_conn s)(i := Taken),
       dd_pc := (dd_pc s)(i := Counting), dd_cancelled := (dd_cancelled s)(\<not> i := True)\<rparr>)"
  using assms unfolding dd_inv_def conn_fits_def counted_def all_bool_eq
  by (cases i; cases "dd_pc s (\<not> i)"; auto)

lemma dd_inv_give_up:
  assumes "dd_inv s" "dd_pc s i = Offering" "dd_local s \<or> dd_cancelled s i"
  shows "dd_inv (s\<lparr>dd_conn := (dd_conn s)(i := Closed), dd_pc := (dd_pc s)(i := Counting)\<rparr>)"
  using assms unfolding dd_inv_def conn_fits_def counted_def all_bool_eq
  by (cases i; cases "dd_pc s (\<not> i)"; auto)

lemma dd_inv_count:
  assumes "dd_inv s" "dd_pc s i = Counting"
  shows "dd_inv (s\<lparr>dd_n := dd_n s + 1,
       dd_pc := (dd_pc s)(i := if dd_n s + 1 = 2 then Closing else Finished)\<rparr>)"
  using assms unfolding dd_inv_def conn_fits_def counted_def all_bool_eq
  by (cases i; cases "dd_pc s (\<not> i)"; auto)

lemma dd_inv_close_c:
  assumes "dd_inv s" "dd_pc s i = Closing"
  shows "dd_inv (s\<lparr>dd_closed := True, dd_pc := (dd_pc s)(i := Finished)\<rparr>)"
  using assms unfolding dd_inv_def conn_fits_def counted_def all_bool_eq
  by (cases i; cases "dd_pc s (\<not> i)"; auto)

lemma dd_inv_receive_closed:
  assumes "dd_inv s" "dd_main s = Receiving" "dd_closed s"
  shows "dd_inv (s\<lparr>dd_main := AwaitErr, dd_cancelled := \<lambda>i. True\<rparr>)"
  using assms unfolding dd_inv_def conn_fits_def counted_def all_bool_eq
  by (cases "dd_pc s True"; cases "dd_pc s False"; auto)

lemma dd_inv_receive_err:
  assumes "dd_inv s" "dd_main s = AwaitErr" "dd_err s"
  shows "dd_inv (s\<lparr>dd_main := ReturnedErr, dd_err := False\<rparr>)"
  using assms unfolding dd_inv_def conn_fits_def counted_def all_bool_eq
  by (cases "dd_pc s True"; cases "dd_pc s False"; auto)

lemma dd_inv_local_done:
  assumes "dd_inv s"
  shows "dd_inv (s\<lparr>dd_local := True\<rparr>)"
proof -
  have "conn_fits (s\<lparr>dd_local := True\<rparr>) i = conn_fits s i" for i
    by (simp add: conn_fits_def cong: dd_pc.case_cong)
  with assms show ?thesis unfolding dd_inv_def by (simp; blast)
qed

lemma dd_inv_step:
  assumes "dd_step s s'" "dd_inv s"
  shows "dd_inv s'"
  using assms(1)
proof cases
  case (dial_fails i)
  then show ?thesis using dd_inv_dial_fails [OF assms(2)] by blast
next
  case (dial_connects i)
  then show ?thesis using dd_inv_dial_connects [OF assms(2)] by blast
next
  case (hand_over i)
  then show ?thesis using dd_inv_hand_over [OF assms(2)] by blast
next
  case (give_up i)
  then show ?thesis using dd_inv_give_up [OF assms(2)] by blast
next
  case (count i)
  show ?thesis unfolding count(1) by (rule dd_inv_count [OF assms(2) count(2)])
next
  case (close_c i)
  then show ?thesis using dd_inv_close_c [OF assms(2)] by blast
next
  case receive_closed
  then show ?thesis using dd_inv_receive_closed [OF assms(2)] by blast
next
  case receive_err
  then show ?thesis using dd_inv_receive_err [OF assms(2)] by blast
next
  case local_done
  then show ?thesis using dd_inv_local_done [OF assms(2)] by blast
qed

lemma dd_inv_reachable: "dd_reachable d s \<Longrightarrow> dd_inv s"
proof (induction rule: rtranclp_induct)
  case base
  then show ?case by (rule dd_inv_start)
next
  case (step y z)
  then show ?case using dd_inv_step by blast
qed

section \<open>What the race gives\<close>

lemma dd_invD:
  assumes "dd_inv s"
  shows "dd_conn s i = Taken \<longleftrightarrow> dd_main s = ReturnedConn i"
    and "dd_pc s i = Finished \<Longrightarrow> dd_conn s i \<noteq> Open"
    and "dd_main s = AwaitErr \<Longrightarrow> dd_pc s i = Finished"
    and "dd_main s = AwaitErr \<Longrightarrow> dd_conn s i \<noteq> NoConn \<or> dd_err s"
    and "dd_main s = AwaitErr \<Longrightarrow> dd_conn s i = Closed \<Longrightarrow> dd_local s"
    and "dd_pc s False = Finished \<Longrightarrow> dd_pc s True = Finished \<Longrightarrow> dd_closed s"
    and "dd_pc s i = Offering \<Longrightarrow> dd_main s = Receiving \<or> dd_main s = ReturnedConn (\<not> i) \<and> dd_cancelled s i"
proof -
  note d = assms [unfolded dd_inv_def conn_fits_def all_bool_eq]
  show "dd_conn s i = Taken \<longleftrightarrow> dd_main s = ReturnedConn i" using d by (cases i) auto
  show "dd_pc s i = Finished \<Longrightarrow> dd_conn s i \<noteq> Open" using d by (cases i) auto
  show "dd_main s = AwaitErr \<Longrightarrow> dd_pc s i = Finished" using d by (cases i) auto
  show "dd_main s = AwaitErr \<Longrightarrow> dd_conn s i \<noteq> NoConn \<or> dd_err s" using d by (cases i) auto
  show "dd_main s = AwaitErr \<Longrightarrow> dd_conn s i = Closed \<Longrightarrow> dd_local s" using d by (cases i) auto
  show "dd_pc s False = Finished \<Longrightarrow> dd_pc s True = Finished \<Longrightarrow> dd_closed s" using d by auto
  show "dd_main s = Receiving \<or> dd_main s = ReturnedConn (\<not> i) \<and> dd_cancelled s i" if "dd_pc s i = Offering"
  proof -
    consider "dd_main s = Receiving" | "dd_main s = ReturnedConn True" | "dd_main s = ReturnedConn False"
      | "dd_main s = AwaitErr \<or> dd_main s = ReturnedErr"
      by (metis (full_types) dd_main.exhaust)
    then show ?thesis using d that by cases (cases i; cases "dd_pc s (\<not> i)"; auto)+
  qed
qed

definition dd_returned :: "dual \<Rightarrow> bool" where
  "dd_returned s \<longleftrightarrow> dd_main s = ReturnedErr \<or> (\<exists>i. dd_main s = ReturnedConn i)"

text \<open>A state in which nobody moves any more, whatever the context does.\<close>

definition dd_quiet :: "dual \<Rightarrow> bool" where
  "dd_quiet s \<longleftrightarrow> (\<forall>s'. dd_step s s' \<longrightarrow> s' = s\<lparr>dd_local := True\<rparr>)"

lemma quiet_finished:
  assumes "dd_inv s" "dd_quiet s"
  shows "dd_pc s i = Finished"
proof (cases "dd_pc s i")
  case Dialing
  then have "s\<lparr>dd_err := True, dd_pc := (dd_pc s)(i := Counting)\<rparr> = s\<lparr>dd_local := True\<rparr>"
    using assms(2) dial_fails [OF Dialing] unfolding dd_quiet_def by blast
  from arg_cong [OF this, of "\<lambda>s. dd_pc s i"] Dialing show ?thesis by simp
next
  case Offering
  show ?thesis
    using dd_invD(7) [OF assms(1) Offering]
  proof
    assume "dd_main s = Receiving"
    from hand_over [OF Offering this] have "(s\<lparr>dd_main := ReturnedConn i, dd_conn := (dd_conn s)(i := Taken),
       dd_pc := (dd_pc s)(i := Counting), dd_cancelled := (dd_cancelled s)(\<not> i := True)\<rparr>) = s\<lparr>dd_local := True\<rparr>"
      using assms(2) unfolding dd_quiet_def by blast
    from arg_cong [OF this, of dd_main] \<open>dd_main s = Receiving\<close> show ?thesis by simp
  next
    assume "dd_main s = ReturnedConn (\<not> i) \<and> dd_cancelled s i"
    then have "s\<lparr>dd_conn := (dd_conn s)(i := Closed), dd_pc := (dd_pc s)(i := Counting)\<rparr> = s\<lparr>dd_local := True\<rparr>"
      using assms(2) give_up [OF Offering] unfolding dd_quiet_def by blast
    from arg_cong [OF this, of "\<lambda>s. dd_pc s i"] Offering show ?thesis by simp
  qed
next
  case Counting
  then have "s\<lparr>dd_n := dd_n s + 1, dd_pc := (dd_pc s)(i := if dd_n s + 1 = 2 then Closing else Finished)\<rparr> = s\<lparr>dd_local := True\<rparr>"
    using assms(2) count [OF Counting] unfolding dd_quiet_def by blast
  from arg_cong [OF this, of dd_n] show ?thesis by simp
next
  case Closing
  then have "s\<lparr>dd_closed := True, dd_pc := (dd_pc s)(i := Finished)\<rparr> = s\<lparr>dd_local := True\<rparr>"
    using assms(2) close_c [OF Closing] unfolding dd_quiet_def by blast
  from arg_cong [OF this, of "\<lambda>s. dd_pc s i"] Closing show ?thesis by simp
qed

lemma quiet_main:
  assumes "dd_inv s" "dd_quiet s"
  shows "dd_returned s \<or> (dd_main s = AwaitErr \<and> dd_local s \<and> (\<forall>i. dd_conn s i = Closed))"
proof (cases "dd_main s")
  case Receiving
  have "dd_closed s" using quiet_finished [OF assms] dd_invD(6) [OF assms(1)] by blast
  then have "s\<lparr>dd_main := AwaitErr, dd_cancelled := \<lambda>i. True\<rparr> = s\<lparr>dd_local := True\<rparr>"
    using assms(2) receive_closed [OF Receiving] unfolding dd_quiet_def by blast
  from arg_cong [OF this, of dd_main] Receiving show ?thesis by simp
next
  case AwaitErr
  have "\<not> dd_err s"
  proof
    assume "dd_err s"
    then have "s\<lparr>dd_main := ReturnedErr, dd_err := False\<rparr> = s\<lparr>dd_local := True\<rparr>"
      using assms(2) receive_err [OF AwaitErr] unfolding dd_quiet_def by blast
    from arg_cong [OF this, of dd_main] AwaitErr show False by simp
  qed
  then have "dd_conn s i = Closed" for i
    using dd_invD(1,2,4) [OF assms(1), of i] quiet_finished [OF assms, of i] AwaitErr
    by (cases "dd_conn s i") auto
  then show ?thesis using dd_invD(5) [OF assms(1) AwaitErr] AwaitErr by blast
qed (auto simp: dd_returned_def)

text \<open>
  C16. In every interleaving of the two dials, the caller and its context: a connection is given to
  the caller at most once, it stays open, and it is one that its dial made; when everything has come to rest,
  the other connection, if there is one, has been closed, and the caller has returned, unless its
  context had ended while both dials had a connection to offer.
\<close>
theorem dual_dial_outcome:
  assumes "dd_reachable d s"
  shows "(\<forall>i. dd_conn s i = Taken \<longleftrightarrow> dd_main s = ReturnedConn i) \<and>
    (dd_quiet s \<longrightarrow> (\<forall>i. dd_conn s i \<noteq> Open) \<and> (dd_returned s \<or> dd_local s \<and> (\<forall>i. dd_conn s i = Closed)))"
  using dd_inv_reachable [OF assms] dd_invD quiet_finished quiet_main by blast

section \<open>A caller that never returns\<close>

text \<open>
  Both dials connect, the context ends, and both goroutines find their contexts done and close
  what they have: no error was sent, so that nothing arrives on \<open>errCh\<close>.
\<close>

definition dd_stuck :: dual where
  "dd_stuck = \<lparr>dd_main = AwaitErr, dd_pc = \<lambda>i. Finished, dd_conn = \<lambda>i. Closed, dd_cancelled = \<lambda>i. True,
     dd_local = True, dd_err = False, dd_n = 2, dd_closed = True\<rparr>"

lemma dd_stuck_quiet: "dd_quiet dd_stuck"
  unfolding dd_quiet_def by (auto simp: dd_stuck_def elim!: dd_stepE)

lemma dd_stuck_reachable: "dd_reachable False dd_stuck"
proof -
  let ?s0 = "dd_start False"
  let ?s1 = "?s0\<lparr>dd_conn := (dd_conn ?s0)(False := Open), dd_pc := (dd_pc ?s0)(False := Offering)\<rparr>"
  let ?s2 = "?s1\<lparr>dd_conn := (dd_conn ?s1)(True := Open), dd_pc := (dd_pc ?s1)(True := Offering)\<rparr>"
  let ?s3 = "?s2\<lparr>dd_local := True\<rparr>"
  let ?s4 = "?s3\<lparr>dd_conn := (dd_conn ?s3)(False := Closed), dd_pc := (dd_pc ?s3)(False := Counting)\<rparr>"
  let ?s5 = "?s4\<lparr>dd_conn := (dd_conn ?s4)(True := Closed), dd_pc := (dd_pc ?s4)(True := Counting)\<rparr>"
  let ?s6 = "?s5\<lparr>dd_n := 1, dd_pc := (dd_pc ?s5)(False := Finished)\<rparr>"
  let ?s7 = "?s6\<lparr>dd_n := 2, dd_pc := (dd_pc ?s6)(True := Closing)\<rparr>"
  let ?s8 = "?s7\<lparr>dd_closed := True, dd_pc := (dd_pc ?s7)(True := Finished)\<rparr>"
  let ?s9 = "?s8\<lparr>dd_main := AwaitErr, dd_cancelled := \<lambda>i. True\<rparr>"
  have "dd_step ?s0 ?s1" by (rule dial_connects) (simp add: dd_start_def)
  moreover have "dd_step ?s1 ?s2" by (rule dial_connects) (simp add: dd_start_def)
  moreover have "dd_step ?s2 ?s3" by (rule local_done) (simp add: dd_start_def)
  moreover have "dd_step ?s3 ?s4" by (rule give_up) simp_all
  moreover have "dd_step ?s4 ?s5" by (rule give_up) simp_all
  moreover have "dd_step ?s5 ?s6" using count [of ?s5 False] by (simp add: dd_start_def)
  moreover have "dd_step ?s6 ?s7" using count [of ?s6 True] by (simp add: dd_start_def numeral_2_eq_2)
  moreover have "dd_step ?s7 ?s8" by (rule close_c) simp
  moreover have "dd_step ?s8 ?s9" by (rule receive_closed) (simp_all add: dd_start_def)
  moreover have "?s9 = dd_stuck"
    by (simp add: dd_start_def dd_stuck_def fun_eq_iff)
  ultimately show ?thesis by (metis (no_types, lifting) converse_rtranclp_into_rtranclp rtranclp.rtrancl_refl)
qed

lemma dual_dial_stuck: "dd_reachable False dd_stuck \<and> dd_quiet dd_stuck \<and> \<not> dd_returned dd_stuck"
  using dd_stuck_reachable dd_stuck_quiet by (simp add: dd_returned_def dd_stuck_def)

theorem dual_dial_outcome_witness: "dd_local dd_stuck \<and> (\<forall>i. dd_conn dd_stuck i = Closed)"
  using dual_dial_outcome [OF dd_stuck_reachable] dd_stuck_quiet by (simp add: dd_stuck_def dd_returned_def)

end
