(* ===== verification/Socks_Service.thy ===== *)
theory Socks_Service
  imports Dns_Exchange Dual_Dial
begin

text \<open>
  The service \<open>socks\<close> (\<open>service/socks/socks.go\<close>): a SOCKS5 server that may resolve names itself,
  through DNS servers that its own proxy, or another one, reaches. Modelled are the options and
  what \<open>LoadEvent\<close> makes of them, the worker that owns the connection to a DNS server and asks it
  for addresses, the cache of the answers, and the dial for a client. The servers, TLS
  configurations, records and the calls for one query are those of \<open>dnstun\<close>, whose code this
  service repeats (theories Dns_Options, Dns_Answer, Dns_Exchange). The race between an IPv4 and an
  IPv6 dial is theory Dual_Dial.

  A pointer to a cache is a number, and \<open>so_allocs\<close> counts those the job has used. What the
  network answers may depend on the question. \<open>rand.IntN n\<close> is a number modulo \<open>n\<close>.
\<close>

section \<open>Options\<close>

record 'p socks_options =
  so_ListenAddr :: string
  so_Proxy :: 'p
  so_Conn :: ConnOptions
  so_Relay :: RelayOptions
  so_Server :: DNServer
  so_Servers :: "DNServer list"
  so_Query :: "string list"
  so_TTL_Min :: int
  so_TTL_Max :: int
  so_Idle_Timeout :: int
  so_Read_Timeout :: int
  so_Write_Timeout :: int
  so_DNS_Proxy :: "'p option"
  so_dnsCache :: "nat option"
  so_allocs :: nat

definition socks_zero :: "'p \<Rightarrow> 'p socks_options" where
  "socks_zero p = \<lparr>so_ListenAddr = [], so_Proxy = p, so_Conn = no_conn_opts, so_Relay = no_relay_opts,
     so_Server = no_server, so_Servers = [], so_Query = [], so_TTL_Min = 0, so_TTL_Max = 0, so_Idle_Timeout = 0,
     so_Read_Timeout = 0, so_Write_Timeout = 0, so_DNS_Proxy = None, so_dnsCache = None, so_allocs = 0\<rparr>"

definition sk_method :: "DNServer \<Rightarrow> string" where "sk_method = dns_method"
definition sk_defaultPort :: "string \<Rightarrow> nat" where "sk_defaultPort = defaultPort"
definition sk_port :: "DNServer \<Rightarrow> nat" where "sk_port = dns_port"
definition sk_url :: "DNServer \<Rightarrow> string" where "sk_url = dns_url"

text \<open>
  \<open>normalizeQueryTypes\<close> writes its result into the array that it ranges over: \<open>k\<close> elements are
  written when element \<open>i\<close> is read.
\<close>

function normalize_loop :: "string list \<Rightarrow> nat \<Rightarrow> nat \<Rightarrow> string list" where
  "normalize_loop a i k =
     (if i < length a then
        (let t = ToUpper (a ! i) in
         if t \<noteq> ''A'' \<and> t \<noteq> ''AAAA'' then normalize_loop a (i + 1) k
         else if t \<in> set (take k a) then normalize_loop a (i + 1) k
         else normalize_loop (a[k := t]) (i + 1) (k + 1))
      else take k a)"
  by pat_completeness auto
termination by (relation "measure (\<lambda>(a, i, k). length a - i)") (auto simp: Let_def)

declare normalize_loop.simps [simp del]

definition normalizeQueryTypes :: "string list \<Rightarrow> string list" where
  "normalizeQueryTypes qtypes = (if length qtypes = 0 then qtypes else normalize_loop qtypes 0 0)"

definition sk_shouldResetDNSCache :: "'p socks_options \<Rightarrow> 'p socks_options \<Rightarrow> bool" where
  "sk_shouldResetDNSCache x y \<longleftrightarrow>
     (so_TTL_Min x, so_TTL_Max x) \<noteq> (so_TTL_Min y, so_TTL_Max y) \<or>
     so_Query x \<noteq> so_Query y \<or> so_Servers x \<noteq> so_Servers y"

text \<open>
  The part of \<open>LoadEvent\<close> between the address and \<open>optsIn <- new\<close>; \<open>None\<close> where it logs an error
  and returns. The loop over the servers is \<open>checkServers\<close>.
\<close>

definition socks_add_server :: "'p socks_options \<Rightarrow> 'p socks_options" where
  "socks_add_server new =
     (if so_Servers new = [] \<and> (dn_Name (so_Server new) \<noteq> [] \<or> dn_IP (so_Server new) \<noteq> [])
      then new\<lparr>so_Servers := so_Servers new @ [so_Server new]\<rparr> else new)"

definition socks_query_types :: "'p socks_options \<Rightarrow> 'p socks_options" where
  "socks_query_types new =
     (let qs = normalizeQueryTypes (so_Query new)
      in new\<lparr>so_Query := if length qs = 0 then [''A'', ''AAAA''] else qs\<rparr>)"

definition socks_load_cache :: "'p socks_options \<Rightarrow> 'p socks_options \<Rightarrow> 'p socks_options" where
  "socks_load_cache old new =
     (if so_dnsCache new = None \<or> sk_shouldResetDNSCache old new
      then new\<lparr>so_dnsCache := Some (so_allocs new), so_allocs := so_allocs new + 1\<rparr> else new)"

definition socks_load :: "'p socks_options \<Rightarrow> 'p socks_options \<Rightarrow> 'p socks_options option" where
  "socks_load old new0 =
     (let new = socks_add_server (new0\<lparr>so_dnsCache := so_dnsCache old, so_allocs := so_allocs old\<rparr>)
      in if so_Servers new = [] then Some new
         else (case checkServers (so_Servers new) of
                 None \<Rightarrow> None
               | Some servers \<Rightarrow>
                   Some (socks_load_cache old ((socks_query_types new)\<lparr>so_Servers := servers\<rparr>))))"

definition socks_step ::
  "(string \<Rightarrow> bool) \<Rightarrow> 'p socks_options job_input \<Rightarrow> 'p socks_options job \<Rightarrow> 'p socks_options job" where
  "socks_step = job_step so_ListenAddr socks_load"

section \<open>Answers\<close>

record sk_result =
  sr_IPv4 :: "addr list"
  sr_IPv6 :: "addr list"
  sr_Deadline :: "int option"   \<comment> \<open>\<open>None\<close> is the zero time\<close>

definition sk_no_result :: sk_result where
  "sk_no_result = \<lparr>sr_IPv4 = [], sr_IPv6 = [], sr_Deadline = None\<rparr>"

definition sk_TTL :: "int \<Rightarrow> int \<Rightarrow> int" where
  "sk_TTL now deadline = (deadline - now) div second * second"

text \<open>The body of the loop over the records of an answer.\<close>

definition sk_header :: "'p socks_options \<Rightarrow> rr \<Rightarrow> 32 word \<Rightarrow> 32 word" where
  "sk_header opts r minTTL =
     (case rr_Header r of
        None \<Rightarrow> minTTL
      | Some h \<Rightarrow>
          let t = clamp_ttl (so_TTL_Min opts) (so_TTL_Max opts) (rh_TTL h)
          in if minTTL > t then t else minTTL)"

definition sk_data :: "rr \<Rightarrow> sk_result \<Rightarrow> sk_result" where
  "sk_data x r =
     (case rr_data x of
        RR_A a \<Rightarrow> if addr_IsValid a then r\<lparr>sr_IPv4 := sr_IPv4 r @ [a]\<rparr> else r
      | RR_AAAA a \<Rightarrow> if addr_IsValid a then r\<lparr>sr_IPv6 := sr_IPv6 r @ [a]\<rparr> else r
      | RR_other _ \<Rightarrow> r)"

definition sk_answer :: "'p socks_options \<Rightarrow> int \<Rightarrow> dns_msg \<Rightarrow> sk_result \<Rightarrow> sk_result" where
  "sk_answer opts now m r0 =
     (let minTTL = fold (sk_header opts) (dns_RRs m) MaxUint32;
          r = fold sk_data (dns_RRs m) r0
      in if minTTL < MaxUint32
         then (let newDeadline = now + uint minTTL * second
               in case sr_Deadline r of
                    None \<Rightarrow> r\<lparr>sr_Deadline := Some newDeadline\<rparr>
                  | Some d \<Rightarrow> if newDeadline < d then r\<lparr>sr_Deadline := Some newDeadline\<rparr> else r)
         else r)"

type_synonym sk_cache = "(string \<times> sk_result) list"

definition sk_lookup :: "int \<Rightarrow> string \<Rightarrow> sk_cache \<Rightarrow> sk_result option" where
  "sk_lookup now domain cache =
     (case map_of cache domain of
        None \<Rightarrow> None
      | Some r \<Rightarrow> (case sr_Deadline r of None \<Rightarrow> None | Some d \<Rightarrow> if d > now then Some r else None))"

section \<open>The worker\<close>

record sk_worker =
  wk_server :: DNServer
  wk_conn :: "dns_conn option"    \<comment> \<open>\<open>None\<close>: \<open>dnsConn.Net\<close> is \<open>nil\<close>\<close>
  wk_idle :: int
  wk_tls :: tls_state

definition sk_worker_start :: sk_worker where
  "sk_worker_start = \<lparr>wk_server = no_server, wk_conn = None, wk_idle = 0,
     wk_tls = \<lparr>tl_config = None, tl_key = ([], []), tl_cache = []\<rparr>\<rparr>"

definition sk_closeConnection :: "sk_worker \<Rightarrow> sk_worker" where
  "sk_closeConnection w = w\<lparr>wk_conn := None\<rparr>"

definition defaultIdleTimeout :: int where "defaultIdleTimeout = 10 * second"
definition defaultReadTimeout :: int where "defaultReadTimeout = 2 * second"
definition defaultWriteTimeout :: int where "defaultWriteTimeout = 3 * second"

text \<open>A new connection to a random server; \<open>None\<close> is the panic of \<open>rand.IntN(0)\<close> without servers.\<close>

definition sk_connect :: "'p socks_options \<Rightarrow> nat \<Rightarrow> nat \<Rightarrow> sk_worker \<Rightarrow> sk_worker option" where
  "sk_connect opts i j w =
     (if so_Servers opts = [] then None
      else
        let s = so_Servers opts ! (i mod length (so_Servers opts));
            host = (if dn_IP s \<noteq> [] then dn_IP s ! (j mod length (dn_IP s)) else dn_Name s);
            (cfg, tls) = (if dn_Over s = ''TLS'' \<or> dn_Over s = ''HTTPS'' then use_tls s (wk_tls w) else (None, wk_tls w))
        in Some (w\<lparr>wk_server := s, wk_tls := tls, wk_idle := pos_or (so_Idle_Timeout opts) defaultIdleTimeout,
             wk_conn := Some \<lparr>dc_hostport = JoinHostPort host (Itoa (sk_port s)), dc_tls = cfg,
               dc_ReadTimeout = pos_or (so_Read_Timeout opts) defaultReadTimeout,
               dc_WriteTimeout = pos_or (so_Write_Timeout opts) defaultWriteTimeout\<rparr>\<rparr>))"

text \<open>The dial function of that connection; the DNS proxy takes the place of the service's.\<close>

definition sk_dns_getRemote ::
  "('p \<Rightarrow> string \<Rightarrow> 'e + 'c) \<Rightarrow> string \<Rightarrow> bool \<Rightarrow> 'p socks_options \<times> bool \<Rightarrow> 'e remote_error + 'c" where
  "sk_dns_getRemote dial hostport query_done out =
     (if query_done then Inl CloseConn
      else if \<not> snd out then Inl CloseConn
      else dial_remote dial (case so_DNS_Proxy (fst out) of Some p \<Rightarrow> p | None \<Rightarrow> so_Proxy (fst out)) hostport)"

definition sk_question :: "(string \<Rightarrow> string) \<Rightarrow> string \<Rightarrow> string \<Rightarrow> (string \<times> 16 word) list" where
  "sk_question Fqdn domain qtype =
     (if qtype = ''A'' then [(Fqdn domain, 1)] else if qtype = ''AAAA'' then [(Fqdn domain, 28)] else [])"

definition sk_ask :: "dns_net \<Rightarrow> DNServer \<Rightarrow> dns_conn \<Rightarrow> dns_call list \<times> dns_msg option" where
  "sk_ask = dns_ask"

record 'p sk_input =
  si_ctx_err :: bool
  si_query_err :: bool
  si_opts :: "'p socks_options \<times> bool"
  si_server :: nat
  si_ip :: nat
  si_net :: "(string \<times> 16 word) list \<Rightarrow> dns_net"
  si_now :: int

record 'p sk_query =
  sq_opts :: "'p socks_options"
  sq_worker :: sk_worker
  sq_qtypes :: "string list"
  sq_result :: sk_result

datatype sk_turn = SkReturn | SkPanic | SkBreak | SkTurn

text \<open>One turn of the loop over the query types: perhaps a new connection, then one question.\<close>

definition sk_ready :: "'p sk_input \<Rightarrow> 'p sk_query \<Rightarrow> sk_turn \<times> 'p sk_query" where
  "sk_ready i q =
     (if wk_conn (sq_worker q) \<noteq> None then (SkTurn, q)
      else if \<not> snd (si_opts i) then (SkReturn, q)
      else (case sk_connect (fst (si_opts i)) (si_server i) (si_ip i) (sq_worker q) of
              None \<Rightarrow> (SkPanic, q)
            | Some w \<Rightarrow> (SkTurn, q\<lparr>sq_opts := fst (si_opts i), sq_worker := w\<rparr>)))"

definition sk_one_turn :: "(string \<Rightarrow> string) \<Rightarrow> string \<Rightarrow> 'p sk_input \<Rightarrow> 'p sk_query \<Rightarrow> sk_turn \<times> 'p sk_query" where
  "sk_one_turn Fqdn domain i q0 =
     (if si_ctx_err i then (SkReturn, q0)
      else if si_query_err i then (SkBreak, q0)
      else (case sk_ready i q0 of
              (SkTurn, q) \<Rightarrow>
                (case wk_conn (sq_worker q) of
                   None \<Rightarrow> (SkReturn, q)
                 | Some c \<Rightarrow>
                     (case snd (sk_ask (si_net i (sk_question Fqdn domain (hd (sq_qtypes q)))) (wk_server (sq_worker q)) c) of
                        None \<Rightarrow> (SkTurn, q\<lparr>sq_worker := sk_closeConnection (sq_worker q)\<rparr>)
                      | Some m \<Rightarrow>
                          (SkTurn, q\<lparr>sq_result := sk_answer (sq_opts q) (si_now i) m (sq_result q),
                                     sq_qtypes := tl (sq_qtypes q)\<rparr>)))
            | r \<Rightarrow> r))"

text \<open>The loop; \<open>None\<close> while it still runs when the inputs are used up.\<close>

datatype sk_end = SkDone | SkReturned | SkPanicked

fun sk_loop ::
  "(string \<Rightarrow> string) \<Rightarrow> string \<Rightarrow> 'p sk_input list \<Rightarrow> 'p sk_query \<Rightarrow> (sk_end \<times> 'p sk_query) option" where
  "sk_loop Fqdn domain is q =
     (if sq_qtypes q = [] then Some (SkDone, q)
      else (case is of
              [] \<Rightarrow> None
            | i # is \<Rightarrow>
                (case sk_one_turn Fqdn domain i q of
                   (SkReturn, q') \<Rightarrow> Some (SkReturned, q')
                 | (SkPanic, q') \<Rightarrow> Some (SkPanicked, q')
                 | (SkBreak, q') \<Rightarrow> Some (SkDone, q')
                 | (SkTurn, q') \<Rightarrow> sk_loop Fqdn domain is q')))"

declare sk_loop.simps [simp del]

text \<open>
  A query that the worker has taken, with the options it reads first: from the cache, or by the
  loop. The caches are reached through their pointers. The result is \<open>None\<close> where \<open>q.Result\<close> is
  closed without a value.
\<close>

definition sk_store :: "'p socks_options \<Rightarrow> string \<Rightarrow> sk_result \<Rightarrow> (nat \<Rightarrow> sk_cache) \<Rightarrow> nat \<Rightarrow> sk_cache" where
  "sk_store opts domain r caches =
     (case so_dnsCache opts of
        Some p \<Rightarrow> if sr_Deadline r \<noteq> None then caches(p := AList.update domain r (caches p)) else caches
      | None \<Rightarrow> caches)"

definition sk_serve_query ::
  "(string \<Rightarrow> string) \<Rightarrow> string \<Rightarrow> 'p socks_options \<Rightarrow> int \<Rightarrow> 'p sk_input list \<Rightarrow> (nat \<Rightarrow> sk_cache) \<Rightarrow> sk_worker
     \<Rightarrow> ((sk_end \<times> sk_result option) \<times> (nat \<Rightarrow> sk_cache) \<times> sk_worker) option" where
  "sk_serve_query Fqdn domain opts now inputs caches w =
     (case (case so_dnsCache opts of None \<Rightarrow> None | Some p \<Rightarrow> sk_lookup now domain (caches p)) of
        Some r \<Rightarrow> Some ((SkDone, Some r), caches, w)
      | None \<Rightarrow>
          (case sk_loop Fqdn domain inputs
              \<lparr>sq_opts = opts, sq_worker = w, sq_qtypes = so_Query opts, sq_result = sk_no_result\<rparr> of
             None \<Rightarrow> None
           | Some (SkDone, q) \<Rightarrow>
               (let r = sq_result q in
                if length (sr_IPv4 r) + length (sr_IPv6 r) \<noteq> 0
                then Some ((SkDone, Some r), sk_store (sq_opts q) domain r caches, sq_worker q)
                else Some ((SkDone, None), caches, sq_worker q))
           | Some (e, q) \<Rightarrow> Some ((e, None), caches, sq_worker q)))"

section \<open>The dial for a client\<close>

datatype sk_error = SkCloseConn | SkCancelled | SkNoResult | SkNoAddress

datatype sk_plan = SkFail sk_error | SkDial string | SkRace string string

text \<open>
  \<open>answer\<close> is what the worker sends when it is asked: \<open>Inl\<close> when one of the contexts ended first.
  \<open>i\<close> and \<open>j\<close> are the random indices.
\<close>

definition sk_pick :: "(addr \<Rightarrow> string) \<Rightarrow> string \<Rightarrow> nat \<Rightarrow> addr list \<Rightarrow> string option" where
  "sk_pick addr_String port i ips =
     (if length ips \<noteq> 0 then Some (JoinHostPort (addr_String (ips ! (i mod length ips))) port) else None)"

definition sk_getRemote ::
  "(string \<Rightarrow> bool) \<Rightarrow> (addr \<Rightarrow> string) \<Rightarrow> (nat \<Rightarrow> sk_cache) \<Rightarrow> int \<Rightarrow> (string \<Rightarrow> unit + sk_result option) \<Rightarrow> nat \<Rightarrow> nat
     \<Rightarrow> string \<Rightarrow> 'p socks_options \<times> bool \<Rightarrow> sk_plan" where
  "sk_getRemote is_ip addr_String caches now answer i j remoteAddr out =
     (if \<not> snd out then SkFail SkCloseConn
      else
        let opts = fst out;
            (host, port) = (case SplitHostPort remoteAddr of Some hp \<Rightarrow> hp | None \<Rightarrow> ([], []))
        in if so_Servers opts = [] \<or> is_ip host then SkDial remoteAddr
           else
             (let cached = (case so_dnsCache opts of None \<Rightarrow> None | Some p \<Rightarrow> sk_lookup now host (caches p))
              in case (case cached of Some r \<Rightarrow> Inr (Some r) | None \<Rightarrow> answer host) of
                   Inl _ \<Rightarrow> SkFail SkCancelled
                 | Inr None \<Rightarrow> SkFail SkNoResult
                 | Inr (Some r) \<Rightarrow>
                     (case (sk_pick addr_String port i (sr_IPv4 r), sk_pick addr_String port j (sr_IPv6 r)) of
                        (Some a, Some b) \<Rightarrow> SkRace a b
                      | (Some a, None) \<Rightarrow> SkDial a
                      | (None, Some b) \<Rightarrow> SkDial b
                      | (None, None) \<Rightarrow> SkFail SkNoAddress)))"

text \<open>What an accepted connection does: the handshake, then the options.\<close>

definition socks_serve :: "string option \<Rightarrow> 'p socks_options \<times> bool \<Rightarrow> serve_action" where
  "socks_serve handshake out =
     (case handshake of
        None \<Rightarrow> None
      | Some remoteAddr \<Rightarrow>
          if \<not> snd out then None else Some (remoteAddr, so_Conn (fst out), so_Relay (fst out)))"

section \<open>Query types\<close>

definition known_type :: "string \<Rightarrow> bool" where
  "known_type t \<longleftrightarrow> t = ''A'' \<or> t = ''AAAA''"

text \<open>Without the shared array: the known types, in upper case, where they occur first.\<close>

definition add_type :: "string \<Rightarrow> string list \<Rightarrow> string list" where
  "add_type t r = (if known_type t \<and> t \<notin> set r then r @ [t] else r)"

lemma normalize_loop_eq:
  "k \<le> i \<Longrightarrow> k \<le> length a \<Longrightarrow> normalize_loop a i k = fold add_type (map ToUpper (drop i a)) (take k a)"
proof (induction a i k rule: normalize_loop.induct)
  case (1 a i k)
  show ?case
  proof (cases "i < length a")
    case False
    then show ?thesis by (simp add: normalize_loop.simps [of a i k])
  next
    case True
    define t where "t = ToUpper (a ! i)"
    have d: "drop i a = a ! i # drop (i + 1) a" using True by (simp add: Cons_nth_drop_Suc)
    have upd: "take (k + 1) (a[k := t]) = take k a @ [t]" "drop (i + 1) (a[k := t]) = drop (i + 1) a"
      using "1.prems" True by (simp_all add: take_Suc_conv_app_nth drop_update_cancel)
    have n: "normalize_loop a i k = (if \<not> known_type t then normalize_loop a (i + 1) k
        else if t \<in> set (take k a) then normalize_loop a (i + 1) k
        else normalize_loop (a[k := t]) (i + 1) (k + 1))"
      using True by (simp add: normalize_loop.simps [of a i k] t_def [symmetric] known_type_def Let_def)
    have f: "fold add_type (map ToUpper (drop i a)) (take k a) =
        fold add_type (map ToUpper (drop (i + 1) a)) (add_type t (take k a))"
      by (simp only: d list.map fold_simps t_def)
    consider "\<not> known_type t" | "known_type t" "t \<in> set (take k a)" | (new) "known_type t" "t \<notin> set (take k a)" by blast
    then show ?thesis
    proof cases
      case new
      then have "normalize_loop (a[k := t]) (i + 1) (k + 1) =
          fold add_type (map ToUpper (drop (i + 1) (a[k := t]))) (take (k + 1) (a[k := t]))"
        using "1.IH"(3) [OF True t_def] "1.prems" True by (simp add: known_type_def)
      moreover have "add_type t (take k a) = take k a @ [t]" using new by (simp add: add_type_def)
      ultimately show ?thesis unfolding n f upd using new by simp
    next
      case 1
      then have "add_type t (take k a) = take k a" by (simp add: add_type_def)
      with 1 show ?thesis unfolding n f using "1.IH"(1) [OF True t_def] "1.prems" True
        by (simp add: known_type_def)
    next
      case 2
      then have "add_type t (take k a) = take k a" by (simp add: add_type_def)
      with 2 show ?thesis unfolding n f using "1.IH"(2) [OF True t_def] "1.prems" True
        by (simp add: known_type_def)
    qed
  qed
qed

lemma fold_add_type:
  "distinct (fold add_type ts r) \<longleftrightarrow> distinct r"
  "set (fold add_type ts r) = set r \<union> {t \<in> set ts. known_type t}"
proof -
  show "set (fold add_type ts r) = set r \<union> {t \<in> set ts. known_type t}"
    by (induction ts arbitrary: r) (auto simp: add_type_def)
  show "distinct (fold add_type ts r) \<longleftrightarrow> distinct r"
    by (induction ts arbitrary: r) (auto simp: add_type_def)
qed

text \<open>
  \<open>normalizeQueryTypes\<close>, which overwrites the array that it is reading, computes the types
  \<open>A\<close> and \<open>AAAA\<close> that the list asks for in any case, each of them once, in the order in which they
  come first.
\<close>
theorem normalize_types:
  "normalizeQueryTypes qtypes = fold add_type (map ToUpper qtypes) [] \<and>
   distinct (normalizeQueryTypes qtypes) \<and>
   set (normalizeQueryTypes qtypes) = {t \<in> ToUpper ` set qtypes. t = ''A'' \<or> t = ''AAAA''}"
proof -
  have "normalizeQueryTypes qtypes = fold add_type (map ToUpper qtypes) []"
    by (simp add: normalizeQueryTypes_def normalize_loop_eq)
  then show ?thesis by (auto simp: fold_add_type known_type_def)
qed

lemma normalize_known: "set (normalizeQueryTypes qtypes) \<subseteq> {''A'', ''AAAA''}" "distinct (normalizeQueryTypes qtypes)"
  by (auto simp: normalizeQueryTypes_def normalize_loop_eq fold_add_type known_type_def)

section \<open>The options\<close>

definition socks_good :: "'p socks_options \<Rightarrow> bool" where
  "socks_good opts \<longleftrightarrow>
     (case so_dnsCache opts of None \<Rightarrow> True | Some p \<Rightarrow> p < so_allocs opts) \<and>
     (so_Servers opts \<noteq> [] \<longrightarrow>
        list_all (\<lambda>s. check_server s = Some s) (so_Servers opts) \<and> so_dnsCache opts \<noteq> None \<and>
        so_Query opts \<noteq> [] \<and> distinct (so_Query opts) \<and> set (so_Query opts) \<subseteq> {''A'', ''AAAA''})"

lemma upper_idem: "ToUpper (ToUpper s) = ToUpper s"
proof -
  have "upper_byte (upper_byte c) = upper_byte c" for c
  proof (cases "97 \<le> (of_char c :: nat) \<and> (of_char c :: nat) \<le> 122")
    case True
    then have "upper_byte c = char_of (of_char c - 32 :: nat)" "(of_char c - 32 :: nat) \<le> 90"
      by (auto simp: upper_byte_def Let_def)
    then show ?thesis by (simp add: upper_byte_def)
  next
    case False
    then show ?thesis by (auto simp: upper_byte_def Let_def)
  qed
  then show ?thesis by (simp add: ToUpper_def comp_def)
qed

lemma check_server_idem: "check_server s = Some s' \<Longrightarrow> check_server s' = Some s'"
proof -
  assume a: "check_server s = Some s'"
  define t where "t = s\<lparr>dn_Over := ToUpper (dn_Over s), dn_Method := ToUpper (dn_Method s)\<rparr>"
  have t: "t\<lparr>dn_Over := ToUpper (dn_Over t), dn_Method := ToUpper (dn_Method t)\<rparr> = t"
    by (simp add: t_def upper_idem)
  have "s' = t" using a by (simp add: check_server_def Let_def t_def split: if_splits)
  moreover have "check_server t = check_server s" by (simp only: check_server_def t t_def [symmetric])
  ultimately show ?thesis using a by simp
qed

lemma checkServers_checked:
  "checkServers ss = Some ss' \<Longrightarrow> list_all (\<lambda>s. check_server s = Some s) ss' \<and> length ss' = length ss"
  by (induction ss arbitrary: ss') (auto split: option.splits dest: check_server_idem)

lemma socks_frames:
  "so_dnsCache (socks_add_server o1) = so_dnsCache o1" "so_allocs (socks_add_server o1) = so_allocs o1"
  "so_ListenAddr (socks_add_server o1) = so_ListenAddr o1"
  "so_dnsCache (socks_query_types o1) = so_dnsCache o1" "so_allocs (socks_query_types o1) = so_allocs o1"
  "so_ListenAddr (socks_query_types o1) = so_ListenAddr o1"
  "so_Servers (socks_load_cache old o1) = so_Servers o1" "so_Query (socks_load_cache old o1) = so_Query o1"
  "so_ListenAddr (socks_load_cache old o1) = so_ListenAddr o1"
  by (simp_all add: socks_add_server_def socks_query_types_def socks_load_cache_def Let_def)

lemma socks_query_types_known:
  "so_Query (socks_query_types o1) \<noteq> [] \<and> distinct (so_Query (socks_query_types o1)) \<and>
   set (so_Query (socks_query_types o1)) \<subseteq> {''A'', ''AAAA''}"
  using normalize_known [of "so_Query o1"] by (auto simp: socks_query_types_def Let_def)

lemma socks_load_good:
  assumes "socks_good old" "socks_load old new0 = Some new"
  shows "socks_good new"
proof -
  define n where "n = socks_add_server (new0\<lparr>so_dnsCache := so_dnsCache old, so_allocs := so_allocs old\<rparr>)"
  have c: "so_dnsCache n = so_dnsCache old" "so_allocs n = so_allocs old" by (simp_all add: n_def socks_frames)
  have old: "case so_dnsCache old of None \<Rightarrow> True | Some p \<Rightarrow> p < so_allocs old"
    using assms(1) by (simp add: socks_good_def)
  show ?thesis
  proof (cases "so_Servers n = []")
    case True
    then have "new = n" using assms(2) by (simp add: socks_load_def flip: n_def)
    then show ?thesis using True c old by (cases "so_dnsCache old") (simp_all add: socks_good_def)
  next
    case False
    with assms(2) obtain servers where s: "checkServers (so_Servers n) = Some servers"
      "new = socks_load_cache old ((socks_query_types n)\<lparr>so_Servers := servers\<rparr>)"
      by (auto simp: socks_load_def simp flip: n_def split: option.splits)
    have "so_dnsCache new \<noteq> None \<and> (case so_dnsCache new of None \<Rightarrow> True | Some p \<Rightarrow> p < so_allocs new)"
      using c old by (auto simp: s(2) socks_load_cache_def socks_frames split: option.splits)
    moreover have "so_Servers new = servers" "so_Query new = so_Query (socks_query_types n)"
      by (simp_all add: s(2) socks_frames)
    ultimately show ?thesis
      using checkServers_checked [OF s(1)] socks_query_types_known [of n]
      unfolding socks_good_def by simp
  qed
qed

lemma socks_load_on: "socks_load old new = Some new' \<Longrightarrow> so_ListenAddr new' = so_ListenAddr new"
  by (auto simp: socks_load_def socks_frames Let_def split: option.splits if_splits)

interpretation socks: derived_service so_ListenAddr socks_load "\<lambda>_. True" socks_good
  by unfold_locales (auto intro: socks_load_on socks_load_good)

text \<open>
  C37. Whatever options a \<open>socks\<close> job was given, those it runs with fit together: with DNS servers
  there is a cache, at least one query type, only \<open>A\<close> and \<open>AAAA\<close> and each once, and every server
  has passed the checks and is in normal form.
\<close>
theorem socks_options_fit:
  "socks_good (jb_opts (job_run so_ListenAddr socks_load inputs (job_start (socks_zero p))))"
proof (rule socks.run_good)
  show "socks_good (jb_opts (job_start (socks_zero p)))" by (simp add: socks_good_def job_start_def socks_zero_def)
qed (auto simp: list_all_iff)

section \<open>What the answers leave in the result\<close>

fun rr_A :: "rr \<Rightarrow> addr list" where
  "rr_A x = (case rr_data x of RR_A a \<Rightarrow> if addr_IsValid a then [a] else [] | _ \<Rightarrow> [])"

fun rr_AAAA :: "rr \<Rightarrow> addr list" where
  "rr_AAAA x = (case rr_data x of RR_AAAA a \<Rightarrow> if addr_IsValid a then [a] else [] | _ \<Rightarrow> [])"

definition msg_A :: "dns_msg \<Rightarrow> addr list" where "msg_A m = concat (map rr_A (dns_RRs m))"
definition msg_AAAA :: "dns_msg \<Rightarrow> addr list" where "msg_AAAA m = concat (map rr_AAAA (dns_RRs m))"

lemma sk_data_step:
  "sr_IPv4 (sk_data x r) = sr_IPv4 r @ rr_A x" "sr_IPv6 (sk_data x r) = sr_IPv6 r @ rr_AAAA x"
  "sr_Deadline (sk_data x r) = sr_Deadline r"
  by (auto simp: sk_data_def split: rdata.splits)

lemma sk_data_fold:
  "sr_IPv4 (fold sk_data xs r) = sr_IPv4 r @ concat (map rr_A xs)"
  "sr_IPv6 (fold sk_data xs r) = sr_IPv6 r @ concat (map rr_AAAA xs)"
  "sr_Deadline (fold sk_data xs r) = sr_Deadline r"
  by (induction xs arbitrary: r) (simp_all add: sk_data_step del: rr_A.simps rr_AAAA.simps)

lemma sk_answer_addresses:
  "sr_IPv4 (sk_answer opts now m r) = sr_IPv4 r @ msg_A m"
  "sr_IPv6 (sk_answer opts now m r) = sr_IPv6 r @ msg_AAAA m"
  by (auto simp: sk_answer_def Let_def sk_data_fold msg_A_def msg_AAAA_def split: option.splits)

text \<open>When the records of a message expire, as far as they have a TTL below the largest one.\<close>

definition rr_expiry :: "'p socks_options \<Rightarrow> int \<Rightarrow> rr \<Rightarrow> int list" where
  "rr_expiry opts now x =
     (case rr_Header x of
        None \<Rightarrow> []
      | Some h \<Rightarrow>
          let t = clamp_ttl (so_TTL_Min opts) (so_TTL_Max opts) (rh_TTL h)
          in if t < MaxUint32 then [now + uint t * second] else [])"

definition expiries :: "'p socks_options \<Rightarrow> int \<Rightarrow> dns_msg \<Rightarrow> int list" where
  "expiries opts now m = concat (map (rr_expiry opts now) (dns_RRs m))"

definition earliest :: "int list \<Rightarrow> int option" where
  "earliest xs = (if xs = [] then None else Some (Min (set xs)))"

definition option_list :: "'a option \<Rightarrow> 'a list" where
  "option_list x = (case x of None \<Rightarrow> [] | Some a \<Rightarrow> [a])"

lemma earliest_set: "set xs = set ys \<Longrightarrow> earliest xs = earliest ys"
  by (auto simp: earliest_def)

lemma earliest_Cons: "earliest (x # xs) = Some (case earliest xs of None \<Rightarrow> x | Some y \<Rightarrow> min x y)"
  by (simp add: earliest_def)

lemma earliest_append: "earliest (xs @ option_list (earliest ys)) = earliest (xs @ ys)"
proof (induction xs)
  case Nil
  then show ?case by (simp add: earliest_def option_list_def)
qed (simp add: earliest_Cons)

lemma sk_header_expiry:
  "(if fold (sk_header opts) xs t < MaxUint32 then Some (now + uint (fold (sk_header opts) xs t) * second) else None) =
     earliest (concat (map (rr_expiry opts now) xs) @ (if t < MaxUint32 then [now + uint t * second] else []))"
proof (induction xs arbitrary: t)
  case Nil
  then show ?case by (simp add: earliest_def)
next
  case (Cons x xs)
  let ?tail = "\<lambda>t. if t < MaxUint32 then [now + uint t * second] else []"
  have "earliest (ys @ ?tail (sk_header opts x t)) = earliest (rr_expiry opts now x @ ys @ ?tail t)" for ys
  proof (cases "rr_Header x")
    case None
    then show ?thesis by (simp add: sk_header_def rr_expiry_def)
  next
    case (Some h)
    define c where "c = clamp_ttl (so_TTL_Min opts) (so_TTL_Max opts) (rh_TTL h)"
    define T where "T u = ?tail u" for u
    have e: "sk_header opts x t = (if t > c then c else t)" "rr_expiry opts now x = T c"
      using Some by (simp_all add: sk_header_def rr_expiry_def c_def T_def Let_def)
    have l: "u \<le> v \<Longrightarrow> earliest (T u @ ys) = earliest (T u @ T v @ ys)" for u v
      by (cases "v < MaxUint32")
        (auto simp: T_def earliest_Cons word_le_def word_less_def MaxUint32_def split: option.split)
    have "earliest (ys @ T (if t > c then c else t)) = earliest (T c @ ys @ T t)"
    proof (cases "t > c")
      case True
      have "earliest (ys @ T c) = earliest (T c @ ys)" by (rule earliest_set) auto
      also have "\<dots> = earliest (T c @ T t @ ys)" using True by (intro l) simp
      also have "\<dots> = earliest (T c @ ys @ T t)" by (rule earliest_set) auto
      finally show ?thesis using True by simp
    next
      case False
      have "earliest (ys @ T t) = earliest (T t @ ys)" by (rule earliest_set) auto
      also have "\<dots> = earliest (T t @ T c @ ys)" using False by (intro l) simp
      also have "\<dots> = earliest (T c @ ys @ T t)" by (rule earliest_set) auto
      finally show ?thesis using False by simp
    qed
    then show ?thesis unfolding e T_def .
  qed
  from Cons.IH [of "sk_header opts x t"] this show ?case by (simp split del: if_split cong del: if_weak_cong)
qed

lemma sk_answer_deadline:
  "sr_Deadline (sk_answer opts now m r) = earliest (expiries opts now m @ option_list (sr_Deadline r))"
proof -
  define k where "k = fold (sk_header opts) (dns_RRs m) MaxUint32"
  have e: "(if k < MaxUint32 then Some (now + uint k * second) else None) = earliest (expiries opts now m)"
    unfolding k_def expiries_def
    using sk_header_expiry [of opts "dns_RRs m" MaxUint32 now] by (simp split del: if_split)
  have c: "earliest (expiries opts now m @ option_list (sr_Deadline r)) =
      earliest (option_list (sr_Deadline r) @ option_list (earliest (expiries opts now m)))"
    unfolding earliest_append by (rule earliest_set) auto
  show ?thesis unfolding c e [symmetric]
    by (cases "sr_Deadline r")
      (auto simp: sk_answer_def Let_def sk_data_fold k_def [symmetric] option_list_def earliest_def min_def split: if_splits)
qed

section \<open>The loop over the query types\<close>

text \<open>
  The answers that a run of the loop took: for each, the number of the turn and the message. The
  options and the server at turn \<open>k\<close>: those of the connection that is there at the start, or those
  that were read when the latest connection was made. As a turn without an answer closes the connection, that
  was at the first turn after the last one without an answer.
\<close>

type_synonym sk_reply = "nat \<times> dns_msg"

definition fresh_server :: "'p sk_input \<Rightarrow> 'p socks_options \<times> DNServer" where
  "fresh_server i =
     (let opts = fst (si_opts i) in (opts, so_Servers opts ! (si_server i mod length (so_Servers opts))))"

definition kept_server :: "'p sk_query \<Rightarrow> 'p sk_input \<Rightarrow> 'p socks_options \<times> DNServer" where
  "kept_server q i =
     (if wk_conn (sq_worker q) \<noteq> None then (sq_opts q, wk_server (sq_worker q)) else fresh_server i)"

fun in_force :: "'p sk_query \<Rightarrow> 'p sk_input list \<Rightarrow> nat set \<Rightarrow> nat \<Rightarrow> 'p socks_options \<times> DNServer" where
  "in_force q is A 0 = kept_server q (is ! 0)"
| "in_force q is A (Suc k) = (if k \<in> A then in_force q is A k else fresh_server (is ! Suc k))"

text \<open>The message is the answer of that server, at that turn, to the question for a type.\<close>

definition answered_by ::
  "(string \<Rightarrow> string) \<Rightarrow> string \<Rightarrow> 'p sk_query \<Rightarrow> 'p sk_input list \<Rightarrow> nat set \<Rightarrow> string \<Rightarrow> sk_reply \<Rightarrow> bool" where
  "answered_by Fqdn domain q is A qtype = (\<lambda>(k, m).
     k < length is \<and>
     (\<exists>c. snd (sk_ask (si_net (is ! k) (sk_question Fqdn domain qtype)) (snd (in_force q is A k)) c) = Some m))"

definition reply_expiries :: "'p sk_query \<Rightarrow> 'p sk_input list \<Rightarrow> nat set \<Rightarrow> sk_reply \<Rightarrow> int list" where
  "reply_expiries q is A = (\<lambda>(k, m). expiries (fst (in_force q is A k)) (si_now (is ! k)) m)"

lemma in_force_Cons:
  assumes "if 0 \<in> A then wk_conn (sq_worker q1) \<noteq> None \<and> (sq_opts q1, wk_server (sq_worker q1)) = in_force q (i # is) A 0
      else wk_conn (sq_worker q1) = None"
    and "\<And>k. Suc k \<in> A \<longleftrightarrow> k \<in> A'"
  shows "in_force q (i # is) A (Suc k) = in_force q1 is A' k"
  using assms by (induction k) (auto simp: kept_server_def split: if_splits)

lemma sk_ready_turn:
  assumes "sk_ready i q = (SkTurn, q1)"
  shows "wk_conn (sq_worker q1) \<noteq> None \<and> (sq_opts q1, wk_server (sq_worker q1)) = kept_server q i \<and>
    sq_result q1 = sq_result q \<and> sq_qtypes q1 = sq_qtypes q"
  using assms
  by (auto simp: sk_ready_def sk_connect_def kept_server_def fresh_server_def Let_def split: if_splits option.splits prod.splits)

lemma sk_one_turn_cases:
  fixes q :: "'p sk_query"
  assumes "sk_one_turn Fqdn domain i q = (SkTurn, q')"
  obtains (failed) "wk_conn (sq_worker q') = None" "sq_result q' = sq_result q" "sq_qtypes q' = sq_qtypes q"
  | (answer) m c where "wk_conn (sq_worker q') \<noteq> None" "(sq_opts q', wk_server (sq_worker q')) = kept_server q i"
      "snd (sk_ask (si_net i (sk_question Fqdn domain (hd (sq_qtypes q)))) (snd (kept_server q i)) c) = Some m"
      "sq_result q' = sk_answer (fst (kept_server q i)) (si_now i) m (sq_result q)" "sq_qtypes q' = tl (sq_qtypes q)"
proof -
  obtain r q1 where r: "sk_ready i q = (r, q1)" by fastforce
  with assms have "r = SkTurn"
    by (auto simp: sk_one_turn_def split: if_splits sk_turn.splits)
  note t = sk_ready_turn [OF r [unfolded this]]
  then obtain c where c: "wk_conn (sq_worker q1) = Some c" by blast
  from t have k: "fst (kept_server q i) = sq_opts q1" "snd (kept_server q i) = wk_server (sq_worker q1)"
    by (metis fst_conv, metis snd_conv)
  show thesis
  proof (cases "snd (sk_ask (si_net i (sk_question Fqdn domain (hd (sq_qtypes q)))) (wk_server (sq_worker q1)) c)")
    case None
    then have "q' = q1\<lparr>sq_worker := sk_closeConnection (sq_worker q1)\<rparr>"
      using assms t c r \<open>r = SkTurn\<close> by (auto simp: sk_one_turn_def split: if_splits)
    with t show thesis by (intro failed) (simp_all add: sk_closeConnection_def)
  next
    case (Some m)
    then have "q' = q1\<lparr>sq_result := sk_answer (sq_opts q1) (si_now i) m (sq_result q1), sq_qtypes := tl (sq_qtypes q1)\<rparr>"
      using assms t c r \<open>r = SkTurn\<close> by (auto simp: sk_one_turn_def split: if_splits)
    with t k Some show thesis by (intro answer [of c m]) auto
  qed
qed

lemma sk_loop_replies:
  fixes q :: "'p sk_query"
  assumes "sk_loop Fqdn domain is q = Some (SkDone, q')" "list_all (\<lambda>i. \<not> si_query_err i) is"
  shows "\<exists>as. sorted_wrt (<) (map fst as) \<and>
    list_all2 (answered_by Fqdn domain q is (fst ` set as)) (sq_qtypes q) as \<and>
    sr_IPv4 (sq_result q') = sr_IPv4 (sq_result q) @ concat (map (msg_A \<circ> snd) as) \<and>
    sr_IPv6 (sq_result q') = sr_IPv6 (sq_result q) @ concat (map (msg_AAAA \<circ> snd) as) \<and>
    sr_Deadline (sq_result q') =
      earliest (concat (map (reply_expiries q is (fst ` set as)) as) @ option_list (sr_Deadline (sq_result q)))"
  using assms
proof (induction "is" arbitrary: q)
  case Nil
  then have "sq_qtypes q = []" "q' = q" by (auto simp: sk_loop.simps split: if_splits)
  then show ?case
    by (intro exI [of _ "[]"]) (simp add: earliest_def option_list_def split: option.split)
next
  case (Cons i "is")
  show ?case
  proof (cases "sq_qtypes q = []")
    case True
    then have "q' = q" using Cons.prems by (simp add: sk_loop.simps)
    then show ?thesis using True
      by (intro exI [of _ "[]"]) (simp add: earliest_def option_list_def split: option.split)
  next
    case False
    obtain r q1 where r: "sk_one_turn Fqdn domain i q = (r, q1)" by fastforce
    have nb: "r \<noteq> SkBreak" using r Cons.prems(2)
      by (auto simp: sk_one_turn_def sk_ready_def split: if_splits option.splits sk_turn.splits prod.splits)
    then have t: "r = SkTurn" and l: "sk_loop Fqdn domain is q1 = Some (SkDone, q')"
      using Cons.prems(1) r False by (cases r; simp add: sk_loop.simps [of _ _ "i # is"])+
    have "list_all (\<lambda>i. \<not> si_query_err i) is" using Cons.prems(2) by simp
    from Cons.IH [OF l this] obtain as where as: "sorted_wrt (<) (map fst as)"
      "list_all2 (answered_by Fqdn domain q1 is (fst ` set as)) (sq_qtypes q1) as"
      "sr_IPv4 (sq_result q') = sr_IPv4 (sq_result q1) @ concat (map (msg_A \<circ> snd) as)"
      "sr_IPv6 (sq_result q') = sr_IPv6 (sq_result q1) @ concat (map (msg_AAAA \<circ> snd) as)"
      "sr_Deadline (sq_result q') =
        earliest (concat (map (reply_expiries q1 is (fst ` set as)) as) @ option_list (sr_Deadline (sq_result q1)))"
      by blast
    define as' where "as' = map (apfst Suc) as"
    have fst': "fst ` set as' = Suc ` fst ` set as" by (force simp: as'_def image_iff)
    have sorted': "sorted_wrt (<) (map fst as')"
      using as(1) by (simp add: as'_def sorted_wrt_map comp_def apfst_def)
    have snd': "map (\<lambda>a. f (snd a)) as' = map (\<lambda>a. f (snd a)) as" for f :: "dns_msg \<Rightarrow> addr list"
      by (simp add: as'_def comp_def)
    have later: "answered_by Fqdn domain q (i # is) A t (apfst Suc a) = answered_by Fqdn domain q1 is (fst ` set as) t a"
      "reply_expiries q (i # is) A (apfst Suc a) = reply_expiries q1 is (fst ` set as) a"
      if "\<And>k. in_force q (i # is) A (Suc k) = in_force q1 is (fst ` set as) k" for A t a
      using that by (auto simp: answered_by_def reply_expiries_def split: prod.split)
    have as2': "list_all2 (answered_by Fqdn domain q (i # is) A) (sq_qtypes q1) as'"
      "map (reply_expiries q (i # is) A) as' = map (reply_expiries q1 is (fst ` set as)) as"
      if "\<And>k. in_force q (i # is) A (Suc k) = in_force q1 is (fst ` set as) k" for A
      using as(2) later [OF that] by (simp_all add: as'_def list_all2_map2 comp_def)
    from r [unfolded t] show ?thesis
    proof (cases rule: sk_one_turn_cases)
      case failed
      have "in_force q (i # is) (fst ` set as') (Suc k) = in_force q1 is (fst ` set as) k" for k
        by (rule in_force_Cons) (use failed(1) in \<open>auto simp: fst'\<close>)
      from as2' [OF this] show ?thesis
        using as sorted' failed snd' by (intro exI [of _ as']) (simp add: comp_def)
    next
      case (answer m c)
      let ?as = "(0, m) # as'"
      have f0: "in_force q (i # is) A 0 = kept_server q i" for A by simp
      have "in_force q (i # is) (fst ` set ?as) (Suc k) = in_force q1 is (fst ` set as) k" for k
        by (rule in_force_Cons) (use answer(1,2) in \<open>auto simp: fst'\<close>)
      note rest = as2' [OF this]
      obtain ty tys where ts: "sq_qtypes q = ty # tys" using False by (cases "sq_qtypes q") auto
      have "answered_by Fqdn domain q (i # is) (fst ` set ?as) ty (0, m)"
        using answer(3) ts by (auto simp: answered_by_def)
      moreover have "sorted_wrt (<) (map fst ?as)" using sorted' by (auto simp: as'_def)
      moreover have "sr_Deadline (sq_result q') =
          earliest (concat (map (reply_expiries q (i # is) (fst ` set ?as)) ?as) @ option_list (sr_Deadline (sq_result q)))"
      proof -
        have "reply_expiries q (i # is) (fst ` set ?as) (0, m) = expiries (fst (kept_server q i)) (si_now i) m"
          by (simp add: reply_expiries_def)
        then have e: "concat (map (reply_expiries q (i # is) (fst ` set ?as)) ?as) =
            expiries (fst (kept_server q i)) (si_now i) m @ concat (map (reply_expiries q1 is (fst ` set as)) as)"
          using rest(2) by simp
        show ?thesis unfolding as(5) answer(4) sk_answer_deadline earliest_append e
          by (rule earliest_set) auto
      qed
      ultimately show ?thesis
        using as answer(4,5) ts rest(1) snd' by (intro exI [of _ ?as]) (simp add: sk_answer_addresses comp_def)
    qed
  qed
qed

text \<open>
  C7. A resolution that was not cancelled ends with an answer to each query type, in order, taken
  at rising turns of the loop, whatever failed in between: each is what the server in force at its turn
  answered to that question. The IPv4 and IPv6 addresses of the result are the valid ones of the
  \<open>A\<close> and \<open>AAAA\<close> records in these answers, and its deadline is exactly the time at which the first of
  their records expires: the time the answer came plus its TTL, within the limits of the options in
  force at that turn. Without a record that expires, there is no deadline.
\<close>
theorem resolution_complete:
  fixes q :: "'p sk_query"
  assumes "sk_loop Fqdn domain is q = Some (SkDone, q')" "list_all (\<lambda>i. \<not> si_query_err i) is"
  shows "\<exists>as. sorted_wrt (<) (map fst as) \<and>
    list_all2 (answered_by Fqdn domain q is (fst ` set as)) (sq_qtypes q) as \<and>
    sr_IPv4 (sq_result q') = sr_IPv4 (sq_result q) @ concat (map (msg_A \<circ> snd) as) \<and>
    sr_IPv6 (sq_result q') = sr_IPv6 (sq_result q) @ concat (map (msg_AAAA \<circ> snd) as) \<and>
    sr_Deadline (sq_result q') =
      earliest (concat (map (reply_expiries q is (fst ` set as)) as) @ option_list (sr_Deadline (sq_result q)))"
  using assms by (rule sk_loop_replies)

section \<open>A resolution\<close>

definition sk_rr :: "rdata \<Rightarrow> rr" where
  "sk_rr d = \<lparr>rr_Header = Some \<lparr>rh_Name = ''go.dev.'', rh_TTL = 60\<rparr>, rr_data = d\<rparr>"

definition sk_msg :: "rdata \<Rightarrow> dns_msg" where
  "sk_msg d = \<lparr>dm_ID = 0, dm_Question = [], dm_Answer = [sk_rr d], dm_rest = []\<rparr>"

definition sk_network :: "(string \<times> 16 word) list \<Rightarrow> dns_net" where
  "sk_network qs = \<lparr>nt_NewRequest = True, nt_RoundTrip = True, nt_Response = True, nt_Pack = True, nt_Write = True,
     nt_Read = True, nt_Unpack = Some (if qs = [(''go.dev.'', 1)] then sk_msg (RR_A (Addr4 7))
       else sk_msg (RR_AAAA (Addr6 9 [])))\<rparr>"

definition sk_example_server :: DNServer where
  "sk_example_server = \<lparr>dn_Name = ''dns'', dn_IP = [], dn_Over = [], dn_Port = 0, dn_Path = [], dn_Method = []\<rparr>"

definition sk_example_opts :: "unit socks_options" where
  "sk_example_opts = (socks_zero ())\<lparr>so_ListenAddr := ''a:1'', so_Servers := [sk_example_server],
     so_Query := [''A'', ''AAAA''], so_dnsCache := Some 0, so_allocs := 1\<rparr>"

definition sk_example_input :: "bool \<Rightarrow> unit sk_input" where
  "sk_example_input cancelled = \<lparr>si_ctx_err = False, si_query_err = cancelled, si_opts = (sk_example_opts, True),
     si_server = 0, si_ip = 0, si_net = sk_network, si_now = 0\<rparr>"

abbreviation "add_dot \<equiv> \<lambda>d :: string. d @ ''.''"

definition sk_example_query :: "unit sk_query" where
  "sk_example_query = \<lparr>sq_opts = sk_example_opts, sq_worker = sk_worker_start, sq_qtypes = [''A'', ''AAAA''],
     sq_result = sk_no_result\<rparr>"

definition sk_connected :: sk_worker where
  "sk_connected = \<lparr>wk_server = sk_example_server,
     wk_conn = Some \<lparr>dc_hostport = ''dns:53'', dc_tls = None, dc_ReadTimeout = defaultReadTimeout,
       dc_WriteTimeout = defaultWriteTimeout\<rparr>,
     wk_idle = defaultIdleTimeout, wk_tls = \<lparr>tl_config = None, tl_key = ([], []), tl_cache = []\<rparr>\<rparr>"

lemma dns_port_text: "Itoa 53 = ''53''"
proof -
  have "digit 5 = CHR ''5''" "digit 3 = CHR ''3''"
    by (rule of_char_eqI [where 'a = nat], simp add: of_char_digit)+
  then show ?thesis by (simp add: Itoa.simps)
qed

lemma sk_example_connect: "sk_connect sk_example_opts 0 0 sk_worker_start = Some sk_connected"
  by (simp add: sk_connect_def sk_example_opts_def socks_zero_def sk_example_server_def sk_worker_start_def
      sk_connected_def pos_or_def sk_port_def dns_port_def defaultPort_def JoinHostPort_def dns_port_text)

lemma sk_example_ask: "snd (sk_ask (sk_network qs) sk_example_server c) = nt_Unpack (sk_network qs)"
  by (simp add: sk_ask_def dns_ask_def sk_example_server_def sk_network_def Let_def)

lemma sk_example_answer:
  "sk_answer sk_example_opts 0 (sk_msg (RR_A (Addr4 7))) sk_no_result =
     \<lparr>sr_IPv4 = [Addr4 7], sr_IPv6 = [], sr_Deadline = Some (60 * second)\<rparr>"
  "sk_answer sk_example_opts 0 (sk_msg (RR_AAAA (Addr6 9 [])))
      \<lparr>sr_IPv4 = [Addr4 7], sr_IPv6 = [], sr_Deadline = Some (60 * second)\<rparr> =
     \<lparr>sr_IPv4 = [Addr4 7], sr_IPv6 = [Addr6 9 []], sr_Deadline = Some (60 * second)\<rparr>"
  by (simp_all add: sk_answer_def sk_no_result_def dns_RRs_def sk_msg_def sk_rr_def sk_header_def sk_data_def
      clamp_ttl_def sk_example_opts_def socks_zero_def MaxUint32_def addr_IsValid_def)

lemma sk_example_turn:
  assumes "wk_conn (sq_worker q) = None \<and> sq_worker q = sk_worker_start \<or> sq_worker q = sk_connected"
    and "sq_opts q = sk_example_opts" "sq_qtypes q = t # ts"
    and "nt_Unpack (sk_network (sk_question add_dot ''go.dev'' t)) = Some m"
  shows "sk_one_turn add_dot ''go.dev'' (sk_example_input False) q =
    (SkTurn, q\<lparr>sq_worker := sk_connected, sq_result := sk_answer sk_example_opts 0 m (sq_result q), sq_qtypes := ts\<rparr>)"
proof -
  define q1 where "q1 = q\<lparr>sq_opts := sk_example_opts, sq_worker := sk_connected\<rparr>"
  have r: "sk_ready (sk_example_input False) q = (SkTurn, q1)"
    unfolding q1_def using assms(1,2) sk_example_connect
    by (cases q) (auto simp: sk_ready_def sk_example_input_def sk_connected_def)
  have w: "wk_conn sk_connected \<noteq> None" "wk_server sk_connected = sk_example_server" by (simp_all add: sk_connected_def)
  then obtain c where c: "wk_conn sk_connected = Some c" by blast
  have f: "\<not> si_ctx_err (sk_example_input False)" "\<not> si_query_err (sk_example_input False)"
    "si_net (sk_example_input False) = sk_network" "si_now (sk_example_input False) = 0"
    by (simp_all add: sk_example_input_def)
  have q1: "sq_worker q1 = sk_connected" "sq_opts q1 = sk_example_opts" "sq_qtypes q1 = t # ts" "sq_result q1 = sq_result q"
    using assms(3) by (simp_all add: q1_def)
  have "snd (sk_ask (sk_network (sk_question add_dot ''go.dev'' t)) sk_example_server c) = Some m"
    using assms(4) sk_example_ask by simp
  then have "sk_one_turn add_dot ''go.dev'' (sk_example_input False) q =
      (SkTurn, q1\<lparr>sq_result := sk_answer sk_example_opts 0 m (sq_result q), sq_qtypes := ts\<rparr>)"
    unfolding sk_one_turn_def r by (simp add: f q1 c w)
  then show ?thesis using assms(2) by (cases q) (simp add: q1_def)
qed

lemma sk_example_run:
  "sk_loop add_dot ''go.dev'' [sk_example_input False, sk_example_input False] sk_example_query =
     Some (SkDone, sk_example_query\<lparr>sq_worker := sk_connected, sq_qtypes := [],
       sq_result := \<lparr>sr_IPv4 = [Addr4 7], sr_IPv6 = [Addr6 9 []], sr_Deadline = Some (60 * second)\<rparr>\<rparr>)"
  "sk_loop add_dot ''go.dev'' [sk_example_input False, sk_example_input True] sk_example_query =
     Some (SkDone, sk_example_query\<lparr>sq_worker := sk_connected, sq_qtypes := [''AAAA''],
       sq_result := \<lparr>sr_IPv4 = [Addr4 7], sr_IPv6 = [], sr_Deadline = Some (60 * second)\<rparr>\<rparr>)"
proof -
  let ?q1 = "sk_example_query\<lparr>sq_worker := sk_connected, sq_qtypes := [''AAAA''],
       sq_result := \<lparr>sr_IPv4 = [Addr4 7], sr_IPv6 = [], sr_Deadline = Some (60 * second)\<rparr>\<rparr>"
  have 1: "sk_one_turn add_dot ''go.dev'' (sk_example_input False) sk_example_query = (SkTurn, ?q1)"
    by (subst sk_example_turn [where t = "''A''" and ts = "[''AAAA'']" and m = "sk_msg (RR_A (Addr4 7))"])
      (simp_all add: sk_example_query_def sk_worker_start_def sk_network_def sk_question_def sk_example_answer [simplified])
  have 2: "sk_one_turn add_dot ''go.dev'' (sk_example_input False) ?q1 = (SkTurn, ?q1\<lparr>sq_qtypes := [],
      sq_result := \<lparr>sr_IPv4 = [Addr4 7], sr_IPv6 = [Addr6 9 []], sr_Deadline = Some (60 * second)\<rparr>\<rparr>)"
    by (subst sk_example_turn [where t = "''AAAA''" and ts = "[]" and m = "sk_msg (RR_AAAA (Addr6 9 []))"])
      (simp_all add: sk_example_query_def sk_network_def sk_question_def sk_example_answer [simplified])
  have 3: "sk_one_turn add_dot ''go.dev'' (sk_example_input True) ?q1 = (SkBreak, ?q1)"
    by (simp add: sk_one_turn_def sk_example_input_def)
  have q: "sq_qtypes sk_example_query \<noteq> []" by (simp add: sk_example_query_def)
  show "sk_loop add_dot ''go.dev'' [sk_example_input False, sk_example_input False] sk_example_query =
     Some (SkDone, sk_example_query\<lparr>sq_worker := sk_connected, sq_qtypes := [],
       sq_result := \<lparr>sr_IPv4 = [Addr4 7], sr_IPv6 = [Addr6 9 []], sr_Deadline = Some (60 * second)\<rparr>\<rparr>)"
    using q 1 2 by (simp add: sk_loop.simps)
  show "sk_loop add_dot ''go.dev'' [sk_example_input False, sk_example_input True] sk_example_query =
     Some (SkDone, ?q1)"
    using q 1 3 by (simp add: sk_loop.simps)
qed

theorem resolution_complete_witness:
  "\<exists>as. map fst as \<in> lists {0, 1} \<and> length as = 2 \<and> concat (map (msg_A \<circ> snd) as) = [Addr4 7] \<and>
     concat (map (msg_AAAA \<circ> snd) as) = [Addr6 9 []] \<and>
     earliest (concat (map (reply_expiries sk_example_query [sk_example_input False, sk_example_input False] (fst ` set as)) as)) =
       Some (60 * second)"
proof -
  have "list_all (\<lambda>i. \<not> si_query_err i) [sk_example_input False, sk_example_input False]"
    by (simp add: sk_example_input_def)
  from resolution_complete [OF sk_example_run(1) this] obtain as where
    as: "list_all2 (answered_by add_dot ''go.dev'' sk_example_query [sk_example_input False, sk_example_input False] (fst ` set as)) [''A'', ''AAAA''] as"
      "concat (map (msg_A \<circ> snd) as) = [Addr4 7]" "concat (map (msg_AAAA \<circ> snd) as) = [Addr6 9 []]"
      "earliest (concat (map (reply_expiries sk_example_query [sk_example_input False, sk_example_input False] (fst ` set as)) as)) =
         Some (60 * second)"
    by (auto simp: sk_example_query_def sk_no_result_def option_list_def)
  moreover have "length as = 2" using list_all2_lengthD [OF as(1)] by simp
  moreover have "map fst as \<in> lists {0, 1}"
    using as(1) by (auto simp: list_all2_Cons1 answered_by_def less_Suc_eq)
  ultimately show ?thesis by blast
qed

section \<open>What goes wrong\<close>

text \<open>
  A query whose client has gone away after the first answer: the loop ends early, and the half
  result goes into the cache as the answer for the name, for everybody, until it expires.
\<close>

lemma half_result_cached:
  "\<exists>w. sk_serve_query add_dot ''go.dev'' sk_example_opts 0 [sk_example_input False, sk_example_input True] (\<lambda>_. []) sk_worker_start =
     Some ((SkDone, Some \<lparr>sr_IPv4 = [Addr4 7], sr_IPv6 = [], sr_Deadline = Some (60 * second)\<rparr>),
       (\<lambda>_. [])(0 := [(''go.dev'', \<lparr>sr_IPv4 = [Addr4 7], sr_IPv6 = [], sr_Deadline = Some (60 * second)\<rparr>)]), w)"
proof -
  have "\<lparr>sq_opts = sk_example_opts, sq_worker = sk_worker_start, sq_qtypes = so_Query sk_example_opts,
      sq_result = sk_no_result\<rparr> = sk_example_query"
    by (simp add: sk_example_query_def sk_example_opts_def)
  moreover have "so_dnsCache sk_example_opts = Some 0" "sq_opts sk_example_query = sk_example_opts"
    by (simp_all add: sk_example_opts_def sk_example_query_def)
  ultimately show ?thesis
    using sk_example_run(2) by (simp add: sk_serve_query_def sk_lookup_def sk_store_def Let_def)
qed

text \<open>
  The DNS servers are gone when the worker needs a new connection, as the options are read anew:
  \<open>rand.IntN(0)\<close> panics.
\<close>

lemma reload_panic:
  "\<exists>q. sk_loop add_dot ''go.dev'' [(sk_example_input False)\<lparr>si_opts := (sk_example_opts\<lparr>so_Servers := []\<rparr>, True)\<rparr>]
      sk_example_query = Some (SkPanicked, q)"
  by (simp add: sk_loop.simps sk_one_turn_def sk_ready_def sk_connect_def sk_example_input_def sk_example_query_def
      sk_worker_start_def)

text \<open>
  The connection outlives a reload: the next query goes to the server of the old options, and its
  answer into the cache of the new ones.
\<close>

lemma old_server_asked:
  assumes "wk_conn (sq_worker q) = Some c" "\<not> si_ctx_err i" "\<not> si_query_err i"
    and "snd (sk_ask (si_net i (sk_question Fqdn domain (hd (sq_qtypes q)))) (wk_server (sq_worker q)) c) = Some m"
  shows "sk_one_turn Fqdn domain i q =
    (SkTurn, q\<lparr>sq_result := sk_answer (sq_opts q) (si_now i) m (sq_result q), sq_qtypes := tl (sq_qtypes q)\<rparr>)"
  using assms by (simp add: sk_one_turn_def sk_ready_def)

section \<open>The cache and the dial\<close>

definition has_address :: "sk_result \<Rightarrow> bool" where
  "has_address r \<longleftrightarrow> sr_IPv4 r \<noteq> [] \<or> sr_IPv6 r \<noteq> []"

definition sk_caches_good :: "(nat \<Rightarrow> sk_cache) \<Rightarrow> bool" where
  "sk_caches_good caches \<longleftrightarrow>
     (\<forall>p d r. map_of (caches p) d = Some r \<longrightarrow> has_address r \<and> sr_Deadline r \<noteq> None)"

lemma sk_lookup_good: "sk_caches_good caches \<Longrightarrow> sk_lookup now d (caches p) = Some r \<Longrightarrow> has_address r"
  by (auto simp: sk_lookup_def sk_caches_good_def split: option.splits if_splits)

lemma sk_store_good: "sk_caches_good caches \<Longrightarrow> has_address r \<Longrightarrow> sk_caches_good (sk_store opts d r caches)"
  by (auto simp: sk_store_def sk_caches_good_def update_conv split: option.splits if_splits)

lemma sk_one_turn_opts:
  "sk_one_turn Fqdn domain i q = (r, q') \<Longrightarrow> sq_opts q' \<in> {sq_opts q, fst (si_opts i)}"
  by (auto simp: sk_one_turn_def sk_ready_def split: if_splits option.splits sk_turn.splits prod.splits)

lemma sk_loop_opts:
  "sk_loop Fqdn domain is q = Some (e, q') \<Longrightarrow> sq_opts q' \<in> insert (sq_opts q) (fst ` si_opts ` set is)"
proof (induction "is" arbitrary: q)
  case (Cons i "is")
  obtain r q1 where r: "sk_one_turn Fqdn domain i q = (r, q1)" by fastforce
  show ?case
  proof (cases "sq_qtypes q = [] \<or> r \<noteq> SkTurn")
    case True
    then have "q' = q \<or> q' = q1"
      using Cons.prems r by (cases r) (auto simp: sk_loop.simps [of _ _ "i # is"] split: if_splits)
    then show ?thesis using sk_one_turn_opts [OF r] by auto
  next
    case False
    then have "sk_loop Fqdn domain is q1 = Some (e, q')"
      using Cons.prems r by (simp add: sk_loop.simps [of _ _ "i # is"])
    from Cons.IH [OF this] sk_one_turn_opts [OF r] show ?thesis by auto
  qed
qed (auto simp: sk_loop.simps split: if_splits)

lemma sk_store_one:
  "sk_store o1 d r caches = caches \<or>
    (\<exists>p. so_dnsCache o1 = Some p \<and> sr_Deadline r \<noteq> None \<and> sk_store o1 d r caches = caches(p := AList.update d r (caches p)))"
  by (auto simp: sk_store_def split: option.split)

text \<open>
  C33. The worker keeps the caches sound: whatever happens while it serves a query (failures, new
  options, an end of the query's context), every entry in every cache has an address and a
  deadline. At most one cache changes, that of options which it read for this query, and in it only the
  entry of the name that was asked for, which becomes the result. A result that it sends has an address.
\<close>
theorem worker_keeps_caches:
  assumes "sk_caches_good caches"
    and "sk_serve_query Fqdn domain opts now inputs caches w = Some ((e, res), caches', w')"
  shows "sk_caches_good caches' \<and> (\<forall>r. res = Some r \<longrightarrow> has_address r) \<and>
    (\<forall>p d. d \<noteq> domain \<longrightarrow> map_of (caches' p) d = map_of (caches p) d) \<and>
    (caches' = caches \<or>
      (\<exists>o1\<in>insert opts (fst ` si_opts ` set inputs). \<exists>p0. so_dnsCache o1 = Some p0 \<and>
         (\<forall>p. p \<noteq> p0 \<longrightarrow> caches' p = caches p) \<and> map_of (caches' p0) domain = res))"
proof (cases "case so_dnsCache opts of None \<Rightarrow> None | Some p \<Rightarrow> sk_lookup now domain (caches p)")
  case (Some r)
  then have "has_address r" using assms(1) sk_lookup_good by (auto split: option.splits)
  moreover have "res = Some r" "caches' = caches" using assms(2) Some by (simp_all add: sk_serve_query_def)
  ultimately show ?thesis using assms(1) by simp
next
  case None
  let ?q0 = "\<lparr>sq_opts = opts, sq_worker = w, sq_qtypes = so_Query opts, sq_result = sk_no_result\<rparr>"
  obtain e1 q where l: "sk_loop Fqdn domain inputs ?q0 = Some (e1, q)"
    using assms(2) None by (auto simp: sk_serve_query_def split: option.splits)
  from sk_loop_opts [OF l] have o: "sq_opts q \<in> insert opts (fst ` si_opts ` set inputs)" by simp
  show ?thesis
  proof (cases "e1 = SkDone \<and> has_address (sq_result q)")
    case True
    then have res: "res = Some (sq_result q)" "caches' = sk_store (sq_opts q) domain (sq_result q) caches"
      using assms(2) None l by (auto simp: sk_serve_query_def has_address_def Let_def split: if_splits)
    have "sk_caches_good caches'" unfolding res(2) using assms(1) True by (intro sk_store_good) simp_all
    moreover have "map_of (caches' p) d = map_of (caches p) d" if "d \<noteq> domain" for p d
      using that by (auto simp: res(2) sk_store_def update_conv split: option.split)
    moreover have "caches' = caches \<or> (\<exists>p0. so_dnsCache (sq_opts q) = Some p0 \<and>
        (\<forall>p. p \<noteq> p0 \<longrightarrow> caches' p = caches p) \<and> map_of (caches' p0) domain = res)"
      using sk_store_one [of "sq_opts q" domain "sq_result q" caches] unfolding res by (auto simp: update_conv)
    ultimately show ?thesis using True res(1) o by blast
  next
    case False
    then have "res = None" "caches' = caches"
      using assms(2) None l by (cases e1; auto simp: sk_serve_query_def has_address_def Let_def split: if_splits)+
    then show ?thesis using assms(1) by simp
  qed
qed

theorem worker_keeps_caches_witness:
  "\<exists>caches' w. sk_serve_query add_dot ''go.dev'' sk_example_opts 0 [sk_example_input False, sk_example_input True]
      (\<lambda>_. []) sk_worker_start = Some ((SkDone, Some \<lparr>sr_IPv4 = [Addr4 7], sr_IPv6 = [], sr_Deadline = Some (60 * second)\<rparr>), caches', w)
    \<and> sk_caches_good caches'"
proof -
  have g: "sk_caches_good (\<lambda>_. [])" by (simp add: sk_caches_good_def)
  obtain w where w: "sk_serve_query add_dot ''go.dev'' sk_example_opts 0 [sk_example_input False, sk_example_input True] (\<lambda>_. []) sk_worker_start =
     Some ((SkDone, Some \<lparr>sr_IPv4 = [Addr4 7], sr_IPv6 = [], sr_Deadline = Some (60 * second)\<rparr>),
       (\<lambda>_. [])(0 := [(''go.dev'', \<lparr>sr_IPv4 = [Addr4 7], sr_IPv6 = [], sr_Deadline = Some (60 * second)\<rparr>)]), w)"
    using half_result_cached by blast
  from worker_keeps_caches [OF g w] w show ?thesis by blast
qed

definition sk_target :: "(addr \<Rightarrow> string) \<Rightarrow> string \<Rightarrow> addr list \<Rightarrow> string \<Rightarrow> bool" where
  "sk_target addr_String port ips t \<longleftrightarrow> (\<exists>a\<in>set ips. t = JoinHostPort (addr_String a) port)"

lemma sk_pick_target:
  "sk_pick addr_String port i ips = Some t \<Longrightarrow> sk_target addr_String port ips t"
  "sk_pick addr_String port i ips = None \<longleftrightarrow> ips = []"
  "sk_pick addr_String port i [] = None"
  by (auto simp: sk_pick_def sk_target_def split: if_splits)

text \<open>
  Where a client is connected to: to the address it asked for, if that is an IP address or
  there are no DNS servers; otherwise to addresses that a live cache entry or the worker gave for
  the name, one of each family if there are both, with the port that it asked for. That there is
  no address is never the reason for a failure.
\<close>
theorem socks_dial_plan:
  assumes "sk_caches_good caches" "\<And>h r. answer h = Inr (Some r) \<Longrightarrow> has_address r"
    and "SplitHostPort remoteAddr = Some (host, port)" "so_Servers opts \<noteq> []" "\<not> is_ip host"
  shows "case sk_getRemote is_ip addr_String caches now answer i j remoteAddr (opts, True) of
      SkFail e \<Rightarrow> e = SkCancelled \<and> (\<exists>u. answer host = Inl u) \<or> e = SkNoResult \<and> answer host = Inr None
    | SkDial t \<Rightarrow> (\<exists>r. (sk_target addr_String port (sr_IPv4 r) t \<and> sr_IPv6 r = [] \<or>
          sk_target addr_String port (sr_IPv6 r) t \<and> sr_IPv4 r = []) \<and>
        (answer host = Inr (Some r) \<or> (\<exists>p. sk_lookup now host (caches p) = Some r)))
    | SkRace t u \<Rightarrow> (\<exists>r. sk_target addr_String port (sr_IPv4 r) t \<and> sk_target addr_String port (sr_IPv6 r) u \<and>
        (answer host = Inr (Some r) \<or> (\<exists>p. sk_lookup now host (caches p) = Some r)))"
proof -
  define cached where "cached = (case so_dnsCache opts of None \<Rightarrow> None | Some p \<Rightarrow> sk_lookup now host (caches p))"
  define src where "src = (case cached of Some r \<Rightarrow> Inr (Some r) | None \<Rightarrow> answer host)"
  have plan: "sk_getRemote is_ip addr_String caches now answer i j remoteAddr (opts, True) =
      (case src of
         Inl _ \<Rightarrow> SkFail SkCancelled
       | Inr None \<Rightarrow> SkFail SkNoResult
       | Inr (Some r) \<Rightarrow>
           (case (sk_pick addr_String port i (sr_IPv4 r), sk_pick addr_String port j (sr_IPv6 r)) of
              (Some a, Some b) \<Rightarrow> SkRace a b
            | (Some a, None) \<Rightarrow> SkDial a
            | (None, Some b) \<Rightarrow> SkDial b
            | (None, None) \<Rightarrow> SkFail SkNoAddress))"
    using assms(3-5) by (simp add: sk_getRemote_def src_def cached_def)
  have src: "has_address r \<and> (answer host = Inr (Some r) \<or> (\<exists>p. sk_lookup now host (caches p) = Some r))"
    if "src = Inr (Some r)" for r
    using that assms(1,2) sk_lookup_good by (fastforce simp: src_def cached_def split: option.splits)
  have fail: "src = Inl u \<Longrightarrow> answer host = Inl u" "src = Inr None \<Longrightarrow> answer host = Inr None" for u
    by (auto simp: src_def split: option.splits)
  show ?thesis
  proof (cases src)
    case (Inl u)
    then show ?thesis using fail(1) by (simp add: plan)
  next
    case (Inr o1)
    show ?thesis
    proof (cases o1)
      case None
      then show ?thesis using Inr fail(2) by (simp add: plan)
    next
      case (Some r)
      then have r: "has_address r" "answer host = Inr (Some r) \<or> (\<exists>p. sk_lookup now host (caches p) = Some r)"
        using Inr src by auto
      show ?thesis
        using r Inr Some sk_pick_target(1) [of addr_String port]
        by (auto simp: plan has_address_def sk_pick_target(2,3) split: option.split)
    qed
  qed
qed

theorem socks_dial_plan_witness:
  "\<exists>t. sk_getRemote (\<lambda>_. False) (\<lambda>a. ''9.9.9.9'') (\<lambda>_. []) 0
      (\<lambda>h. Inr (Some \<lparr>sr_IPv4 = [Addr4 7], sr_IPv6 = [], sr_Deadline = None\<rparr>)) 0 0 ''go.dev:80'' (sk_example_opts, True) = SkDial t
    \<and> t = ''9.9.9.9:80''"
proof -
  let ?a = "\<lambda>h. Inr (Some \<lparr>sr_IPv4 = [Addr4 7], sr_IPv6 = [], sr_Deadline = None\<rparr>) :: unit + sk_result option"
  have s: "SplitHostPort ''go.dev:80'' = Some (''go.dev'', ''80'')" by (simp add: SplitHostPort_def last_index_byte_def)
  have g: "sk_caches_good (\<lambda>_. [])" by (simp add: sk_caches_good_def)
  have o: "so_Servers sk_example_opts \<noteq> []" by (simp add: sk_example_opts_def)
  show ?thesis
    using socks_dial_plan [OF g _ s o, of ?a "\<lambda>_. False" "\<lambda>a. ''9.9.9.9''" 0 0 0] s o
    by (simp add: has_address_def sk_getRemote_def sk_lookup_def sk_pick_def sk_target_def JoinHostPort_def split: option.splits)
qed

end
