(* ===== verification/Spec2Isabelle.thy ===== *)
theory Spec2Isabelle
  imports Match_Pattern Addr_Range Manager Http Dns_Tun Proxy_Conn Dial_Race Socks_Service
begin

text \<open>
  A verification development for the Go program \<open>chrome\<close>, which runs proxy services as a YAML
  file configures them and reloads them while they run.

  The parts of the program. The manager (\<open>service.go\<close>) holds a registry of services and a set of
  jobs; \<open>loadConfig\<close> compares a new configuration with the running jobs, stops, starts and
  reloads them, and sends each one a \<open>LoadEvent\<close> and later a \<open>LoadedEvent\<close>. Every job runs the
  loop of its service (\<open>service/**\<close>): on \<open>LoadEvent\<close> it takes new options, on \<open>LoadedEvent\<close> it
  listens. An accepted connection gets a remote one from \<open>Manager.NewConn\<close> (\<open>conn.go\<close>), which
  races dial attempts, and \<open>Manager.Relay\<close> (\<open>relay.go\<close>) copies between the two. The dial function is
  that of the service: through its chain of proxies (\<open>proxy.go\<close>, \<open>proxy/*.go\<close>), by the choice of a
  balancer, of the routes of \<open>http\<close>, or of an address that \<open>socks\<close> resolved itself. \<open>http\<close> and
  \<open>dnstun\<close> choose routes by allow lists, which are made of patterns (\<open>internal/matchset\<close>) and
  address ranges (\<open>internal/netiputil\<close>).

  Theories and code.

  \<^item> Prelude, Go_Text, Base64: vocabulary, facts on lists and words, and the routines of the Go library
    that several files call.
  \<^item> Charset, Matchset: \<open>internal/matchset/matchset.go\<close> as it is written. Match_Automaton,
    Match_Correct, Match_Syntax, Match_Pattern: the language of a pattern, read from its text without
    the compiler, and the proof that \<open>Add\<close> and \<open>MatchAll\<close> decide it.
  \<^item> Range_Set, Addr_Range: \<open>internal/netiputil\<close>, over any linear order and at the addresses.
  \<^item> Failover, Balancers: \<open>service/socks/balancer\<close>. The failover queue refines an abstract map from
    candidates to scores; \<open>roundrobin\<close> is a step relation over compare-and-swap.
  \<^item> Conn, Relay, Runtime: \<open>conn.go\<close>, \<open>relay.go\<close>, \<open>logging.go\<close>, \<open>serving.go\<close>.
  \<^item> Service, Service_System, Services: the loop that all services repeat, as the locale
    \<open>derived_service\<close> with an interpretation for each service; many jobs and a manager that sends
    them events under any schedule; the small services \<open>tcptun\<close>, \<open>pprof\<close>, \<open>httpfs\<close>, \<open>shadowsocks\<close>.
  \<^item> Manager: \<open>service.go\<close>.
  \<^item> Scan_Lines, Allow_List, Http: \<open>service/http/http.go\<close> and \<open>internal/httputil\<close>.
  \<^item> Dns_Options, Dns_Answer, Dns_Exchange, Dns_Tun: \<open>service/tcptun/dnstun/dnstun.go\<close>, from options
    and messages to the goroutines that share its caches.
  \<^item> Socks5_Client: \<open>proxy/x_net_socks.go\<close>. Per_Host: exceptions and environment of
    \<open>proxy/x_net_proxy.go\<close>. Units: \<open>bytes.go\<close> and the rates of \<open>proxy/ratelimit.go\<close>. Dialers: a dialer
    per URL scheme, and dialing as a list of hops. Proxy: \<open>proxy.go\<close>, chains of dialers. Proxy_Conn:
    what dialers do on their connections; \<open>dial_env_of\<close> puts that code into the hops of a dial,
    whose exchanges are otherwise two parameters (success, and whether the connection stays open). Dial_Race: \<open>proxy/dial.go\<close> and \<open>proxy_dialContext\<close> with
    all interleavings.
  \<^item> Dual_Dial, Socks_Service: \<open>service/socks/socks.go\<close>, the race of an IPv4 with an IPv6 dial, and
    the service around it, whose DNS client is that of \<open>dnstun\<close> and shares its definitions.

  State and operations. A struct is a record with the fields in the code's order, a method a
  definition with the code's name, if necessary with a prefix for its type (\<open>q_fix\<close>, \<open>sk_loop\<close>).
  Machine integers that can wrap are words or \<open>int\<close> with the wrap-around written out. An early
  return, a panic and an error are values of \<open>option\<close>, of a sum or of a datatype. Goroutines are step
  relations or step functions whose steps lie between two operations on channels, mutexes or
  timers; \<open>conn.go\<close> runs on one executor, so its steps are its suspensions. What the network, the
  clock, the random source and the file system answer is an argument of the definitions. The same
  holds for libraries outside the repository and for the larger ones of Go (\<open>net/http\<close>, \<open>crypto\<close>, parsers
  of URLs, addresses and YAML); a property names what it needs of them as a hypothesis.

  What the lemmas show. For data structures (patterns, charsets, range sets, the failover queue,
  allow lists, \<open>no_proxy\<close> lists): an invariant and the meaning of every operation in terms of sets or
  languages. For protocols (SOCKS5 requests, DNS frames, \<open>CONNECT\<close>, Shadowsocks URLs): round trips
  and what each side has sent and read. For the machines (connections, relays, dials, races, jobs,
  exchanges): an invariant over all reachable states, that they do not get stuck, and that no
  connection is left open or used by two. For the services: that the data derived from options
  (caches, ciphers, routes, queues) always fit the options in force, after any reloads.

  Bounds and fuel. Recursion follows the data or has a measure. Loops that may not end take the list
  of inputs that they consume (answers of the network, results of \<open>Accept\<close>, moves of a schedule)
  and yield \<open>None\<close> if it does not suffice. Two loops can diverge in the program: the scanner
  of a character group, whose \<open>None\<close> the theorems characterise exactly, and the inclusion of rule files, which
  is fuelled; its theorems say how much is enough.

  Where the model is coarser than the code. The turn of a DNS exchange that is not preempted
  (options, connection, question, answer, store) is one step of \<open>dns_sys_step\<close>; the worker and the other
  clients run between turns, and the lookup and the serving of a cached answer have a clock each.
  A route lookup of \<open>http\<close> is one step: a request that read the options before a reload keeps
  their routes and their cache, so it counts as one before it. A loop over a Go map takes the
  order of a list: \<open>load_jobs\<close> (so the sends of \<open>loadConfig\<close> go out in the order of the
  configuration) and the rules of \<open>allow_Init\<close> and \<open>dns_Init\<close>. \<open>sync_run\<close> is a manager that waits for each event
  to be handled, which \<open>loadConfig\<close> does not do; \<open>swap_race\<close> shows the difference. \<open>TrimSpace\<close> trims the white space of
  ASCII. A dialer without \<open>DialContext\<close>, which only a caller of \<open>MakeProxy\<close> can supply, is
  the constructor \<open>Foreign\<close>: the hops do not include the goroutine of \<open>proxy_dialContext\<close>, which Dial_Race has.
  DNS over plain HTTP is asked on the connection that was made, where the transport dials itself.

  Not modelled. The commands and process start (\<open>cmd/chrome/main.go\<close>), finding and decoding the YAML
  file (\<open>Load*\<close> of \<open>service.go\<close>, \<open>envstring.go\<close>), and log messages: input and output without
  decisions. \<open>v2ray\<close> and \<open>v2socks\<close> with \<open>internal/v2ray\<close>: they hand a JSON template to the V2Ray core, which is
  not in the repository. \<open>internal/netutil/connchecker.go\<close>. Encrypted streams, TLS,
  HTTP and DNS wire formats beyond the parts above: library code. Time passes only through the
  arguments that carry it.
\<close>

end
